(* ===== verification/Prelude.thy ===== *)
theory Prelude
  imports Main "HOL-Library.Word" "HOL-Library.AList"
begin

text \<open>
  What every component shares.

  \<^item> The machine types of the Go code: a \<open>byte\<close> is an 8-bit word, and both \<open>[]byte\<close>
    and \<open>string\<close> (which in Go is a byte sequence) are lists of them. \<open>uint64\<close> values are
    natural numbers; the one place where a \<open>uint64\<close> or \<open>int64\<close> can wrap, the decoding of a
    variable length integer, writes the wrap-around out with \<open>u64\<close> and \<open>i64\<close>.
  \<^item> Errors are values: \<open>err\<close> has one constructor per error variable of the packages
    \<open>lib0\<close>, \<open>crdt\<close>, \<open>protocol\<close> and \<open>cluster\<close>, and a fallible function returns
    \<open>err + 'a\<close>.
  \<^item> A Go map that the code iterates over is an association list with distinct keys, updated
    with \<open>AList.update\<close> and read with \<open>map_of\<close>; the order of the list is one of the
    iteration orders Go may choose.
  \<^item> \<open>sort.Search\<close>, the binary search of the standard library, and the lemma that on a
    monotone predicate it finds the first index.
\<close>

subsection \<open>Machine types and errors\<close>

type_synonym byte = "8 word"
type_synonym bytes = "byte list"

datatype err =
    ErrUnexpectedEOF
  | ErrIntegerOutOfRange
  | ErrNegativeLength
  | ErrUnknownAnyTag
  | ErrUnsupportedType
  | ErrDepthExceeded
  | ErrUnknownContentRef
  | ErrUnknownTypeRef
  | ErrCorruptUpdate
  | ErrMissingStruct
  | ErrClockGap
  | ErrNotSplittable
  | ErrSplitSurrogate
  | ErrUnknownMessageType nat
  | ErrUnknownSyncType nat
  | ErrUnknownAuthType nat
  | ErrTrailingBytes
  | ErrAwarenessClockOutOfRange
  | ErrStateTooLarge nat nat
  | ErrTooManyClients nat
  | ErrVersion nat
  | ErrKind nat
  | ErrOriginOutOfRange nat

type_synonym 'a res = "err + 'a"

definition str :: "string \<Rightarrow> bytes" where
  "str s = map of_char s"

definition u64 :: "nat \<Rightarrow> nat" where
  "u64 n = n mod 2 ^ 64"

definition i64 :: "int \<Rightarrow> int" where
  "i64 n = (n + 2 ^ 63) mod 2 ^ 64 - 2 ^ 63"

subsection \<open>Binary search\<close>

function search_loop :: "(nat \<Rightarrow> bool) \<Rightarrow> nat \<Rightarrow> nat \<Rightarrow> nat" where
  "search_loop f i j =
     (if i < j
      then (let h = (i + j) div 2 in if \<not> f h then search_loop f (h + 1) j else search_loop f i h)
      else i)"
  by pat_completeness auto
termination
  by (relation "measure (\<lambda>(f, i, j). j - i)") auto

declare search_loop.simps [simp del]

definition sort_Search :: "nat \<Rightarrow> (nat \<Rightarrow> bool) \<Rightarrow> nat" where
  "sort_Search n f = search_loop f 0 n"

subsection \<open>Collections of facts\<close>

named_theorems emits_intros \<open>what a writer appends to the buffer\<close>
named_theorems parses_intros \<open>which bytes a reader accepts\<close>
named_theorems reader_rules \<open>readers stay inside their input\<close>

subsection \<open>Lemmas on binary search\<close>

lemma search_loop_least:
  assumes "\<And>a b. a \<le> b \<Longrightarrow> b < n \<Longrightarrow> f a \<Longrightarrow> f b"
    and "i \<le> j" and "j \<le> n" and "\<And>k. k < i \<Longrightarrow> \<not> f k" and "\<And>k. j \<le> k \<Longrightarrow> k < n \<Longrightarrow> f k"
  shows "search_loop f i j \<le> n \<and> (\<forall>k < search_loop f i j. \<not> f k)
     \<and> (\<forall>k. search_loop f i j \<le> k \<longrightarrow> k < n \<longrightarrow> f k)"
  using assms
proof (induction f i j rule: search_loop.induct)
  case (1 f i j)
  define h where "h = (i + j) div 2"
  consider "i < j" "f h" | "i < j" "\<not> f h" | "\<not> i < j" by blast
  then show ?case
  proof cases
    case 1
    then have h: "i \<le> h" "h \<le> j" by (auto simp: h_def)
    have up: "\<And>k. h \<le> k \<Longrightarrow> k < n \<Longrightarrow> f k" using "1.prems"(1) \<open>f h\<close> by blast
    have "h \<le> n" using h(2) "1.prems"(3) by linarith
    have nn: "\<not> \<not> f h" using \<open>f h\<close> by simp
    from "1.IH"(2) [OF 1(1) h_def nn "1.prems"(1) h(1) \<open>h \<le> n\<close> "1.prems"(4) up]
    show ?thesis using 1 by (simp add: search_loop.simps [of f i j] h_def [symmetric] Let_def)
  next
    case 2
    then have h: "h + 1 \<le> j" by (auto simp: h_def)
    have "h < n" using h "1.prems"(3) by linarith
    have lo: "\<And>k. k < h + 1 \<Longrightarrow> \<not> f k"
      using "1.prems"(1) [OF _ \<open>h < n\<close>] 2(2) by (metis less_Suc_eq_le Suc_eq_plus1)
    from "1.IH"(1) [OF 2(1) h_def 2(2) "1.prems"(1) h "1.prems"(3) lo "1.prems"(5)]
    show ?thesis using 2 by (simp add: search_loop.simps [of f i j] h_def [symmetric] Let_def)
  next
    case 3
    then have "i = j" using "1.prems"(2) by simp
    then show ?thesis using "1.prems"(3-5) by (simp add: search_loop.simps [of f j j])
  qed
qed

lemma sort_Search_least:
  assumes "\<forall>a b. a \<le> b \<longrightarrow> b < n \<longrightarrow> f a \<longrightarrow> f b"
  shows "sort_Search n f \<le> n" and "k < sort_Search n f \<Longrightarrow> \<not> f k"
    and "sort_Search n f \<le> k \<Longrightarrow> k < n \<Longrightarrow> f k"
proof -
  have "search_loop f 0 n \<le> n \<and> (\<forall>k < search_loop f 0 n. \<not> f k)
      \<and> (\<forall>k. search_loop f 0 n \<le> k \<longrightarrow> k < n \<longrightarrow> f k)"
    by (rule search_loop_least) (use assms in auto)
  then show "sort_Search n f \<le> n" and "k < sort_Search n f \<Longrightarrow> \<not> f k"
    and "sort_Search n f \<le> k \<Longrightarrow> k < n \<Longrightarrow> f k"
    by (auto simp: sort_Search_def)
qed

lemma sort_Search_eqI:
  assumes mono: "\<forall>a b. a \<le> b \<longrightarrow> b < n \<longrightarrow> f a \<longrightarrow> f b"
    and "i < n" and "f i" and lo: "\<And>k. k < i \<Longrightarrow> \<not> f k"
  shows "sort_Search n f = i"
proof -
  note least = sort_Search_least [OF mono]
  have "\<not> i < sort_Search n f" using least(2) assms(3) by blast
  moreover have "\<not> sort_Search n f < i"
    using least(3) [OF order.refl] lo assms(2) by (meson order.strict_trans)
  ultimately show ?thesis by simp
qed

subsection \<open>Lemmas on words and wrap-around\<close>

lemma u64_small [simp]: "n < 2 ^ 64 \<Longrightarrow> u64 n = n"
  by (simp add: u64_def)

lemma u64_bound [simp]: "u64 n < 18446744073709551616"
  by (simp add: u64_def)

lemma i64_small: "- (2 ^ 63) \<le> n \<Longrightarrow> n < 2 ^ 63 \<Longrightarrow> i64 n = n"
  by (simp add: i64_def)

subsection \<open>Lemmas on association lists\<close>

lemma list_all_update: "list_all P m \<Longrightarrow> P (k, v) \<Longrightarrow> list_all P (AList.update k v m)"
  by (induction m) auto

lemma length_update: "length (AList.update k v m) = (if map_of m k = None then Suc (length m) else length m)"
  by (induction m) auto

lemma map_of_filter_key:
  "distinct (map fst m) \<Longrightarrow> map_of (filter P m) k = (case map_of m k of None \<Rightarrow> None | Some v \<Rightarrow> if P (k, v) then Some v else None)"
  by (induction m) (auto split: option.splits simp: image_iff dest: map_of_SomeD)

subsection \<open>Operations that keep an invariant\<close>

locale keeps =
  fixes inv :: "'s \<Rightarrow> bool"
    and pre :: "'x \<Rightarrow> bool"
    and step :: "'x \<Rightarrow> 's \<Rightarrow> 's"
  assumes keep: "pre x \<Longrightarrow> inv s \<Longrightarrow> inv (step x s)"
begin

lemma keep_all: "list_all pre xs \<Longrightarrow> inv s \<Longrightarrow> inv (fold step xs s)"
  by (induction xs arbitrary: s) (simp_all add: keep)

end

end
