(* ===== verification/Lib0.thy ===== *)
theory Lib0
  imports Prelude
begin

text \<open>
  The package \<open>internal/crdt/lib0\<close> without the \<open>any\<close> format: the \<open>Decoder\<close> (a
  buffer and a read offset), the \<open>Encoder\<close> (a buffer and the first error, after which
  every write is a no-op) and the variable length integers, strings and byte arrays built on
  them.

  A reader is a function from a decoder to an error or a value with the advanced decoder; a
  writer is a function on encoders. Two judgements connect them to bytes: \<open>emits w bs\<close> says
  that the writer \<open>w\<close> appends exactly \<open>bs\<close> and does not fail, and \<open>parses r bs x\<close> says
  that the reader \<open>r\<close>, standing in front of \<open>bs\<close>, returns \<open>x\<close> and stands behind them.
  The locale \<open>codec\<close> is the interface of a writer/reader pair that the rest of the wire
  format is built from; what follows for lists, prefixes and whole frames is proved there once.
\<close>

unbundle bit_operations_syntax

subsection \<open>The decoder\<close>

definition MaxSafeInteger :: nat where
  "MaxSafeInteger = 2 ^ 53 - 1"

record decoder =
  buf :: bytes
  pos :: nat

type_synonym 'a reader = "decoder \<Rightarrow> ('a \<times> decoder) res"

definition NewDecoder :: "bytes \<Rightarrow> decoder" where
  "NewDecoder b = \<lparr>buf = b, pos = 0\<rparr>"

definition Remaining :: "decoder \<Rightarrow> nat" where
  "Remaining d = length (buf d) - pos d"

definition Done :: "decoder \<Rightarrow> bool" where
  "Done d \<longleftrightarrow> length (buf d) \<le> pos d"

definition ReadUint8 :: "byte reader" where
  "ReadUint8 d =
     (if length (buf d) \<le> pos d then Inl ErrUnexpectedEOF
      else Inr (buf d ! pos d, d\<lparr>pos := pos d + 1\<rparr>))"

definition ReadBytes :: "int \<Rightarrow> bytes reader" where
  "ReadBytes n d =
     (if n < 0 then Inl ErrNegativeLength
      else if int (Remaining d) < n then Inl ErrUnexpectedEOF
      else Inr (take (nat n) (drop (pos d) (buf d)), d\<lparr>pos := pos d + nat n\<rparr>))"

function readVarUint_loop :: "nat \<Rightarrow> nat \<Rightarrow> nat reader" where
  "readVarUint_loop num mult d =
     (if pos d < length (buf d)
      then (let r = buf d ! pos d;
                d = d\<lparr>pos := pos d + 1\<rparr>;
                num = u64 (num + u64 (unat (r AND 0x7F) * mult));
                mult = u64 (mult * 128)
            in if r < 0x80 then Inr (num, d)
               else if MaxSafeInteger < num then Inl ErrIntegerOutOfRange
               else readVarUint_loop num mult d)
      else Inl ErrUnexpectedEOF)"
  by pat_completeness auto
termination
  by (relation "measure (\<lambda>(num, mult, d). length (buf d) - pos d)") auto

declare readVarUint_loop.simps [simp del]

definition ReadVarUint :: "nat reader" where
  "ReadVarUint = readVarUint_loop 0 1"

function readVarInt_loop :: "int \<Rightarrow> int \<Rightarrow> int \<Rightarrow> int reader" where
  "readVarInt_loop sign num mult d =
     (if pos d < length (buf d)
      then (let r = buf d ! pos d;
                d = d\<lparr>pos := pos d + 1\<rparr>;
                num = i64 (num + i64 (uint (r AND 0x7F) * mult));
                mult = i64 (mult * 128)
            in if r < 0x80 then Inr (i64 (sign * num), d)
               else if int MaxSafeInteger < num then Inl ErrIntegerOutOfRange
               else readVarInt_loop sign num mult d)
      else Inl ErrUnexpectedEOF)"
  by pat_completeness auto
termination
  by (relation "measure (\<lambda>(sign, num, mult, d). length (buf d) - pos d)") auto

declare readVarInt_loop.simps [simp del]

definition ReadVarInt :: "int reader" where
  "ReadVarInt d =
     (if length (buf d) \<le> pos d then Inl ErrUnexpectedEOF
      else (let r = buf d ! pos d;
                d = d\<lparr>pos := pos d + 1\<rparr>;
                num = uint (r AND 0x3F);
                sign = (if r AND 0x40 \<noteq> 0 then -1 else 1)
            in if r AND 0x80 = 0 then Inr (sign * num, d)
               else readVarInt_loop sign num 64 d))"

definition rbind :: "'a reader \<Rightarrow> ('a \<Rightarrow> 'b reader) \<Rightarrow> 'b reader" where
  "rbind r f d = (case r d of Inl e \<Rightarrow> Inl e | Inr (x, d') \<Rightarrow> f x d')"

definition rreturn :: "'a \<Rightarrow> 'a reader" where
  "rreturn x d = Inr (x, d)"

definition rfail :: "err \<Rightarrow> 'a reader" where
  "rfail e d = Inl e"

primrec rtimes :: "nat \<Rightarrow> 'a reader \<Rightarrow> 'a list reader" where
  "rtimes 0 r = rreturn []"
| "rtimes (Suc n) r = rbind r (\<lambda>x. rbind (rtimes n r) (\<lambda>xs. rreturn (x # xs)))"

definition ReadVarUint8Array :: "bytes reader" where
  "ReadVarUint8Array = rbind ReadVarUint (\<lambda>n d.
     if Remaining d < n then Inl ErrUnexpectedEOF else ReadBytes (int n) d)"

definition ReadVarString :: "bytes reader" where
  "ReadVarString = rbind ReadVarUint8Array rreturn"

subsection \<open>The encoder\<close>

record encoder =
  ebuf :: bytes
  enc_err :: "err option"

definition NewEncoder :: encoder where
  "NewEncoder = \<lparr>ebuf = [], enc_err = None\<rparr>"

definition Reset :: "encoder \<Rightarrow> encoder" where
  "Reset e = e\<lparr>ebuf := [], enc_err := None\<rparr>"

definition fail :: "err \<Rightarrow> encoder \<Rightarrow> encoder" where
  "fail er e = (if enc_err e = None then e\<lparr>enc_err := Some er\<rparr> else e)"

definition WriteUint8 :: "byte \<Rightarrow> encoder \<Rightarrow> encoder" where
  "WriteUint8 b e = (if enc_err e \<noteq> None then e else e\<lparr>ebuf := ebuf e @ [b]\<rparr>)"

definition WriteBytes :: "bytes \<Rightarrow> encoder \<Rightarrow> encoder" where
  "WriteBytes b e = (if enc_err e \<noteq> None then e else e\<lparr>ebuf := ebuf e @ b\<rparr>)"

fun writeVarUint_loop :: "nat \<Rightarrow> bytes \<Rightarrow> bytes" where
  "writeVarUint_loop v b =
     (if 0x7F < v
      then writeVarUint_loop (v div 128) (b @ [0x80 OR word_of_nat (v mod 128)])
      else b @ [word_of_nat v])"

declare writeVarUint_loop.simps [simp del]

definition WriteVarUint :: "nat \<Rightarrow> encoder \<Rightarrow> encoder" where
  "WriteVarUint v e =
     (if enc_err e \<noteq> None then e
      else if MaxSafeInteger < v then fail ErrIntegerOutOfRange e
      else e\<lparr>ebuf := writeVarUint_loop v (ebuf e)\<rparr>)"

fun writeVarInt_loop :: "nat \<Rightarrow> bytes \<Rightarrow> bytes" where
  "writeVarInt_loop num bs =
     (if 0 < num
      then (let b = word_of_nat (num mod 128);
                b = (if 0x7F < num then b OR 0x80 else b)
            in writeVarInt_loop (num div 128) (bs @ [b]))
      else bs)"

declare writeVarInt_loop.simps [simp del]

definition WriteVarInt :: "int \<Rightarrow> encoder \<Rightarrow> encoder" where
  "WriteVarInt v e =
     (if enc_err e \<noteq> None then e
      else if v < - int MaxSafeInteger \<or> int MaxSafeInteger < v then fail ErrIntegerOutOfRange e
      else (let negative = (v < 0);
                num = nat (if negative then - v else v);
                first = word_of_nat (num mod 64);
                first = (if 0x3F < num then first OR 0x80 else first);
                first = (if negative then first OR 0x40 else first)
            in e\<lparr>ebuf := writeVarInt_loop (num div 64) (ebuf e @ [first])\<rparr>))"

definition WriteVarUint8Array :: "bytes \<Rightarrow> encoder \<Rightarrow> encoder" where
  "WriteVarUint8Array b e =
     (if enc_err e \<noteq> None then e
      else (let e = WriteVarUint (length b) e; e = WriteBytes b e in e))"

definition WriteVarString :: "bytes \<Rightarrow> encoder \<Rightarrow> encoder" where
  "WriteVarString s e =
     (if enc_err e \<noteq> None then e
      else (let e = WriteVarUint (length s) e; e = WriteBytes s e in e))"

text \<open>What an encoder hands out: \<open>Bytes\<close> after the caller has checked \<open>Err\<close>.\<close>

definition finish :: "encoder \<Rightarrow> bytes res" where
  "finish e = (case enc_err e of Some er \<Rightarrow> Inl er | None \<Rightarrow> Inr (ebuf e))"

subsection \<open>Writers, readers and the bytes between them\<close>

definition unread :: "decoder \<Rightarrow> bytes" where
  "unread d = drop (pos d) (buf d)"

definition emits :: "(encoder \<Rightarrow> encoder) \<Rightarrow> bytes \<Rightarrow> bool" where
  "emits w bs \<longleftrightarrow> (\<forall>e. enc_err e = None \<longrightarrow> w e = e\<lparr>ebuf := ebuf e @ bs\<rparr>)"

definition parses :: "'a reader \<Rightarrow> bytes \<Rightarrow> 'a \<Rightarrow> bool" where
  "parses r bs x \<longleftrightarrow>
     (\<forall>d rest. unread d = bs @ rest \<longrightarrow> (\<exists>d'. r d = Inr (x, d') \<and> unread d' = rest))"

definition out :: "(encoder \<Rightarrow> encoder) \<Rightarrow> bytes" where
  "out w = ebuf (w NewEncoder)"

definition within :: "decoder \<Rightarrow> bool" where
  "within d \<longleftrightarrow> pos d \<le> length (buf d)"

definition sound :: "'a reader \<Rightarrow> ('a \<Rightarrow> nat \<Rightarrow> bool) \<Rightarrow> bool" where
  "sound r P \<longleftrightarrow>
     (\<forall>d x d'. within d \<longrightarrow> r d = Inr (x, d') \<longrightarrow>
        within d' \<and> buf d' = buf d \<and> pos d \<le> pos d' \<and> P x (pos d' - pos d))"

locale codec =
  fixes wr :: "'a \<Rightarrow> encoder \<Rightarrow> encoder"
    and rd :: "'a reader"
    and ok :: "'a \<Rightarrow> bool"
  assumes wire: "ok x \<Longrightarrow> \<exists>bs. bs \<noteq> [] \<and> emits (wr x) bs \<and> parses rd bs x"

subsection \<open>Lemmas: standing in front of bytes\<close>

lemma unread_NewDecoder [simp]: "unread (NewDecoder b) = b"
  by (simp add: unread_def NewDecoder_def)

lemma unread_Cons:
  assumes "unread d = b # rest"
  shows "pos d < length (buf d)" and "buf d ! pos d = b"
    and "unread (d\<lparr>pos := Suc (pos d)\<rparr>) = rest"
  using assms by (auto simp: unread_def drop_Suc Cons_nth_drop_Suc [symmetric] nth_via_drop tl_drop
      dest: arg_cong [where f = length] arg_cong [where f = tl])

lemma Remaining_unread: "Remaining d = length (unread d)"
  by (simp add: Remaining_def unread_def)

lemma Done_unread: "Done d \<longleftrightarrow> unread d = []"
  by (auto simp: Done_def unread_def)

lemma out_emits: "emits w bs \<Longrightarrow> out w = bs"
  by (simp add: emits_def out_def NewEncoder_def)

lemma finish_emits: "emits w bs \<Longrightarrow> finish (w NewEncoder) = Inr bs"
  by (simp add: emits_def finish_def NewEncoder_def)

lemma emitsD: "emits w bs \<Longrightarrow> enc_err e = None \<Longrightarrow> w e = e\<lparr>ebuf := ebuf e @ bs\<rparr>"
  by (simp add: emits_def)

lemma emits_seq [emits_intros]:
  "emits w1 b1 \<Longrightarrow> emits w2 b2 \<Longrightarrow> emits (\<lambda>e. w2 (w1 e)) (b1 @ b2)"
  by (simp add: emits_def)

lemma emits_id [emits_intros]: "emits (\<lambda>e. e) []"
  by (simp add: emits_def)

lemma emits_fold:
  "(\<And>x. x \<in> set xs \<Longrightarrow> emits (w x) (b x)) \<Longrightarrow> emits (fold w xs) (concat (map b xs))"
proof (induction xs)
  case Nil
  then show ?case by (simp add: emits_def)
next
  case (Cons x xs)
  then have "emits (w x) (b x)" and "emits (fold w xs) (concat (map b xs))" by auto
  then show ?case by (simp add: emits_def)
qed

lemma parsesI:
  "(\<And>d rest. unread d = bs @ rest \<Longrightarrow> \<exists>d'. r d = Inr (x, d') \<and> unread d' = rest) \<Longrightarrow> parses r bs x"
  by (simp add: parses_def)

lemma parsesE:
  assumes "parses r bs x" and "unread d = bs @ rest"
  obtains d' where "r d = Inr (x, d')" and "unread d' = rest"
  using assms by (auto simp: parses_def)

lemma parses_bind [parses_intros]:
  assumes "parses r b1 x" and "parses (f x) b2 y"
  shows "parses (rbind r f) (b1 @ b2) y"
proof (rule parsesI)
  fix d rest assume "unread d = (b1 @ b2) @ rest"
  then have "unread d = b1 @ (b2 @ rest)" by simp
  with assms(1) obtain d' where d': "r d = Inr (x, d')" "unread d' = b2 @ rest" by (rule parsesE)
  from assms(2) d'(2) obtain d'' where "f x d' = Inr (y, d'')" "unread d'' = rest" by (rule parsesE)
  with d' show "\<exists>d'. rbind r f d = Inr (y, d') \<and> unread d' = rest" by (simp add: rbind_def)
qed

lemma parses_return [parses_intros]: "parses (rreturn x) [] x"
  by (simp add: parses_def rreturn_def)

lemma parses_bind_return [parses_intros]:
  "parses r bs x \<Longrightarrow> y = f x \<Longrightarrow> parses (rbind r (\<lambda>x. rreturn (f x))) bs y"
  using parses_bind [of r bs x "\<lambda>x. rreturn (f x)" "[]" y] by (simp add: parses_return)

lemma parses_rtimes:
  "(\<And>x. x \<in> set xs \<Longrightarrow> parses r (b x) x) \<Longrightarrow> parses (rtimes (length xs) r) (concat (map b xs)) xs"
proof (induction xs)
  case Nil
  then show ?case by (simp add: parses_return)
next
  case (Cons x xs)
  then have "parses r (b x) x" and "parses (rtimes (length xs) r) (concat (map b xs)) xs" by auto
  then show ?case
    using parses_bind [of r "b x" x "\<lambda>x. rbind (rtimes (length xs) r) (\<lambda>xs. rreturn (x # xs))"]
    by (simp add: parses_bind_return)
qed

text \<open>The guard in front of every counted loop: a count that exceeds the input is refused.\<close>

lemma parses_guard [parses_intros]:
  assumes "parses r bs x" and "n \<le> length bs"
  shows "parses (\<lambda>d. if Remaining d < n then Inl ErrUnexpectedEOF else r d) bs x"
  using assms by (auto simp: parses_def Remaining_unread)

subsection \<open>What every codec gives\<close>

lemma codecI:
  assumes "\<And>x. ok x \<Longrightarrow> b x \<noteq> []" and "\<And>x. ok x \<Longrightarrow> emits (w x) (b x)"
    and "\<And>x. ok x \<Longrightarrow> parses r (b x) x"
  shows "codec w r ok"
  using assms by unfold_locales blast

context codec
begin

lemma emits_out: "ok x \<Longrightarrow> emits (wr x) (out (wr x))"
  using wire out_emits by metis

lemma parses_out: "ok x \<Longrightarrow> parses rd (out (wr x)) x"
  using wire out_emits by metis

lemma out_nonempty: "ok x \<Longrightarrow> out (wr x) \<noteq> []"
  using wire out_emits by metis

text \<open>No encoding is a prefix of another one: a decoder knows where a value ends.\<close>

lemma prefix_free:
  assumes "ok x" and "ok y" and "out (wr x) @ r = out (wr y) @ s"
  shows "x = y \<and> r = s"
proof -
  let ?d = "NewDecoder (out (wr x) @ r)"
  obtain d1 where "rd ?d = Inr (x, d1)" "unread d1 = r"
    by (rule parsesE [OF parses_out [OF assms(1)], of ?d r]) simp_all
  moreover obtain d2 where "rd ?d = Inr (y, d2)" "unread d2 = s"
    by (rule parsesE [OF parses_out [OF assms(2)], of ?d s]) (simp_all add: assms(3))
  ultimately show ?thesis by simp
qed

text \<open>A frame that holds one value and nothing else.\<close>

lemma frame:
  assumes "ok x"
  shows "\<exists>bs d'. finish (wr x NewEncoder) = Inr bs \<and> rd (NewDecoder bs) = Inr (x, d') \<and> Done d'"
proof -
  obtain d' where "rd (NewDecoder (out (wr x))) = Inr (x, d')" "unread d' = []"
    by (rule parsesE [OF parses_out [OF assms], of "NewDecoder (out (wr x))" "[]"]) simp_all
  then show ?thesis
    using finish_emits [OF emits_out [OF assms]] by (auto simp: Done_unread)
qed

text \<open>A run of values, written by a loop and read by a loop.\<close>

lemma run_emits: "list_all ok xs \<Longrightarrow> emits (fold wr xs) (concat (map (\<lambda>x. out (wr x)) xs))"
  by (rule emits_fold) (simp add: emits_out list_all_iff)

lemma run_parses:
  "list_all ok xs \<Longrightarrow> parses (rtimes (length xs) rd) (concat (map (\<lambda>x. out (wr x)) xs)) xs"
  by (rule parses_rtimes) (simp add: parses_out list_all_iff)

lemma run_length: "list_all ok xs \<Longrightarrow> length xs \<le> length (concat (map (\<lambda>x. out (wr x)) xs))"
proof (induction xs)
  case (Cons x xs)
  then have "1 \<le> length (out (wr x))" using out_nonempty by (simp add: Suc_le_eq)
  with Cons show ?case by simp
qed simp

lemma run_guarded:
  "list_all ok xs \<Longrightarrow>
     parses (\<lambda>d. if Remaining d < length xs then Inl ErrUnexpectedEOF else rtimes (length xs) rd d)
       (concat (map (\<lambda>x. out (wr x)) xs)) xs"
  by (intro parses_guard run_parses run_length)

end

subsection \<open>Lemmas: variable length integers\<close>

lemma writeVarUint_loop_append: "writeVarUint_loop v b = b @ writeVarUint_loop v []"
proof (induction v arbitrary: b rule: less_induct)
  case (less v)
  show ?case
  proof (cases "0x7F < v")
    case True
    then have "v div 128 < v" by simp
    note IH = less.IH [OF this]
    from True show ?thesis
      by (subst (1 2) writeVarUint_loop.simps)
        (simp add: IH [of "b @ [0x80 OR word_of_nat (v mod 128)]"]
          IH [of "[0x80 OR word_of_nat (v mod 128)]"])
  next
    case False
    then show ?thesis by (simp add: writeVarUint_loop.simps)
  qed
qed

lemma varuint_small: "v \<le> 0x7F \<Longrightarrow> writeVarUint_loop v [] = [word_of_nat v]"
  by (simp add: writeVarUint_loop.simps)

lemma varuint_large:
  "0x7F < v \<Longrightarrow> writeVarUint_loop v [] =
     (0x80 OR word_of_nat (v mod 128)) # writeVarUint_loop (v div 128) []"
  by (subst writeVarUint_loop.simps) (simp add: writeVarUint_loop_append [of _ "[_]"])

lemma unat_low_byte: "v < 256 \<Longrightarrow> unat (word_of_nat v :: byte) = v"
  by (simp add: unat_of_nat take_bit_nat_eq_self)

lemma continuation_byte:
  assumes "v < 128"
  shows "unat ((0x80 OR word_of_nat v :: byte) AND 0x7F) = v"
    and "\<not> (0x80 OR word_of_nat v :: byte) < 0x80"
proof -
  have "\<forall>v\<in>set [0..<128]. unat ((0x80 OR word_of_nat v :: byte) AND 0x7F) = v"
    by code_simp
  with assms show "unat ((0x80 OR word_of_nat v :: byte) AND 0x7F) = v" by simp
  have "\<forall>v\<in>set [0..<128]. \<not> (0x80 OR word_of_nat v :: byte) < 0x80"
    by code_simp
  with assms show "\<not> (0x80 OR word_of_nat v :: byte) < 0x80" by simp
qed

lemma final_byte:
  assumes "v < 128"
  shows "unat ((word_of_nat v :: byte) AND 0x7F) = v" and "(word_of_nat v :: byte) < 0x80"
proof -
  have "\<forall>v\<in>set [0..<128]. unat ((word_of_nat v :: byte) AND 0x7F) = v"
    by code_simp
  with assms show "unat ((word_of_nat v :: byte) AND 0x7F) = v" by simp
  have "\<forall>v\<in>set [0..<128]. (word_of_nat v :: byte) < 0x80"
    by code_simp
  with assms show "(word_of_nat v :: byte) < 0x80" by simp
qed

lemma parses_byte:
  assumes "\<And>d rest. pos d < length (buf d) \<Longrightarrow> buf d ! pos d = b \<Longrightarrow>
      unread (d\<lparr>pos := Suc (pos d)\<rparr>) = bs @ rest \<Longrightarrow> \<exists>d'. r d = Inr (x, d') \<and> unread d' = rest"
  shows "parses r (b # bs) x"
  using assms unread_Cons by (simp add: parses_def)

lemma readVarUint_loop_parses:
  assumes "num + v * mult \<le> MaxSafeInteger" and "0 < mult"
  shows "parses (readVarUint_loop num mult) (writeVarUint_loop v []) (num + v * mult)"
  using assms
proof (induction v arbitrary: num mult rule: less_induct)
  case (less v)
  show ?case
  proof (cases "0x7F < v")
    case False
    have "u64 (num + u64 (v * mult)) = num + v * mult"
      using less.prems by (simp add: MaxSafeInteger_def)
    with False show ?thesis
      by (auto simp: varuint_small readVarUint_loop.simps [of num] final_byte Let_def intro!: parses_byte)
  next
    case True
    let ?b = "0x80 OR word_of_nat (v mod 128) :: byte"
    have split: "v * mult = v mod 128 * mult + v div 128 * (mult * 128)"
      by (metis add.commute add_mult_distrib div_mult_mod_eq mult.assoc mult.commute)
    have "128 * mult \<le> v * mult" using True by simp
    then have m: "u64 (mult * 128) = mult * 128" and "u64 (num + u64 (v mod 128 * mult)) = num + v mod 128 * mult"
      and "\<not> MaxSafeInteger < num + v mod 128 * mult"
      using less.prems split by (auto simp: MaxSafeInteger_def)
    moreover have "parses (readVarUint_loop (num + v mod 128 * mult) (mult * 128))
        (writeVarUint_loop (v div 128) []) (num + v * mult)"
      using less.IH [of "v div 128" "num + v mod 128 * mult" "mult * 128"] True less.prems split
      by (simp add: add.assoc)
    ultimately show ?thesis using True
      by (auto simp: varuint_large readVarUint_loop.simps [of num mult] continuation_byte Let_def
          intro!: parses_byte elim!: parsesE)
  qed
qed

lemma emits_WriteVarUint [emits_intros]:
  "v \<le> MaxSafeInteger \<Longrightarrow> emits (WriteVarUint v) (writeVarUint_loop v [])"
  by (auto simp: emits_def WriteVarUint_def writeVarUint_loop_append [of v "ebuf _"])

lemma parses_ReadVarUint [parses_intros]:
  "v \<le> MaxSafeInteger \<Longrightarrow> parses ReadVarUint (writeVarUint_loop v []) v"
  using readVarUint_loop_parses [of 0 v 1] by (simp add: ReadVarUint_def)

lemma varuint_nonempty [simp]: "writeVarUint_loop v [] \<noteq> []"
  by (cases "0x7F < v") (simp_all add: varuint_small varuint_large)

interpretation varuint: codec WriteVarUint ReadVarUint "\<lambda>v. v \<le> MaxSafeInteger"
  by (rule codecI [where b = "\<lambda>v. writeVarUint_loop v []"]) (simp_all add: emits_intros parses_intros)

subsection \<open>Lemmas: signed integers, byte arrays and strings\<close>

lemma writeVarInt_loop_append: "writeVarInt_loop v b = b @ writeVarInt_loop v []"
proof (induction v arbitrary: b rule: less_induct)
  case (less v)
  show ?case
  proof (cases "0 < v")
    case True
    then have "v div 128 < v" by simp
    note IH = less.IH [OF this]
    let ?c = "if 0x7F < v then word_of_nat (v mod 128) OR 0x80 else word_of_nat (v mod 128) :: byte"
    from True show ?thesis
      by (subst (1 2) writeVarInt_loop.simps) (simp add: IH [of "b @ [?c]"] IH [of "[?c]"] Let_def)
  next
    case False
    then show ?thesis by (simp add: writeVarInt_loop.simps)
  qed
qed

lemma varint_Cons:
  "0 < v \<Longrightarrow> writeVarInt_loop v [] =
     (if 0x7F < v then word_of_nat (v mod 128) OR 0x80 else word_of_nat (v mod 128))
       # writeVarInt_loop (v div 128) []"
  by (subst writeVarInt_loop.simps) (simp add: writeVarInt_loop_append [of _ "[_]"] Let_def)

lemma varint_0: "writeVarInt_loop 0 [] = []"
  by (simp add: writeVarInt_loop.simps)

lemma i64_i64: "i64 (i64 n) = i64 n"
  by (simp add: i64_def)

lemma i64_safe: "\<bar>n\<bar> \<le> int MaxSafeInteger \<Longrightarrow> i64 n = n"
  by (rule i64_small) (auto simp: MaxSafeInteger_def)

lemma uint_of_unat: "unat (b :: byte) = n \<Longrightarrow> uint b = int n"
  by auto

lemmas uint_final_byte = final_byte(1) [THEN uint_of_unat]
lemmas uint_continuation_byte = continuation_byte(1) [THEN uint_of_unat, unfolded or.commute [of "0x80"]]
lemmas continuation_byte_large = continuation_byte(2) [unfolded or.commute [of "0x80"]]

lemma readVarInt_loop_parses:
  assumes "num + int v * mult \<le> int MaxSafeInteger" and "0 < mult" and "0 < v" and "0 \<le> num"
    and "sign = 1 \<or> sign = -1"
  shows "parses (readVarInt_loop sign num mult) (writeVarInt_loop v []) (sign * (num + int v * mult))"
  using assms
proof (induction v arbitrary: num mult rule: less_induct)
  case (less v)
  show ?case
  proof (cases "0x7F < v")
    case False
    then have v: "v < 128" "v div 128 = 0" "v mod 128 = v" by simp_all
    have n: "0 \<le> int v * mult" using less.prems(2) by simp
    then have "i64 (num + i64 (int v * mult)) = num + int v * mult"
      using less.prems by (auto simp: i64_safe)
    moreover have "\<bar>sign * x\<bar> \<le> int MaxSafeInteger" if "0 \<le> x" "x \<le> int MaxSafeInteger" for x
      using less.prems(5) that by auto
    then have "\<bar>sign * (num + int v * mult)\<bar> \<le> int MaxSafeInteger"
      using less.prems(1,4) n by simp
    ultimately have "i64 (num + i64 (int v * mult)) = num + int v * mult"
      and "i64 (sign * (num + int v * mult)) = sign * (num + int v * mult)"
      by (simp_all add: i64_safe)
    then show ?thesis using False v less.prems(3)
      by (simp add: varint_Cons varint_0)
        (rule parses_byte, simp add: readVarInt_loop.simps [of sign num mult] final_byte(2) uint_final_byte Let_def)
  next
    case True
    have "int v = int (v mod 128) + int (v div 128) * 128"
      by (metis add.commute div_mult_mod_eq of_nat_add of_nat_mult of_nat_numeral)
    from arg_cong [OF this, of "\<lambda>x. x * mult"]
    have "int v * mult = (int (v mod 128) + int (v div 128) * 128) * mult" .
    then have split: "int v * mult = int (v mod 128) * mult + int (v div 128) * (mult * 128)"
      by (simp only: distrib_right mult.assoc mult.commute [of "128"])
    define lo hi where "lo = int (v mod 128) * mult" and "hi = int (v div 128) * (mult * 128)"
    have b: "128 * mult \<le> int v * mult" "0 \<le> lo" "0 \<le> hi"
      using True less.prems(2) by (simp_all add: lo_def hi_def)
    have "int v * mult = lo + hi" using split by (simp add: lo_def hi_def)
    note b = b this
    have "\<bar>mult * 128\<bar> \<le> int MaxSafeInteger" and "\<bar>lo\<bar> \<le> int MaxSafeInteger"
      and "\<bar>num + lo\<bar> \<le> int MaxSafeInteger"
      using b less.prems(1,2,4) by linarith+
    then have "i64 (mult * 128) = mult * 128"
      and "i64 (num + i64 (int (v mod 128) * mult)) = num + int (v mod 128) * mult"
      and "\<not> int MaxSafeInteger < num + int (v mod 128) * mult"
      by (simp_all add: lo_def [symmetric] i64_safe)
    moreover have "parses (readVarInt_loop sign (num + int (v mod 128) * mult) (mult * 128))
        (writeVarInt_loop (v div 128) []) (sign * (num + int v * mult))"
      using less.IH [of "v div 128" "num + int (v mod 128) * mult" "mult * 128"] True less.prems split
      by (simp add: add.assoc)
    moreover have "writeVarInt_loop v [] = (word_of_nat (v mod 128) OR 0x80) # writeVarInt_loop (v div 128) []"
      using True by (subst varint_Cons) simp_all
    moreover have "readVarInt_loop sign num mult d
        = readVarInt_loop sign (num + int (v mod 128) * mult) (mult * 128) (d\<lparr>pos := Suc (pos d)\<rparr>)"
      if "pos d < length (buf d)" "buf d ! pos d = word_of_nat (v mod 128) OR 0x80" for d
      using that calculation(1-3)
      by (subst readVarInt_loop.simps)
        (simp only: if_True if_False Let_def continuation_byte_large uint_continuation_byte
          Suc_eq_plus1 [symmetric] mod_less_divisor zero_less_numeral)
    ultimately show ?thesis
      by (auto intro!: parses_byte elim!: parsesE)
  qed
qed

definition varint_first :: "int \<Rightarrow> byte" where
  "varint_first v =
     (let num = nat \<bar>v\<bar>; first = word_of_nat (num mod 64);
          first = (if 0x3F < num then first OR 0x80 else first)
      in if v < 0 then first OR 0x40 else first)"

lemma varint_first_table:
  assumes "n < 64"
  shows "unat ((word_of_nat n :: byte) AND 0x3F) = n" "(word_of_nat n :: byte) AND 0x40 = 0"
    "(word_of_nat n :: byte) AND 0x80 = 0"
    "unat ((word_of_nat n OR 0x40 :: byte) AND 0x3F) = n" "(word_of_nat n OR 0x40 :: byte) AND 0x40 \<noteq> 0"
    "(word_of_nat n OR 0x40 :: byte) AND 0x80 = 0"
    "unat ((word_of_nat n OR 0x80 :: byte) AND 0x3F) = n" "(word_of_nat n OR 0x80 :: byte) AND 0x40 = 0"
    "(word_of_nat n OR 0x80 :: byte) AND 0x80 \<noteq> 0"
    "unat (((word_of_nat n OR 0x80) OR 0x40 :: byte) AND 0x3F) = n"
    "((word_of_nat n OR 0x80) OR 0x40 :: byte) AND 0x40 \<noteq> 0"
    "((word_of_nat n OR 0x80) OR 0x40 :: byte) AND 0x80 \<noteq> 0"
proof -
  let ?w = "\<lambda>n. word_of_nat n :: byte"
  have "list_all (\<lambda>n. unat (?w n AND 0x3F) = n \<and> ?w n AND 0x40 = 0 \<and> ?w n AND 0x80 = 0
      \<and> unat ((?w n OR 0x40) AND 0x3F) = n \<and> (?w n OR 0x40) AND 0x40 \<noteq> 0 \<and> (?w n OR 0x40) AND 0x80 = 0
      \<and> unat ((?w n OR 0x80) AND 0x3F) = n \<and> (?w n OR 0x80) AND 0x40 = 0 \<and> (?w n OR 0x80) AND 0x80 \<noteq> 0
      \<and> unat (((?w n OR 0x80) OR 0x40) AND 0x3F) = n \<and> ((?w n OR 0x80) OR 0x40) AND 0x40 \<noteq> 0
      \<and> ((?w n OR 0x80) OR 0x40) AND 0x80 \<noteq> 0) [0..<64]"
    by code_simp
  moreover have "n \<in> set [0..<64]" using assms by simp
  ultimately show "unat (?w n AND 0x3F) = n" "?w n AND 0x40 = 0" "?w n AND 0x80 = 0"
    "unat ((?w n OR 0x40) AND 0x3F) = n" "(?w n OR 0x40) AND 0x40 \<noteq> 0" "(?w n OR 0x40) AND 0x80 = 0"
    "unat ((?w n OR 0x80) AND 0x3F) = n" "(?w n OR 0x80) AND 0x40 = 0" "(?w n OR 0x80) AND 0x80 \<noteq> 0"
    "unat (((?w n OR 0x80) OR 0x40) AND 0x3F) = n" "((?w n OR 0x80) OR 0x40) AND 0x40 \<noteq> 0"
    "((?w n OR 0x80) OR 0x40) AND 0x80 \<noteq> 0"
    unfolding list_all_iff by blast+
qed

lemma varint_first_facts:
  "uint (varint_first v AND 0x3F) = int (nat \<bar>v\<bar> mod 64)"
  "varint_first v AND 0x40 \<noteq> 0 \<longleftrightarrow> v < 0"
  "varint_first v AND 0x80 = 0 \<longleftrightarrow> \<not> 0x3F < nat \<bar>v\<bar>"
proof -
  have "nat \<bar>v\<bar> mod 64 < 64" by (rule mod_less_divisor) (rule zero_less_numeral)
  note t = varint_first_table [OF this]
  have "unat (varint_first v AND 0x3F) = nat \<bar>v\<bar> mod 64"
    by (cases "0x3F < nat \<bar>v\<bar>"; cases "v < 0"; simp only: varint_first_def Let_def if_True if_False t)
  then show "uint (varint_first v AND 0x3F) = int (nat \<bar>v\<bar> mod 64)" by (rule uint_of_unat)
  show "varint_first v AND 0x40 \<noteq> 0 \<longleftrightarrow> v < 0"
    by (cases "0x3F < nat \<bar>v\<bar>"; cases "v < 0"; simp only: varint_first_def Let_def if_True if_False t; simp)
  show "varint_first v AND 0x80 = 0 \<longleftrightarrow> \<not> 0x3F < nat \<bar>v\<bar>"
    by (cases "0x3F < nat \<bar>v\<bar>"; cases "v < 0"; simp only: varint_first_def Let_def if_True if_False t; simp)
qed

lemma emits_WriteVarInt [emits_intros]:
  assumes "\<bar>v\<bar> \<le> int MaxSafeInteger"
  shows "emits (WriteVarInt v) (varint_first v # writeVarInt_loop (nat \<bar>v\<bar> div 64) [])"
proof -
  have "(if v < 0 then - v else v) = \<bar>v\<bar>" by simp
  moreover have "\<not> (v < - int MaxSafeInteger \<or> int MaxSafeInteger < v)" using assms by linarith
  moreover have "writeVarInt_loop n (bs @ [b]) = bs @ b # writeVarInt_loop n []" for n bs b
    by (subst writeVarInt_loop_append) simp
  ultimately show ?thesis
    by (simp add: emits_def WriteVarInt_def varint_first_def Let_def)
qed

lemma parses_ReadVarInt [parses_intros]:
  assumes "\<bar>v\<bar> \<le> int MaxSafeInteger"
  shows "parses ReadVarInt (varint_first v # writeVarInt_loop (nat \<bar>v\<bar> div 64) []) v"
proof (cases "nat \<bar>v\<bar> \<le> 0x3F")
  case True
  then have "nat \<bar>v\<bar> div 64 = 0" "nat \<bar>v\<bar> mod 64 = nat \<bar>v\<bar>" by simp_all
  with True show ?thesis
    by (auto simp: varint_0 ReadVarInt_def Let_def varint_first_facts
        intro!: parses_byte)
next
  case False
  have "int (nat \<bar>v\<bar> mod 64) + int (nat \<bar>v\<bar> div 64) * 64 = \<bar>v\<bar>"
    by (metis add.commute div_mult_mod_eq int_nat_eq abs_ge_zero of_nat_add of_nat_mult of_nat_numeral)
  moreover have "(if v < 0 then -1 else 1) * \<bar>v\<bar> = v" by simp
  moreover have "0 < nat \<bar>v\<bar> div 64" using False by (simp add: div_greater_zero_iff)
  moreover have "(if v < 0 then -1 else 1) = (1::int) \<or> (if v < 0 then -1 else 1) = (-1::int)" by simp
  ultimately have "parses (readVarInt_loop (if v < 0 then -1 else 1) (int (nat \<bar>v\<bar> mod 64)) 64)
      (writeVarInt_loop (nat \<bar>v\<bar> div 64) []) v"
    using readVarInt_loop_parses [of "int (nat \<bar>v\<bar> mod 64)" "nat \<bar>v\<bar> div 64" 64 "if v < 0 then -1 else 1"]
      assms by (simp only: of_nat_0_le_iff)
  moreover from False have "varint_first v AND 0x80 \<noteq> 0" by (simp add: varint_first_facts)
  ultimately show ?thesis
    by (intro parses_byte)
      (auto simp: ReadVarInt_def Let_def varint_first_facts elim: parsesE)
qed

interpretation varint: codec WriteVarInt ReadVarInt "\<lambda>v. \<bar>v\<bar> \<le> int MaxSafeInteger"
  by (rule codecI [where b = "\<lambda>v. varint_first v # writeVarInt_loop (nat \<bar>v\<bar> div 64) []"])
    (simp_all add: emits_intros parses_intros)

lemma parses_ReadBytes: "parses (ReadBytes (int (length b))) b b"
  by (auto simp: parses_def ReadBytes_def Remaining_unread unread_def add.commute [of "pos _"]
      drop_drop [symmetric] simp del: drop_drop)

lemma emits_WriteBytes [emits_intros]: "emits (WriteBytes b) b"
  by (simp add: emits_def WriteBytes_def)

lemma emits_WriteUint8 [emits_intros]: "emits (WriteUint8 b) [b]"
  by (simp add: emits_def WriteUint8_def)

lemma parses_ReadUint8 [parses_intros]: "parses ReadUint8 [b] b"
  by (auto simp: ReadUint8_def intro!: parses_byte)

lemma emits_WriteVarUint8Array [emits_intros]:
  "length b \<le> MaxSafeInteger \<Longrightarrow> emits (WriteVarUint8Array b) (writeVarUint_loop (length b) [] @ b)"
  by (simp add: emits_def WriteVarUint8Array_def emits_WriteVarUint [THEN emitsD] emits_WriteBytes [THEN emitsD])

lemma emits_WriteVarString [emits_intros]:
  "length b \<le> MaxSafeInteger \<Longrightarrow> emits (WriteVarString b) (writeVarUint_loop (length b) [] @ b)"
  by (simp add: emits_def WriteVarString_def emits_WriteVarUint [THEN emitsD] emits_WriteBytes [THEN emitsD])

lemma parses_ReadVarUint8Array [parses_intros]:
  "length b \<le> MaxSafeInteger \<Longrightarrow> parses ReadVarUint8Array (writeVarUint_loop (length b) [] @ b) b"
  unfolding ReadVarUint8Array_def
  by (rule parses_bind [OF parses_ReadVarUint]) (simp_all add: parses_guard parses_ReadBytes)

lemma parses_ReadVarString [parses_intros]:
  "length b \<le> MaxSafeInteger \<Longrightarrow> parses ReadVarString (writeVarUint_loop (length b) [] @ b) b"
  unfolding ReadVarString_def
  using parses_bind_return [OF parses_ReadVarUint8Array, of b b "\<lambda>x. x"] by simp

interpretation bytearray: codec WriteVarUint8Array ReadVarUint8Array "\<lambda>b. length b \<le> MaxSafeInteger"
  by (rule codecI [where b = "\<lambda>b. writeVarUint_loop (length b) [] @ b"])
    (simp_all add: emits_intros parses_intros)

interpretation varstring: codec WriteVarString ReadVarString "\<lambda>b. length b \<le> MaxSafeInteger"
  by (rule codecI [where b = "\<lambda>b. writeVarUint_loop (length b) [] @ b"])
    (simp_all add: emits_intros parses_intros)

subsection \<open>Lemmas: readers stay inside their input\<close>

lemma sound_mono: "sound r P \<Longrightarrow> (\<And>x k. P x k \<Longrightarrow> Q x k) \<Longrightarrow> sound r Q"
  unfolding sound_def by blast

lemma soundD:
  assumes "sound r P" and "within d" and "r d = Inr (x, d')"
  shows "within d'" and "buf d' = buf d" and "pos d \<le> pos d'" and "P x (pos d' - pos d)"
  using assms unfolding sound_def by blast+

lemma sound_bind:
  assumes r: "sound r P" and f: "\<And>x k. P x k \<Longrightarrow> sound (f x) (\<lambda>y m. Q y (k + m))"
  shows "sound (rbind r f) Q"
  unfolding sound_def
proof (intro allI impI)
  fix d y d'' assume d: "within d" and y: "rbind r f d = Inr (y, d'')"
  then obtain x d' where x: "r d = Inr (x, d')" and fx: "f x d' = Inr (y, d'')"
    by (auto simp: rbind_def split: sum.splits prod.splits)
  note 1 = soundD [OF r d x]
  note 2 = soundD [OF f [OF 1(4)] 1(1) fx]
  have "pos d' - pos d + (pos d'' - pos d') = pos d'' - pos d" using 1 2 by simp
  then show "within d'' \<and> buf d'' = buf d \<and> pos d \<le> pos d'' \<and> Q y (pos d'' - pos d)"
    using 1 2 by simp
qed

lemma sound_return [reader_rules]: "P x 0 \<Longrightarrow> sound (rreturn x) P"
  by (simp add: sound_def rreturn_def)

lemma sound_fail [reader_rules]: "sound (rfail e) P" "sound (\<lambda>d. Inl e) P"
  by (simp_all add: sound_def rfail_def)

lemma sound_if [reader_rules]:
  assumes "sound r P" and "sound q P"
  shows "sound (\<lambda>d. if c d then r d else q d) P"
  unfolding sound_def
proof (intro allI impI)
  fix d x d' assume "within d" "(if c d then r d else q d) = Inr (x, d')"
  then show "within d' \<and> buf d' = buf d \<and> pos d \<le> pos d' \<and> P x (pos d' - pos d)"
    using soundD [OF assms(1), of d x d'] soundD [OF assms(2), of d x d'] by (cases "c d") simp_all
qed

lemma sound_rtimes:
  assumes "sound r P"
  shows "sound (rtimes n r) (\<lambda>xs k. length xs = n \<and> (\<exists>ks. list_all2 P xs ks \<and> k = sum_list ks))"
proof (induction n)
  case 0
  show ?case by (auto intro: sound_return)
next
  case (Suc n)
  show ?case unfolding rtimes.simps
  proof (rule sound_bind [OF assms], rule sound_bind [OF Suc.IH], rule sound_return)
    fix x k xs m assume "P x k" and "length xs = n \<and> (\<exists>ks. list_all2 P xs ks \<and> m = sum_list ks)"
    then obtain ks where "P x k" "length xs = n" "list_all2 P xs ks" "m = sum_list ks" by auto
    then show "length (x # xs) = Suc n \<and> (\<exists>ks. list_all2 P (x # xs) ks \<and> k + (m + 0) = sum_list ks)"
      by (intro conjI exI [of _ "k # ks"]) auto
  qed
qed

lemma sound_rtimes_all:
  assumes "sound r P" and "\<And>x k. P x k \<Longrightarrow> Q x \<and> l \<le> k"
  shows "sound (rtimes n r) (\<lambda>xs k. length xs = n \<and> list_all Q xs \<and> n * l \<le> k)"
proof (rule sound_mono [OF sound_rtimes [OF assms(1)]])
  fix xs k assume "length xs = n \<and> (\<exists>ks. list_all2 P xs ks \<and> k = sum_list ks)"
  then obtain ks where ks: "length xs = n" "list_all2 P xs ks" "k = sum_list ks" by auto
  from ks(2) have "list_all Q xs \<and> length xs * l \<le> sum_list ks"
    by (induction rule: list_all2_induct) (auto dest!: assms(2))
  with ks show "length xs = n \<and> list_all Q xs \<and> n * l \<le> k" by simp
qed

lemma sound_ReadUint8: "sound ReadUint8 (\<lambda>b k. k = 1)"
  by (auto simp: sound_def ReadUint8_def within_def split: if_splits)

lemma sound_ReadBytes: "sound (ReadBytes n) (\<lambda>b k. int (length b) = n \<and> k = length b)"
  by (auto simp: sound_def ReadBytes_def within_def Remaining_def split: if_splits)

lemma sound_readVarUint_loop: "sound (readVarUint_loop num mult) (\<lambda>n k. n < 2 ^ 64 \<and> 1 \<le> k)"
  unfolding sound_def
proof (intro allI impI)
  fix d n d' assume "within d" and "readVarUint_loop num mult d = Inr (n, d')"
  then show "within d' \<and> buf d' = buf d \<and> pos d \<le> pos d' \<and> n < 2 ^ 64 \<and> 1 \<le> pos d' - pos d"
  proof (induction num mult d rule: readVarUint_loop.induct)
    case (1 num mult d)
    let ?r = "buf d ! pos d" and ?d = "d\<lparr>pos := pos d + 1\<rparr>"
    let ?num = "u64 (num + u64 (unat (?r AND 0x7F) * mult))"
    from "1.prems"(2) have lt: "pos d < length (buf d)"
      by (simp add: readVarUint_loop.simps [of num mult d] split: if_splits)
    show ?case
    proof (cases "?r < 0x80")
      case True
      with "1.prems"(2) lt show ?thesis
        by (auto simp: readVarUint_loop.simps [of num mult d] Let_def within_def)
    next
      case False
      with "1.prems"(2) lt have "\<not> MaxSafeInteger < ?num"
        and "readVarUint_loop ?num (u64 (mult * 128)) ?d = Inr (n, d')"
        by (simp_all add: readVarUint_loop.simps [of num mult d] Let_def split: if_splits)
      with "1.IH" [OF lt refl refl refl refl False] lt
      have "within d' \<and> buf d' = buf ?d \<and> pos ?d \<le> pos d' \<and> n < 2 ^ 64 \<and> 1 \<le> pos d' - pos ?d"
        by (auto simp: within_def)
      then show ?thesis by auto
    qed
  qed
qed

lemma sound_ReadVarUint: "sound ReadVarUint (\<lambda>n k. n < 2 ^ 64 \<and> 1 \<le> k)"
  unfolding ReadVarUint_def by (rule sound_readVarUint_loop)

lemma sound_ReadVarUint8Array: "sound ReadVarUint8Array (\<lambda>b k. length b < k)"
  unfolding ReadVarUint8Array_def
  by (rule sound_bind [OF sound_ReadVarUint], rule sound_if, rule sound_fail,
      rule sound_mono [OF sound_ReadBytes]) auto

lemma sound_ReadVarString: "sound ReadVarString (\<lambda>b k. length b < k)"
  unfolding ReadVarString_def
  by (rule sound_bind [OF sound_ReadVarUint8Array], rule sound_return) simp

lemma sound_readVarInt_loop: "sound (readVarInt_loop sign num mult) (\<lambda>n k. i64 n = n)"
  unfolding sound_def
proof (intro allI impI)
  fix d n d' assume "within d" and "readVarInt_loop sign num mult d = Inr (n, d')"
  then show "within d' \<and> buf d' = buf d \<and> pos d \<le> pos d' \<and> i64 n = n"
  proof (induction sign num mult d rule: readVarInt_loop.induct)
    case (1 sign num mult d)
    let ?r = "buf d ! pos d" and ?d = "d\<lparr>pos := pos d + 1\<rparr>"
    let ?num = "i64 (num + i64 (uint (?r AND 0x7F) * mult))"
    from "1.prems"(2) have lt: "pos d < length (buf d)"
      by (simp add: readVarInt_loop.simps [of sign num mult d] split: if_splits)
    show ?case
    proof (cases "?r < 0x80")
      case True
      with "1.prems"(2) lt show ?thesis
        by (auto simp: readVarInt_loop.simps [of sign num mult d] Let_def within_def i64_i64)
    next
      case False
      with "1.prems"(2) lt have "\<not> int MaxSafeInteger < ?num"
        and "readVarInt_loop sign ?num (i64 (mult * 128)) ?d = Inr (n, d')"
        by (simp_all add: readVarInt_loop.simps [of sign num mult d] Let_def split: if_splits)
      with "1.IH" [OF lt refl refl refl refl False] lt
      have "within d' \<and> buf d' = buf ?d \<and> pos ?d \<le> pos d' \<and> i64 n = n"
        by (auto simp: within_def)
      then show ?thesis by auto
    qed
  qed
qed

end
