(* ===== verification/Utf16.thy ===== *)
theory Utf16
  imports Lib0
begin

text \<open>
  Lengths in UTF-16 code units. A Go string is a byte sequence, and \<open>for i, r := range s\<close>
  decodes it as UTF-8 one rune at a time: \<open>DecodeRune\<close> is that step of the language
  (\<open>unicode/utf8\<close>: a byte that does not start a valid sequence is the rune U+FFFD of width one).
  On top of it are \<open>UTF16Length\<close> of \<open>lib0.go\<close> and \<open>splitUTF16\<close> of \<open>content.go\<close>.

  The lemmas show that a split is exact: the halves concatenate to the string, the first half
  has the length asked for, and the lengths add up, for every byte string, valid UTF-8 or not.
\<close>

subsection \<open>Definitions\<close>

abbreviation (input) RuneError :: nat where
  "RuneError \<equiv> 0xFFFD"

definition in_range :: "nat \<Rightarrow> nat \<Rightarrow> byte \<Rightarrow> bool" where
  "in_range lo hi b \<longleftrightarrow> lo \<le> unat b \<and> unat b \<le> hi"

fun DecodeRune :: "bytes \<Rightarrow> nat \<times> nat" where
  "DecodeRune [] = (RuneError, 0)"
| "DecodeRune (b0 # s) =
     (let x = unat b0 in
      if x < 0x80 then (x, 1)
      else if 0xC2 \<le> x \<and> x \<le> 0xDF then
        (case s of
           b1 # _ \<Rightarrow> if in_range 0x80 0xBF b1 then ((x - 0xC0) * 64 + (unat b1 - 0x80), 2)
                     else (RuneError, 1)
         | _ \<Rightarrow> (RuneError, 1))
      else if 0xE0 \<le> x \<and> x \<le> 0xEF then
        (case s of
           b1 # b2 # _ \<Rightarrow>
             if in_range (if x = 0xE0 then 0xA0 else 0x80) (if x = 0xED then 0x9F else 0xBF) b1
               \<and> in_range 0x80 0xBF b2
             then ((x - 0xE0) * 4096 + (unat b1 - 0x80) * 64 + (unat b2 - 0x80), 3)
             else (RuneError, 1)
         | _ \<Rightarrow> (RuneError, 1))
      else if 0xF0 \<le> x \<and> x \<le> 0xF4 then
        (case s of
           b1 # b2 # b3 # _ \<Rightarrow>
             if in_range (if x = 0xF0 then 0x90 else 0x80) (if x = 0xF4 then 0x8F else 0xBF) b1
               \<and> in_range 0x80 0xBF b2 \<and> in_range 0x80 0xBF b3
             then ((x - 0xF0) * 262144 + (unat b1 - 0x80) * 4096 + (unat b2 - 0x80) * 64
                     + (unat b3 - 0x80), 4)
             else (RuneError, 1)
         | _ \<Rightarrow> (RuneError, 1))
      else (RuneError, 1))"

declare DecodeRune.simps(2) [simp del]

lemma DecodeRune_width_pos [simp]: "s \<noteq> [] \<Longrightarrow> 0 < snd (DecodeRune s)"
  by (cases s) (auto simp: DecodeRune.simps(2) Let_def split: list.splits)

definition units_of :: "nat \<Rightarrow> nat" where
  "units_of r = (if 0xFFFF < r then 2 else 1)"

function UTF16Length :: "bytes \<Rightarrow> nat" where
  "UTF16Length s =
     (if s = [] then 0
      else units_of (fst (DecodeRune s)) + UTF16Length (drop (snd (DecodeRune s)) s))"
  by pat_completeness auto
termination
  by (relation "measure length") (auto simp: DecodeRune_width_pos)

declare UTF16Length.simps [simp del]

function splitUTF16_loop :: "nat \<Rightarrow> bytes \<Rightarrow> bytes \<Rightarrow> nat \<Rightarrow> (bytes \<times> bytes) option" where
  "splitUTF16_loop n head rest units =
     (if rest = [] then (if units = n then Some (head, []) else None)
      else if units = n then Some (head, rest)
      else (let (r, w) = DecodeRune rest;
                units = units + units_of r
            in if n < units then None
               else splitUTF16_loop n (head @ take w rest) (drop w rest) units))"
  by pat_completeness auto
termination
  by (relation "measure (\<lambda>(n, head, rest, units). length rest)")
    (auto simp: DecodeRune_width_pos dest: arg_cong [where f = snd])

declare splitUTF16_loop.simps [simp del]

definition splitUTF16 :: "bytes \<Rightarrow> nat \<Rightarrow> (bytes \<times> bytes) option" where
  "splitUTF16 s n = (if n = 0 then Some ([], s) else splitUTF16_loop n [] s 0)"

subsection \<open>A rune is decoded from its own bytes\<close>

lemma DecodeRune_width_le: "snd (DecodeRune s) \<le> length s"
  by (cases s) (auto simp: DecodeRune.simps(2) Let_def split: list.splits)

lemma DecodeRune_take_tail:
  assumes "snd (DecodeRune (b0 # t)) \<le> Suc k"
  shows "DecodeRune (b0 # take k t) = DecodeRune (b0 # t)"
proof -
  define x where "x = unat b0"
  note D = DecodeRune.simps(2) [of b0, folded x_def, unfolded Let_def]
  consider "x < 0x80" | "\<not> x < 0x80" "0xC2 \<le> x \<and> x \<le> 0xDF"
    | "\<not> x < 0x80" "\<not> (0xC2 \<le> x \<and> x \<le> 0xDF)" "0xE0 \<le> x \<and> x \<le> 0xEF"
    | "\<not> x < 0x80" "\<not> (0xC2 \<le> x \<and> x \<le> 0xDF)" "\<not> (0xE0 \<le> x \<and> x \<le> 0xEF)"
    by blast
  then show ?thesis
  proof cases
    case 1
    show ?thesis by (simp only: D 1 if_True)
  next
    case 2
    note D2 = D [unfolded if_not_P [OF 2(1)] if_P [OF 2(2)]]
    show ?thesis using assms unfolding D2
      by (cases t; cases k) (auto split: if_splits)
  next
    case 3
    note D3 = D [unfolded if_not_P [OF 3(1)] if_not_P [OF 3(2)] if_P [OF 3(3)]]
    show ?thesis using assms unfolding D3
      by (cases t; cases "tl t"; cases k; cases "k - 1") (auto split: if_split_asm)
  next
    case 4
    note D4 = D [unfolded if_not_P [OF 4(1)] if_not_P [OF 4(2)] if_not_P [OF 4(3)]]
    show ?thesis using assms unfolding D4
      by (cases t; cases "tl t"; cases "tl (tl t)"; cases k; cases "k - 1"; cases "k - 2")
        (auto split: if_split_asm)
  qed
qed

lemma DecodeRune_take:
  assumes "snd (DecodeRune s) \<le> m" and "s \<noteq> []"
  shows "DecodeRune (take m s) = DecodeRune s"
proof -
  have "0 < m" using assms by (metis DecodeRune_width_pos order.strict_trans2)
  then show ?thesis
    using assms DecodeRune_take_tail [of "hd s" "tl s" "m - 1"] by (cases s; cases m) auto
qed

lemma UTF16Length_Nil [simp]: "UTF16Length [] = 0"
  by (simp add: UTF16Length.simps)

lemma UTF16Length_chunk:
  assumes "rest \<noteq> []" and "drop (snd (DecodeRune rest)) rest = c @ t"
  shows "UTF16Length (take (snd (DecodeRune rest)) rest @ c)
     = units_of (fst (DecodeRune rest)) + UTF16Length c"
proof -
  let ?w = "snd (DecodeRune rest)"
  have "take ?w rest @ c = take (?w + length c) rest"
    using assms(2) by (simp add: take_add)
  then have d: "DecodeRune (take ?w rest @ c) = DecodeRune rest"
    using DecodeRune_take [of rest "?w + length c"] assms(1) by simp
  have "length (take ?w rest) = ?w" using DecodeRune_width_le [of rest] by simp
  moreover have "take ?w rest @ c \<noteq> []"
    using DecodeRune_width_pos [OF assms(1)] assms(1) by auto
  ultimately show ?thesis
    by (subst UTF16Length.simps) (simp only: d if_False, simp)
qed

subsection \<open>A split is exact\<close>

lemma splitUTF16_loop_exact:
  assumes "splitUTF16_loop n head rest units = Some (h, t)"
  shows "\<exists>c. h = head @ c \<and> rest = c @ t \<and> units + UTF16Length c = n
     \<and> UTF16Length rest = UTF16Length c + UTF16Length t"
  using assms
proof (induction n head rest units rule: splitUTF16_loop.induct)
  case (1 n head rest units)
  let ?r = "fst (DecodeRune rest)" and ?w = "snd (DecodeRune rest)"
  consider "rest = []" | "rest \<noteq> []" "units = n"
    | "rest \<noteq> []" "units \<noteq> n" "\<not> n < units + units_of ?r"
      "splitUTF16_loop n (head @ take ?w rest) (drop ?w rest) (units + units_of ?r) = Some (h, t)"
    using "1.prems"
    by (auto simp: splitUTF16_loop.simps [of n head rest units] Let_def split: if_splits prod.splits)
  then show ?case
  proof cases
    case 1
    then show ?thesis using "1.prems"
      by (simp add: splitUTF16_loop.simps [of n head "[]" units] split: if_splits)
  next
    case 2
    then have "h = head" "t = rest" using "1.prems"
      by (simp_all add: splitUTF16_loop.simps [of n head rest n])
    then show ?thesis using 2 by simp
  next
    case 3
    obtain c where c: "h = (head @ take ?w rest) @ c" "drop ?w rest = c @ t"
      "units + units_of ?r + UTF16Length c = n" "UTF16Length (drop ?w rest) = UTF16Length c + UTF16Length t"
      using "1.IH" [OF 3(1,2) refl prod.collapse refl 3(3) 3(4)] by auto
    let ?c = "take ?w rest @ c"
    have "rest = ?c @ t" using c(2) by (metis append.assoc append_take_drop_id)
    moreover have "UTF16Length ?c = units_of ?r + UTF16Length c"
      by (rule UTF16Length_chunk [OF 3(1) c(2)])
    moreover have "UTF16Length rest = units_of ?r + UTF16Length (drop ?w rest)"
      using 3(1) by (subst UTF16Length.simps) simp
    ultimately show ?thesis using c by (intro exI [of _ ?c]) auto
  qed
qed

lemma splitUTF16_exact:
  assumes "splitUTF16 s n = Some (h, t)"
  shows "s = h @ t" and "UTF16Length h = n" and "UTF16Length s = n + UTF16Length t"
  using assms splitUTF16_loop_exact [of n "[]" s 0 h t]
  by (auto simp: splitUTF16_def split: if_splits)

lemma UTF16Length_pos: "s \<noteq> [] \<Longrightarrow> 0 < UTF16Length s"
  by (subst UTF16Length.simps) (simp add: units_of_def)

text \<open>
  A split fails only where the code says it does: past the end, or between the two halves of a
  surrogate pair, that is one unit into a rune above U+FFFF.
\<close>

lemma splitUTF16_loop_fails:
  assumes "splitUTF16_loop n head rest units = None" and "n \<le> units + UTF16Length rest" and "units \<le> n"
  shows "\<exists>c t. rest = c @ t \<and> units + UTF16Length c + 1 = n \<and> t \<noteq> [] \<and> 0xFFFF < fst (DecodeRune t)"
  using assms
proof (induction n head rest units rule: splitUTF16_loop.induct)
  case (1 n head rest units)
  let ?r = "fst (DecodeRune rest)" and ?w = "snd (DecodeRune rest)"
  have ne: "rest \<noteq> []" "units \<noteq> n"
    using "1.prems" by (auto simp: splitUTF16_loop.simps [of n head rest units] split: if_splits)
  show ?case
  proof (cases "n < units + units_of ?r")
    case True
    then have "units + 1 = n" "0xFFFF < ?r"
      using ne(2) "1.prems"(3) by (auto simp: units_of_def split: if_splits)
    then show ?thesis using ne(1) by (intro exI [of _ "[]"] exI [of _ rest]) simp
  next
    case False
    then have rec: "splitUTF16_loop n (head @ take ?w rest) (drop ?w rest) (units + units_of ?r) = None"
      using "1.prems"(1) ne
      by (simp add: splitUTF16_loop.simps [of n head rest units] Let_def split: prod.splits)
    have "UTF16Length rest = units_of ?r + UTF16Length (drop ?w rest)"
      using ne(1) by (subst UTF16Length.simps) simp
    then have "n \<le> units + units_of ?r + UTF16Length (drop ?w rest)" using "1.prems"(2) by simp
    moreover have "units + units_of ?r \<le> n" using False by simp
    ultimately obtain c t where c: "drop ?w rest = c @ t" "units + units_of ?r + UTF16Length c + 1 = n"
      "t \<noteq> []" "0xFFFF < fst (DecodeRune t)"
      using "1.IH" [OF ne refl prod.collapse refl False rec] by auto
    have "rest = (take ?w rest @ c) @ t" using c(1) by (metis append.assoc append_take_drop_id)
    moreover have "UTF16Length (take ?w rest @ c) = units_of ?r + UTF16Length c"
      by (rule UTF16Length_chunk [OF ne(1) c(1)])
    ultimately show ?thesis using c by (intro exI [of _ "take ?w rest @ c"] exI [of _ t]) auto
  qed
qed

end
