(* ===== verification/Lib0_Any.thy ===== *)
theory Lib0_Any
  imports Lib0 "HOL-Library.List_Lexorder"
begin

text \<open>
  The \<open>any\<close> format of \<open>internal/crdt/lib0/any.go\<close>: a tag byte and a payload.

  A Go \<open>any\<close> that the format knows is a value of the datatype \<open>any\<close>. \<open>AInt\<close> stands for
  all ten integer types, which the code treats alike: it converts them to \<open>float64\<close>. A
  \<open>float64\<close> or \<open>float32\<close> is its IEEE 754 fields (sign, biased exponent, fraction);
  \<open>math.Float64bits\<close> packs them. \<open>AOther\<close> is any value of a type the format lacks.

  The lemmas show that whatever the writer produces for a canonical value the reader gives
  back, that the writer picks the integer form exactly for integral numbers of up to 31 bits,
  and where decoding and encoding again is not the identity on bytes (negative zero).
\<close>

unbundle bit_operations_syntax

subsection \<open>Floating point numbers as bit fields\<close>

datatype f64 = F64 (f64_sign: bool) (f64_exp: nat) (f64_frac: nat)

datatype f32 = F32 (f32_sign: bool) (f32_exp: nat) (f32_frac: nat)

definition f64_wf :: "f64 \<Rightarrow> bool" where
  "f64_wf v \<longleftrightarrow> f64_exp v < 2048 \<and> f64_frac v < 2 ^ 52"

definition f32_wf :: "f32 \<Rightarrow> bool" where
  "f32_wf v \<longleftrightarrow> f32_exp v < 256 \<and> f32_frac v < 2 ^ 23"

definition Float64bits :: "f64 \<Rightarrow> nat" where
  "Float64bits v = (if f64_sign v then 2 ^ 63 else 0) + f64_exp v * 2 ^ 52 + f64_frac v"

definition Float64frombits :: "nat \<Rightarrow> f64" where
  "Float64frombits n = F64 (n div 2 ^ 63 mod 2 = 1) (n div 2 ^ 52 mod 2048) (n mod 2 ^ 52)"

definition Float32bits :: "f32 \<Rightarrow> nat" where
  "Float32bits v = (if f32_sign v then 2 ^ 31 else 0) + f32_exp v * 2 ^ 23 + f32_frac v"

definition Float32frombits :: "nat \<Rightarrow> f32" where
  "Float32frombits n = F32 (n div 2 ^ 31 mod 2 = 1) (n div 2 ^ 23 mod 256) (n mod 2 ^ 23)"

definition f64_nan :: "f64 \<Rightarrow> bool" where
  "f64_nan v \<longleftrightarrow> f64_exp v = 2047 \<and> f64_frac v \<noteq> 0"

text \<open>The value of an integral \<open>float64\<close>: \<open>v == math.Trunc(v)\<close> with \<open>v\<close> finite.\<close>

definition f64_integral :: "f64 \<Rightarrow> int option" where
  "f64_integral v =
     (let s = (if f64_sign v then -1 else 1);
          m = 2 ^ 52 + f64_frac v;
          e = f64_exp v
      in if e = 2047 then None
         else if e = 0 then (if f64_frac v = 0 then Some 0 else None)
         else if 1075 \<le> e then Some (s * int (m * 2 ^ (e - 1075)))
         else if e < 1023 then None
         else if m mod 2 ^ (1075 - e) = 0 then Some (s * int (m div 2 ^ (1075 - e)))
         else None)"

text \<open>
  \<open>float32(v)\<close> where \<open>float64(float32(v)) == v\<close>: the value fits a \<open>float32\<close> exactly, as an
  infinity, a zero, a normal or a subnormal number.
\<close>

definition f32_exact :: "f64 \<Rightarrow> f32 option" where
  "f32_exact v =
     (let s = f64_sign v; e = f64_exp v; f = f64_frac v; m = 2 ^ 52 + f
      in if e = 2047 then (if f = 0 then Some (F32 s 255 0) else None)
         else if e = 0 then (if f = 0 then Some (F32 s 0 0) else None)
         else if 1150 < e then None
         else if 897 \<le> e then
           (if f mod 2 ^ 29 = 0 then Some (F32 s (e - 896) (f div 2 ^ 29)) else None)
         else if 874 \<le> e then
           (if m mod 2 ^ (926 - e) = 0 then Some (F32 s 0 (m div 2 ^ (926 - e))) else None)
         else None)"

text \<open>\<open>float64(t)\<close> for an integer: exact below 2^53, else rounded to nearest, ties to even.\<close>

fun bit_len :: "nat \<Rightarrow> nat" where
  "bit_len n = (if n = 0 then 0 else Suc (bit_len (n div 2)))"

declare bit_len.simps [simp del]

definition round_shift :: "nat \<Rightarrow> nat \<Rightarrow> nat" where
  "round_shift m k =
     (let q = m div 2 ^ k; r = m mod 2 ^ k; half = 2 ^ (k - 1)
      in if half < r \<or> (r = half \<and> odd q) then q + 1 else q)"

definition f64_of_int :: "int \<Rightarrow> f64" where
  "f64_of_int n =
     (let s = (n < 0); m = nat \<bar>n\<bar>; l = bit_len m
      in if m = 0 then F64 False 0 0
         else if l \<le> 53 then F64 s (1022 + l) (m * 2 ^ (53 - l) - 2 ^ 52)
         else (let q = round_shift m (l - 53)
               in if q = 2 ^ 53 then F64 s (1023 + l) 0 else F64 s (1022 + l) (q - 2 ^ 52)))"

subsection \<open>Big-endian integers\<close>

primrec be_bytes :: "nat \<Rightarrow> nat \<Rightarrow> bytes" where
  "be_bytes 0 n = []"
| "be_bytes (Suc k) n = be_bytes k (n div 256) @ [word_of_nat (n mod 256)]"

definition be_value :: "bytes \<Rightarrow> nat" where
  "be_value bs = foldl (\<lambda>a b. a * 256 + unat b) 0 bs"

subsection \<open>Values\<close>

datatype any =
    AUndefined
  | ANull
  | ABool bool
  | AString bytes
  | ABigInt int
  | ABytes bytes
  | AArray "any list"
  | AObject "(bytes \<times> any) list"
  | AMap "(bytes \<times> any) list"
  | AFloat32 f32
  | AFloat64 f64
  | AInt int
  | AOther

abbreviation (input) TagUndefined :: byte where "TagUndefined \<equiv> 127"
abbreviation (input) TagNull :: byte where "TagNull \<equiv> 126"
abbreviation (input) TagInteger :: byte where "TagInteger \<equiv> 125"
abbreviation (input) TagFloat32 :: byte where "TagFloat32 \<equiv> 124"
abbreviation (input) TagFloat64 :: byte where "TagFloat64 \<equiv> 123"
abbreviation (input) TagBigInt :: byte where "TagBigInt \<equiv> 122"
abbreviation (input) TagFalse :: byte where "TagFalse \<equiv> 121"
abbreviation (input) TagTrue :: byte where "TagTrue \<equiv> 120"
abbreviation (input) TagString :: byte where "TagString \<equiv> 119"
abbreviation (input) TagObject :: byte where "TagObject \<equiv> 118"
abbreviation (input) TagArray :: byte where "TagArray \<equiv> 117"
abbreviation (input) TagUint8Array :: byte where "TagUint8Array \<equiv> 116"

definition maxInt31 :: int where
  "maxInt31 = 0x7FFFFFFF"

definition maxAnyDepth :: nat where
  "maxAnyDepth = 128"

definition canonicalNaN64 :: nat where
  "canonicalNaN64 = 0x7FF8000000000000"

primrec Object_Get :: "(bytes \<times> any) list \<Rightarrow> bytes \<Rightarrow> any option" where
  "Object_Get [] key = None"
| "Object_Get (f # fs) key = (if fst f = key then Some (snd f) else Object_Get fs key)"

primrec Object_Set :: "(bytes \<times> any) list \<Rightarrow> bytes \<Rightarrow> any \<Rightarrow> (bytes \<times> any) list" where
  "Object_Set [] key v = [(key, v)]"
| "Object_Set (f # fs) key v =
     (if fst f = key then (key, v) # fs else f # Object_Set fs key v)"

subsection \<open>Writing\<close>

definition small_integral :: "f64 \<Rightarrow> bool" where
  "small_integral v \<longleftrightarrow> (case f64_integral v of Some n \<Rightarrow> \<bar>n\<bar> \<le> maxInt31 | None \<Rightarrow> False)"

definition writeNumber :: "f64 \<Rightarrow> encoder \<Rightarrow> encoder" where
  "writeNumber v e =
     (if small_integral v
      then (let n = the (f64_integral v);
                e = WriteUint8 TagInteger e
            in if n = 0 \<and> f64_sign v then WriteUint8 0x40 e else WriteVarInt n e)
      else case f32_exact v of
        Some w \<Rightarrow> WriteBytes (be_bytes 4 (Float32bits w)) (WriteUint8 TagFloat32 e)
      | None \<Rightarrow>
          (let e = WriteUint8 TagFloat64 e;
               bits = (if f64_nan v then canonicalNaN64 else Float64bits v)
           in WriteBytes (be_bytes 8 bits) e))"

definition writeFields :: "(any \<Rightarrow> encoder \<Rightarrow> encoder) \<Rightarrow> (bytes \<times> any) list \<Rightarrow> encoder \<Rightarrow> encoder" where
  "writeFields writeAny_next fs e =
     (let e = WriteUint8 TagObject e;
          e = WriteVarUint (length fs) e
      in fold (\<lambda>f e. writeAny_next (snd f) (WriteVarString (fst f) e)) fs e)"

function writeAny :: "nat \<Rightarrow> any \<Rightarrow> encoder \<Rightarrow> encoder" where
  "writeAny depth v e =
     (if enc_err e \<noteq> None then e
      else if maxAnyDepth < depth then fail ErrDepthExceeded e
      else case v of
        ANull \<Rightarrow> WriteUint8 TagNull e
      | AUndefined \<Rightarrow> WriteUint8 TagUndefined e
      | ABool t \<Rightarrow> if t then WriteUint8 TagTrue e else WriteUint8 TagFalse e
      | AString t \<Rightarrow> WriteVarString t (WriteUint8 TagString e)
      | ABigInt t \<Rightarrow> WriteBytes (be_bytes 8 (nat (t mod 2 ^ 64))) (WriteUint8 TagBigInt e)
      | ABytes t \<Rightarrow> WriteVarUint8Array t (WriteUint8 TagUint8Array e)
      | AArray t \<Rightarrow>
          (let e = WriteUint8 TagArray e;
               e = WriteVarUint (length t) e
           in fold (\<lambda>item e. writeAny (depth + 1) item e) t e)
      | AObject t \<Rightarrow> writeFields (\<lambda>v e. writeAny (depth + 1) v e) t e
      | AMap t \<Rightarrow> writeFields (\<lambda>v e. writeAny (depth + 1) v e) (sort_key fst t) e
      | AFloat32 t \<Rightarrow> WriteBytes (be_bytes 4 (Float32bits t)) (WriteUint8 TagFloat32 e)
      | AFloat64 t \<Rightarrow> writeNumber t e
      | AInt t \<Rightarrow> writeNumber (f64_of_int t) e
      | AOther \<Rightarrow> fail ErrUnsupportedType e)"
  by pat_completeness auto
termination
  by (relation "measure (\<lambda>(depth, v, e). 129 - depth)") (auto simp: maxAnyDepth_def)

declare writeAny.simps [simp del]

definition WriteAny :: "any \<Rightarrow> encoder \<Rightarrow> encoder" where
  "WriteAny v = writeAny 0 v"

subsection \<open>Reading\<close>

definition readAny_tag :: "any reader \<Rightarrow> byte \<Rightarrow> any reader" where
  "readAny_tag readAny_next tag =
     (if tag = TagUndefined then rreturn AUndefined
      else if tag = TagNull then rreturn ANull
      else if tag = TagInteger then rbind ReadVarInt (\<lambda>n. rreturn (AInt n))
      else if tag = TagFloat32 then
        rbind (ReadBytes 4) (\<lambda>b. rreturn (AFloat32 (Float32frombits (be_value b))))
      else if tag = TagFloat64 then
        rbind (ReadBytes 8) (\<lambda>b. rreturn (AFloat64 (Float64frombits (be_value b))))
      else if tag = TagBigInt then
        rbind (ReadBytes 8) (\<lambda>b. rreturn (ABigInt (i64 (int (be_value b)))))
      else if tag = TagFalse then rreturn (ABool False)
      else if tag = TagTrue then rreturn (ABool True)
      else if tag = TagString then rbind ReadVarString (\<lambda>s. rreturn (AString s))
      else if tag = TagObject then
        rbind ReadVarUint (\<lambda>n d.
          if Remaining d < n then Inl ErrUnexpectedEOF
          else rbind (rtimes n (rbind ReadVarString (\<lambda>key.
                        rbind readAny_next (\<lambda>val. rreturn (key, val)))))
                 (\<lambda>fs. rreturn (AObject fs)) d)
      else if tag = TagArray then
        rbind ReadVarUint (\<lambda>n d.
          if Remaining d < n then Inl ErrUnexpectedEOF
          else rbind (rtimes n readAny_next) (\<lambda>vs. rreturn (AArray vs)) d)
      else if tag = TagUint8Array then rbind ReadVarUint8Array (\<lambda>b. rreturn (ABytes b))
      else rfail ErrUnknownAnyTag)"

function readAny :: "nat \<Rightarrow> any reader" where
  "readAny depth d =
     (if maxAnyDepth < depth then Inl ErrDepthExceeded
      else rbind ReadUint8 (readAny_tag (\<lambda>d. readAny (depth + 1) d)) d)"
  by pat_completeness auto
termination
  by (relation "measure (\<lambda>(depth, d). 129 - depth)") (auto simp: maxAnyDepth_def)

declare readAny.simps [simp del]

definition ReadAny :: "any reader" where
  "ReadAny = readAny 0"

text \<open>
  The values that have exactly one representation: what \<open>readAny\<close> makes of bytes that
  \<open>writeAny\<close> wrote.
\<close>

definition number_canonical :: "f64 \<Rightarrow> bool" where
  "number_canonical v \<longleftrightarrow> f64_wf v \<and> f32_exact v = None \<and> \<not> small_integral v
     \<and> (f64_nan v \<longrightarrow> Float64bits v = canonicalNaN64)"

fun any_ok :: "nat \<Rightarrow> any \<Rightarrow> bool" where
  "any_ok depth AUndefined \<longleftrightarrow> depth \<le> maxAnyDepth"
| "any_ok depth ANull \<longleftrightarrow> depth \<le> maxAnyDepth"
| "any_ok depth (ABool b) \<longleftrightarrow> depth \<le> maxAnyDepth"
| "any_ok depth (AString s) \<longleftrightarrow> depth \<le> maxAnyDepth \<and> length s \<le> MaxSafeInteger"
| "any_ok depth (ABigInt n) \<longleftrightarrow> depth \<le> maxAnyDepth \<and> - (2 ^ 63) \<le> n \<and> n < 2 ^ 63"
| "any_ok depth (ABytes s) \<longleftrightarrow> depth \<le> maxAnyDepth \<and> length s \<le> MaxSafeInteger"
| "any_ok depth (AArray vs) \<longleftrightarrow>
     depth \<le> maxAnyDepth \<and> length vs \<le> MaxSafeInteger \<and> (\<forall>v\<in>set vs. any_ok (depth + 1) v)"
| "any_ok depth (AObject fs) \<longleftrightarrow>
     depth \<le> maxAnyDepth \<and> length fs \<le> MaxSafeInteger
     \<and> (\<forall>f\<in>set fs. length (fst f) \<le> MaxSafeInteger \<and> any_ok (depth + 1) (snd f))"
| "any_ok depth (AMap fs) \<longleftrightarrow> False"
| "any_ok depth (AFloat32 v) \<longleftrightarrow> depth \<le> maxAnyDepth \<and> f32_wf v"
| "any_ok depth (AFloat64 v) \<longleftrightarrow> depth \<le> maxAnyDepth \<and> number_canonical v"
| "any_ok depth (AInt n) \<longleftrightarrow> depth \<le> maxAnyDepth \<and> \<bar>n\<bar> \<le> maxInt31"
| "any_ok depth AOther \<longleftrightarrow> False"

text \<open>The values the writer accepts, canonical or not.\<close>

fun any_enc :: "nat \<Rightarrow> any \<Rightarrow> bool" where
  "any_enc depth (AString s) \<longleftrightarrow> depth \<le> maxAnyDepth \<and> length s \<le> MaxSafeInteger"
| "any_enc depth (ABytes s) \<longleftrightarrow> depth \<le> maxAnyDepth \<and> length s \<le> MaxSafeInteger"
| "any_enc depth (AArray vs) \<longleftrightarrow>
     depth \<le> maxAnyDepth \<and> length vs \<le> MaxSafeInteger \<and> (\<forall>v\<in>set vs. any_enc (depth + 1) v)"
| "any_enc depth (AObject fs) \<longleftrightarrow>
     depth \<le> maxAnyDepth \<and> length fs \<le> MaxSafeInteger
     \<and> (\<forall>f\<in>set fs. length (fst f) \<le> MaxSafeInteger \<and> any_enc (depth + 1) (snd f))"
| "any_enc depth (AMap fs) \<longleftrightarrow>
     depth \<le> maxAnyDepth \<and> length fs \<le> MaxSafeInteger
     \<and> (\<forall>f\<in>set fs. length (fst f) \<le> MaxSafeInteger \<and> any_enc (depth + 1) (snd f))"
| "any_enc depth AOther \<longleftrightarrow> False"
| "any_enc depth _ \<longleftrightarrow> depth \<le> maxAnyDepth"

subsection \<open>Lemmas: bit fields and big-endian bytes\<close>

lemma length_be_bytes [simp]: "length (be_bytes k n) = k"
  by (induction k arbitrary: n) auto

lemma be_value_be_bytes: "be_value (be_bytes k n) = n mod 256 ^ k"
proof (induction k arbitrary: n)
  case 0
  then show ?case by (simp add: be_value_def)
next
  case (Suc k)
  have "be_value (be_bytes (Suc k) n) = be_value (be_bytes k (n div 256)) * 256 + n mod 256"
    by (simp add: be_value_def unat_low_byte)
  also have "\<dots> = n mod 256 ^ Suc k"
    by (simp add: Suc.IH mod_mult2_eq mult.commute)
  finally show ?case .
qed

lemma Float64bits_bound: "f64_wf v \<Longrightarrow> Float64bits v < 256 ^ 8"
  by (cases v) (simp add: f64_wf_def Float64bits_def)

lemma field_split: "f < b \<Longrightarrow> (a * b + f) div b = a \<and> (a * b + f) mod b = (f :: nat)"
  by simp

lemma Float64_roundtrip:
  assumes "f64_wf v"
  shows "Float64frombits (Float64bits v) = v"
proof -
  obtain s e f where v: "v = F64 s e f" by (cases v) auto
  with assms have "e < 2048" "f < 2 ^ 52" by (simp_all add: f64_wf_def)
  define n where "n = Float64bits v"
  have n: "n = (of_bool s * 2048 + e) * 2 ^ 52 + f"
    by (simp add: n_def v Float64bits_def algebra_simps)
  have "n div 2 ^ 52 = of_bool s * 2048 + e" "n mod 2 ^ 52 = f"
    unfolding n by (simp_all only: field_split [OF \<open>f < 2 ^ 52\<close>])
  moreover have "n div 2 ^ 63 = n div 2 ^ 52 div 2048" by (simp add: div_mult2_eq [symmetric])
  ultimately show ?thesis
    using \<open>e < 2048\<close> unfolding Float64frombits_def n_def [symmetric] by (cases s) (simp_all add: v)
qed

lemma Float32bits_bound: "f32_wf v \<Longrightarrow> Float32bits v < 256 ^ 4"
  by (cases v) (simp add: f32_wf_def Float32bits_def)

lemma Float32_roundtrip:
  assumes "f32_wf v"
  shows "Float32frombits (Float32bits v) = v"
proof -
  obtain s e f where v: "v = F32 s e f" by (cases v) auto
  with assms have "e < 256" "f < 2 ^ 23" by (simp_all add: f32_wf_def)
  define n where "n = Float32bits v"
  have n: "n = (of_bool s * 256 + e) * 2 ^ 23 + f"
    by (simp add: n_def v Float32bits_def algebra_simps)
  have "n div 2 ^ 23 = of_bool s * 256 + e" "n mod 2 ^ 23 = f"
    unfolding n by (simp_all only: field_split [OF \<open>f < 2 ^ 23\<close>])
  moreover have "n div 2 ^ 31 = n div 2 ^ 23 div 256" by (simp add: div_mult2_eq [symmetric])
  ultimately show ?thesis
    using \<open>e < 256\<close> unfolding Float32frombits_def n_def [symmetric] by (cases s) (simp_all add: v)
qed

lemma bit_len_bounds: "0 < n \<Longrightarrow> n < 2 ^ bit_len n \<and> 2 ^ (bit_len n - 1) \<le> n \<and> 0 < bit_len n"
proof (induction n rule: bit_len.induct)
  case (1 n)
  show ?case
  proof (cases "n = 1")
    case True
    then show ?thesis by (simp add: bit_len.simps [of "Suc 0"] bit_len.simps [of 0])
  next
    case False
    with "1.prems" have "0 < n div 2" "n \<noteq> 0" by auto
    with "1.IH" have "n div 2 < 2 ^ bit_len (n div 2)" "2 ^ (bit_len (n div 2) - 1) \<le> n div 2"
      "0 < bit_len (n div 2)" by auto
    moreover have "bit_len n = Suc (bit_len (n div 2))"
      using \<open>n \<noteq> 0\<close> by (simp add: bit_len.simps [of n])
    moreover obtain k where "bit_len (n div 2) = Suc k" using calculation(3) by (cases "bit_len (n div 2)") auto
    ultimately show ?thesis by auto
  qed
qed

lemma bit_len_le:
  assumes "n < 2 ^ k"
  shows "bit_len n \<le> k"
proof (cases "n = 0")
  case True
  then show ?thesis by (simp add: bit_len.simps [of 0])
next
  case False
  then have "2 ^ (bit_len n - 1) \<le> n" using bit_len_bounds [of n] by simp
  then have "(2::nat) ^ (bit_len n - 1) < 2 ^ k" using assms by (rule le_less_trans)
  then have "bit_len n - 1 < k" by (rule power_less_imp_less_exp [rotated]) simp
  then show ?thesis by simp
qed

lemma f64_integral_of_int:
  assumes "\<bar>n\<bar> < 2 ^ 52"
  shows "f64_integral (f64_of_int n) = Some n" and "f64_sign (f64_of_int n) \<longleftrightarrow> n < 0"
proof -
  define m where "m = nat \<bar>n\<bar>"
  define l where "l = bit_len m"
  show "f64_integral (f64_of_int n) = Some n"
  proof (cases "m = 0")
    case True
    then show ?thesis by (simp add: m_def f64_of_int_def f64_integral_def)
  next
    case False
    have l: "m < 2 ^ l" "2 ^ (l - 1) \<le> m" "0 < l" "l \<le> 52"
      using bit_len_bounds [of m] bit_len_le [of m 52] False assms by (auto simp: l_def m_def)
    have "(2::nat) ^ 52 = 2 ^ (l - 1) * 2 ^ (53 - l)"
      using l by (simp flip: power_add)
    also have "\<dots> \<le> m * 2 ^ (53 - l)" using l by simp
    finally have "2 ^ 52 + (m * 2 ^ (53 - l) - 2 ^ 52) = m * 2 ^ (53 - l)" by simp
    moreover have "f64_of_int n = F64 (n < 0) (1022 + l) (m * 2 ^ (53 - l) - 2 ^ 52)"
      using False l by (simp add: f64_of_int_def m_def [symmetric] l_def [symmetric] Let_def)
    moreover have "1075 - (1022 + l) = 53 - l" by simp
    moreover have "(if n < 0 then - 1 else 1) * int m = n" by (simp add: m_def)
    ultimately show ?thesis using l
      by (simp add: f64_integral_def Let_def del: of_nat_mult)
  qed
  show "f64_sign (f64_of_int n) \<longleftrightarrow> n < 0"
    by (auto simp: f64_of_int_def Let_def)
qed

subsection \<open>Lemmas: what is written is read back\<close>

lemma readAny_eq:
  "depth \<le> maxAnyDepth \<Longrightarrow> readAny depth = rbind ReadUint8 (readAny_tag (readAny (Suc depth)))"
  by (rule ext, subst readAny.simps) simp

lemma parses_readAny:
  assumes "depth \<le> maxAnyDepth" and "parses (readAny_tag (readAny (Suc depth)) tag) p v"
  shows "parses (readAny depth) (tag # p) v"
  using parses_bind [of ReadUint8 "[tag]" tag "readAny_tag (readAny (Suc depth))" p v] assms(2) parses_ReadUint8
  by (simp add: readAny_eq [OF assms(1)])

lemma parses_fixed:
  assumes "n = int (length b)" and "f b = v"
  shows "parses (rbind (ReadBytes n) (\<lambda>b. rreturn (f b))) b v"
  using parses_bind_return [OF parses_ReadBytes, of v f b] assms by simp

lemma emits_writeAny:
  assumes "depth \<le> maxAnyDepth"
    and "\<And>e. enc_err e = None \<Longrightarrow> writeAny depth v e = w (WriteUint8 tag e)"
    and "emits w p"
  shows "emits (writeAny depth v) (tag # p)"
  using assms(2,3) by (simp add: emits_def WriteUint8_def)

lemma number_wire:
  assumes "number_canonical v"
  shows "writeNumber v e = WriteBytes (be_bytes 8 (Float64bits v)) (WriteUint8 TagFloat64 e)"
  using assms by (simp add: writeNumber_def number_canonical_def Let_def)

lemma int_wire:
  assumes "\<bar>n\<bar> \<le> maxInt31"
  shows "writeNumber (f64_of_int n) e = WriteVarInt n (WriteUint8 TagInteger e)"
proof -
  have "\<bar>n\<bar> < 2 ^ 52" using assms by (simp add: maxInt31_def)
  note i = f64_integral_of_int [OF this]
  with assms show ?thesis by (auto simp: writeNumber_def small_integral_def Let_def)
qed

lemma array_wire:
  assumes "\<And>x. x \<in> set xs \<Longrightarrow> \<exists>bs. bs \<noteq> [] \<and> emits (w x) bs \<and> parses r bs x"
    and "length xs \<le> MaxSafeInteger"
  shows "\<exists>bs. emits (\<lambda>e. fold w xs (WriteVarUint (length xs) e)) bs
     \<and> parses (rbind ReadVarUint (\<lambda>n d. if Remaining d < n then Inl ErrUnexpectedEOF
          else rbind (rtimes n r) (\<lambda>xs. rreturn (f xs)) d)) bs (f xs)"
proof -
  have ok: "codec w r (\<lambda>x. x \<in> set xs)" using assms(1) by unfold_locales
  have all: "list_all (\<lambda>x. x \<in> set xs) xs" by (simp add: list_all_iff)
  let ?b = "concat (map (\<lambda>x. out (w x)) xs)"
  have "emits (\<lambda>e. fold w xs (WriteVarUint (length xs) e)) (writeVarUint_loop (length xs) [] @ ?b)"
    by (intro emits_seq emits_WriteVarUint codec.run_emits [OF ok all] assms(2))
  moreover have "parses (rbind ReadVarUint (\<lambda>n d. if Remaining d < n then Inl ErrUnexpectedEOF
          else rbind (rtimes n r) (\<lambda>xs. rreturn (f xs)) d)) (writeVarUint_loop (length xs) [] @ ?b) (f xs)"
    by (intro parses_bind [OF parses_ReadVarUint] parses_guard codec.run_length [OF ok all] assms(2)
        parses_bind_return [OF codec.run_parses [OF ok all] refl])
  ultimately show ?thesis by blast
qed

lemma any_leaf:
  assumes "depth \<le> maxAnyDepth"
    and "\<And>e. enc_err e = None \<Longrightarrow> writeAny depth v e = w (WriteUint8 tag e)"
    and "emits w p" and "parses (readAny_tag (readAny (Suc depth)) tag) p v"
  shows "\<exists>bs. bs \<noteq> [] \<and> emits (writeAny depth v) bs \<and> parses (readAny depth) bs v"
  using emits_writeAny [OF assms(1-3)] parses_readAny [OF assms(1,4)] by blast

lemma any_wire:
  "any_ok depth v \<Longrightarrow> \<exists>bs. bs \<noteq> [] \<and> emits (writeAny depth v) bs \<and> parses (readAny depth) bs v"
proof (induction v arbitrary: depth)
  case (AArray vs)
  then have d: "depth \<le> maxAnyDepth" and l: "length vs \<le> MaxSafeInteger"
    and el: "\<And>v. v \<in> set vs \<Longrightarrow> \<exists>bs. bs \<noteq> [] \<and> emits (writeAny (Suc depth) v) bs \<and> parses (readAny (Suc depth)) bs v"
    by auto
  obtain p where p: "emits (\<lambda>e. fold (writeAny (Suc depth)) vs (WriteVarUint (length vs) e)) p"
    "parses (rbind ReadVarUint (\<lambda>n d. if Remaining d < n then Inl ErrUnexpectedEOF
          else rbind (rtimes n (readAny (Suc depth))) (\<lambda>xs. rreturn (AArray xs)) d)) p (AArray vs)"
    using array_wire [of vs, OF el l] by blast
  show ?case
    by (rule any_leaf [OF d _ p(1), where tag = TagArray])
      (use d p(2) in \<open>simp_all add: writeAny.simps [of depth "AArray vs"] Let_def readAny_tag_def\<close>)
next
  case (AObject fs)
  then have d: "depth \<le> maxAnyDepth" and l: "length fs \<le> MaxSafeInteger" by auto
  let ?w = "\<lambda>f e. writeAny (Suc depth) (snd f) (WriteVarString (fst f) e)"
  let ?r = "rbind ReadVarString (\<lambda>key. rbind (readAny (Suc depth)) (\<lambda>val. rreturn (key, val)))"
  have el: "\<exists>bs. bs \<noteq> [] \<and> emits (?w f) bs \<and> parses ?r bs f" if f: "f \<in> set fs" for f
  proof -
    obtain k v where kv: "f = (k, v)" by (cases f) auto
    with f AObject.prems have k: "length k \<le> MaxSafeInteger" and v: "any_ok (Suc depth) v" by auto
    obtain b where b: "b \<noteq> []" "emits (writeAny (Suc depth) v) b" "parses (readAny (Suc depth)) b v"
      using AObject.IH [of f v "Suc depth"] f v by (auto simp: kv)
    let ?b = "(writeVarUint_loop (length k) [] @ k) @ b"
    have "emits (?w f) ?b" using emits_seq [OF emits_WriteVarString [OF k] b(2)] by (simp add: kv)
    moreover have "parses ?r ?b f"
      by (intro parses_bind [OF parses_ReadVarString [OF k]] parses_bind_return [OF b(3)]) (simp add: kv)
    ultimately show ?thesis using b(1) by (intro exI [of _ ?b]) simp
  qed
  obtain p where p: "emits (\<lambda>e. fold ?w fs (WriteVarUint (length fs) e)) p"
    "parses (rbind ReadVarUint (\<lambda>n d. if Remaining d < n then Inl ErrUnexpectedEOF
          else rbind (rtimes n ?r) (\<lambda>xs. rreturn (AObject xs)) d)) p (AObject fs)"
    using array_wire [of fs, OF el l] by blast
  show ?case
    by (rule any_leaf [OF d _ p(1), where tag = TagObject])
      (use d p(2) in \<open>simp_all add: writeAny.simps [of depth "AObject fs"] writeFields_def Let_def readAny_tag_def\<close>)
next
  case AUndefined
  then have d: "depth \<le> maxAnyDepth" by simp
  show ?case
    by (rule any_leaf [OF d _ emits_id, where tag = TagUndefined])
      (use d in \<open>simp_all add: writeAny.simps [of depth AUndefined] readAny_tag_def parses_return\<close>)
next
  case ANull
  then have d: "depth \<le> maxAnyDepth" by simp
  show ?case
    by (rule any_leaf [OF d _ emits_id, where tag = TagNull])
      (use d in \<open>simp_all add: writeAny.simps [of depth ANull] readAny_tag_def parses_return\<close>)
next
  case (ABool t)
  then have d: "depth \<le> maxAnyDepth" by simp
  show ?case
    by (rule any_leaf [OF d _ emits_id, where tag = "if t then TagTrue else TagFalse"])
      (use d in \<open>simp_all add: writeAny.simps [of depth "ABool t"] readAny_tag_def parses_return\<close>)
next
  case (AString t)
  then have d: "depth \<le> maxAnyDepth" and l: "length t \<le> MaxSafeInteger" by simp_all
  show ?case
    by (rule any_leaf [OF d _ emits_WriteVarString [OF l], where tag = TagString])
      (use d parses_bind_return [OF parses_ReadVarString [OF l] refl]
        in \<open>simp_all add: writeAny.simps [of depth "AString t"] readAny_tag_def\<close>)
next
  case (ABytes t)
  then have d: "depth \<le> maxAnyDepth" and l: "length t \<le> MaxSafeInteger" by simp_all
  show ?case
    by (rule any_leaf [OF d _ emits_WriteVarUint8Array [OF l], where tag = TagUint8Array])
      (use d parses_bind_return [OF parses_ReadVarUint8Array [OF l] refl]
        in \<open>simp_all add: writeAny.simps [of depth "ABytes t"] readAny_tag_def\<close>)
next
  case (ABigInt t)
  then have d: "depth \<le> maxAnyDepth" and t: "- (2 ^ 63) \<le> t" "t < 2 ^ 63" by simp_all
  have "be_value (be_bytes 8 (nat (t mod 2 ^ 64))) = nat (t mod 2 ^ 64)"
    by (simp add: be_value_be_bytes nat_less_iff)
  then have v: "i64 (int (be_value (be_bytes 8 (nat (t mod 18446744073709551616))))) = t"
    using i64_small [OF t] by (simp add: i64_def mod_simps)
  have "parses (rbind (ReadBytes 8) (\<lambda>b. rreturn (ABigInt (i64 (int (be_value b))))))
      (be_bytes 8 (nat (t mod 18446744073709551616))) (ABigInt t)"
    by (rule parses_fixed) (simp_all only: v length_be_bytes of_nat_numeral)
  then show ?case
    by (intro any_leaf [OF d _ emits_WriteBytes, where tag = TagBigInt])
      (use d in \<open>simp_all add: writeAny.simps [of depth "ABigInt t"] readAny_tag_def\<close>)
next
  case (AFloat32 t)
  then have d: "depth \<le> maxAnyDepth" and t: "f32_wf t" by simp_all
  have v: "Float32frombits (be_value (be_bytes 4 (Float32bits t))) = t"
    using Float32bits_bound [OF t] Float32_roundtrip [OF t] by (simp add: be_value_be_bytes)
  have "parses (rbind (ReadBytes 4) (\<lambda>b. rreturn (AFloat32 (Float32frombits (be_value b)))))
      (be_bytes 4 (Float32bits t)) (AFloat32 t)"
    by (rule parses_fixed) (simp_all only: v length_be_bytes of_nat_numeral)
  then show ?case
    by (intro any_leaf [OF d _ emits_WriteBytes, where tag = TagFloat32])
      (use d in \<open>simp_all add: writeAny.simps [of depth "AFloat32 t"] readAny_tag_def\<close>)
next
  case (AFloat64 t)
  then have d: "depth \<le> maxAnyDepth" and t: "number_canonical t" "f64_wf t"
    by (simp_all add: number_canonical_def)
  have v: "Float64frombits (be_value (be_bytes 8 (Float64bits t))) = t"
    using Float64bits_bound [OF t(2)] Float64_roundtrip [OF t(2)] by (simp add: be_value_be_bytes)
  have "parses (rbind (ReadBytes 8) (\<lambda>b. rreturn (AFloat64 (Float64frombits (be_value b)))))
      (be_bytes 8 (Float64bits t)) (AFloat64 t)"
    by (rule parses_fixed) (simp_all only: v length_be_bytes of_nat_numeral)
  then show ?case
    by (intro any_leaf [OF d _ emits_WriteBytes, where tag = TagFloat64])
      (use d in \<open>simp_all add: writeAny.simps [of depth "AFloat64 t"] number_wire [OF t(1)] readAny_tag_def\<close>)
next
  case (AInt n)
  then have d: "depth \<le> maxAnyDepth" and n: "\<bar>n\<bar> \<le> maxInt31" by simp_all
  then have s: "\<bar>n\<bar> \<le> int MaxSafeInteger" by (simp add: maxInt31_def MaxSafeInteger_def)
  show ?case
    by (rule any_leaf [OF d _ emits_WriteVarInt [OF s], where tag = TagInteger])
      (use d parses_bind_return [OF parses_ReadVarInt [OF s] refl]
        in \<open>simp_all add: writeAny.simps [of depth "AInt n"] int_wire [OF n] readAny_tag_def\<close>)
qed simp_all

interpretation any: codec WriteAny ReadAny "any_ok 0"
  by unfold_locales (simp add: WriteAny_def ReadAny_def any_wire)

subsection \<open>Lemmas: what is read can be written\<close>

definition writable :: "(encoder \<Rightarrow> encoder) \<Rightarrow> bool" where
  "writable w \<longleftrightarrow> (\<exists>bs. emits w bs)"

lemma writable_emits: "emits w bs \<Longrightarrow> writable w"
  by (auto simp: writable_def)

lemma writable_seq: "writable w1 \<Longrightarrow> writable w2 \<Longrightarrow> writable (\<lambda>e. w2 (w1 e))"
  unfolding writable_def by (blast intro: emits_seq)

lemma writable_fold: "(\<And>x. x \<in> set xs \<Longrightarrow> writable (w x)) \<Longrightarrow> writable (fold w xs)"
proof (induction xs)
  case Nil
  then show ?case using writable_emits [OF emits_id] by simp
next
  case (Cons x xs)
  then show ?case using writable_seq [of "w x" "fold w xs"] by (simp add: comp_def)
qed

lemma writable_finish: "writable w \<Longrightarrow> \<exists>bs. finish (w NewEncoder) = Inr bs"
  by (auto simp: writable_def dest: finish_emits)

lemma writable_cong: "(\<And>e. enc_err e = None \<Longrightarrow> w e = w' e) \<Longrightarrow> writable w' \<Longrightarrow> writable w"
  by (auto simp: writable_def emits_def)

lemmas writable_basic =
  emits_WriteUint8 [THEN writable_emits] emits_WriteBytes [THEN writable_emits]
  emits_WriteVarUint [THEN writable_emits] emits_WriteVarInt [THEN writable_emits]
  emits_WriteVarString [THEN writable_emits] emits_WriteVarUint8Array [THEN writable_emits]

lemma writable_writeNumber: "writable (writeNumber v)"
proof -
  have i: "writable (WriteVarInt (the (f64_integral v)))" if "small_integral v"
    using that by (intro writable_basic) (auto simp: small_integral_def maxInt31_def MaxSafeInteger_def split: option.splits)
  show ?thesis
  proof (cases "small_integral v")
    case True
    note w0 = writable_seq [OF writable_basic(1) [of TagInteger] writable_basic(1) [of "0x40"]]
    note w1 = writable_seq [OF writable_basic(1) [of TagInteger] i [OF True]]
    show ?thesis
    proof (cases "the (f64_integral v) = 0 \<and> f64_sign v")
      case zero: True
      show ?thesis by (rule writable_cong [OF _ w0]) (simp add: writeNumber_def True zero Let_def)
    next
      case nonzero: False
      show ?thesis by (rule writable_cong [OF _ w1]) (use True nonzero in \<open>auto simp: writeNumber_def Let_def\<close>)
    qed
  next
    case False
    note w32 = writable_seq [OF writable_basic(1) [of TagFloat32] writable_basic(2)]
    note w64 = writable_seq [OF writable_basic(1) [of TagFloat64] writable_basic(2)]
    show ?thesis
      by (cases "f32_exact v") (use w32 w64 False in \<open>simp_all add: writeNumber_def [abs_def] Let_def\<close>)
  qed
qed

lemma writable_writeFields:
  assumes "\<And>f. f \<in> set fs \<Longrightarrow> length (fst f) \<le> MaxSafeInteger \<and> writable (w (snd f))"
    and "length fs \<le> MaxSafeInteger"
  shows "writable (writeFields w fs)"
  unfolding writeFields_def Let_def
proof (rule writable_seq [OF writable_seq [OF writable_basic(1) writable_basic(3)] writable_fold])
  fix f assume "f \<in> set fs"
  with assms(1) show "writable (\<lambda>e. w (snd f) (WriteVarString (fst f) e))"
    using writable_seq [OF writable_basic(5) [of "fst f"], of "w (snd f)"] by simp
qed (rule assms(2))

lemma any_writable: "any_enc depth v \<Longrightarrow> writable (writeAny depth v)"
proof (induction v arbitrary: depth)
  case (AArray vs)
  then have d: "\<not> maxAnyDepth < depth" and l: "length vs \<le> MaxSafeInteger"
    and f: "writable (fold (writeAny (Suc depth)) vs)"
    by (auto intro: writable_fold)
  note w = writable_seq [OF writable_seq [OF writable_basic(1) writable_basic(3) [OF l]] f, of TagArray]
  show ?case by (intro writable_cong [OF _ w]) (use d in \<open>simp add: writeAny.simps [of depth "AArray vs"] Let_def\<close>)
next
  case (AObject fs)
  then have d: "\<not> maxAnyDepth < depth" and w: "writable (writeFields (writeAny (Suc depth)) fs)"
    by (auto intro!: writable_writeFields)
  show ?case by (intro writable_cong [OF _ w]) (use d in \<open>simp add: writeAny.simps [of depth "AObject fs"]\<close>)
next
  case (AMap fs)
  have d: "\<not> maxAnyDepth < depth" using AMap.prems by simp
  have w: "writable (writeFields (writeAny (Suc depth)) (sort_key fst fs))"
  proof (rule writable_writeFields)
    fix f assume "f \<in> set (sort_key fst fs)"
    then have "f \<in> set fs" by simp
    with AMap.IH [OF this, of "snd f" "Suc depth"] AMap.prems
    show "length (fst f) \<le> MaxSafeInteger \<and> writable (writeAny (Suc depth) (snd f))"
      by (cases f) auto
  qed (use AMap.prems in simp)
  show ?case by (intro writable_cong [OF _ w]) (use d in \<open>simp add: writeAny.simps [of depth "AMap fs"]\<close>)
next
  case (AString t)
  then have d: "\<not> maxAnyDepth < depth" and l: "length t \<le> MaxSafeInteger" by simp_all
  note w = writable_seq [OF writable_basic(1) writable_basic(5) [OF l], of TagString]
  show ?case by (intro writable_cong [OF _ w]) (use d in \<open>simp add: writeAny.simps [of depth "AString t"]\<close>)
next
  case (ABytes t)
  then have d: "\<not> maxAnyDepth < depth" and l: "length t \<le> MaxSafeInteger" by simp_all
  note w = writable_seq [OF writable_basic(1) writable_basic(6) [OF l], of TagUint8Array]
  show ?case by (intro writable_cong [OF _ w]) (use d in \<open>simp add: writeAny.simps [of depth "ABytes t"]\<close>)
next
  case (ABool t)
  then show ?case
    by (intro writable_cong [OF _ writable_basic(1) [of "if t then TagTrue else TagFalse"]])
      (simp add: writeAny.simps [of depth "ABool t"])
next
  case (AFloat64 t)
  then show ?case
    by (intro writable_cong [OF _ writable_writeNumber [of t]]) (simp add: writeAny.simps [of depth "AFloat64 t"])
next
  case (AInt t)
  then show ?case
    by (intro writable_cong [OF _ writable_writeNumber [of "f64_of_int t"]]) (simp add: writeAny.simps [of depth "AInt t"])
next
  case AUndefined
  then show ?case
    by (intro writable_cong [OF _ writable_basic(1) [of TagUndefined]]) (simp add: writeAny.simps [of depth AUndefined])
next
  case ANull
  then show ?case
    by (intro writable_cong [OF _ writable_basic(1) [of TagNull]]) (simp add: writeAny.simps [of depth ANull])
next
  case (ABigInt t)
  then show ?case
    by (intro writable_cong [OF _ writable_seq [OF writable_basic(1) [of TagBigInt] writable_basic(2) [of "be_bytes 8 (nat (t mod 2 ^ 64))"]]])
      (simp add: writeAny.simps [of depth "ABigInt t"])
next
  case (AFloat32 t)
  then show ?case
    by (intro writable_cong [OF _ writable_seq [OF writable_basic(1) [of TagFloat32] writable_basic(2) [of "be_bytes 4 (Float32bits t)"]]])
      (simp add: writeAny.simps [of depth "AFloat32 t"])
qed simp

lemma sound_rtimes_small:
  assumes "sound r (\<lambda>x k. 1 \<le> k \<and> (k \<le> m \<longrightarrow> Q x))"
  shows "sound (rtimes n r) (\<lambda>xs k. length xs = n \<and> n \<le> k \<and> (k \<le> m \<longrightarrow> list_all Q xs))"
proof (rule sound_mono [OF sound_rtimes [OF assms]])
  fix xs k assume "length xs = n \<and> (\<exists>ks. list_all2 (\<lambda>x k. 1 \<le> k \<and> (k \<le> m \<longrightarrow> Q x)) xs ks \<and> k = sum_list ks)"
  then obtain ks where ks: "length xs = n" "list_all2 (\<lambda>x k. 1 \<le> k \<and> (k \<le> m \<longrightarrow> Q x)) xs ks" "k = sum_list ks"
    by auto
  from ks(2) have "length xs \<le> sum_list ks \<and> (sum_list ks \<le> m \<longrightarrow> list_all Q xs)"
    by (induction rule: list_all2_induct) auto
  with ks show "length xs = n \<and> n \<le> k \<and> (k \<le> m \<longrightarrow> list_all Q xs)" by simp
qed

lemma sound_ReadVarInt: "sound ReadVarInt (\<lambda>n k. True)"
  unfolding sound_def
proof (intro allI impI)
  fix d n d' assume d: "within d" and r: "ReadVarInt d = Inr (n, d')"
  let ?d = "d\<lparr>pos := pos d + 1\<rparr>"
  from r have lt: "pos d < length (buf d)" by (auto simp: ReadVarInt_def not_le split: if_splits)
  then have w: "within ?d" by (simp add: within_def)
  show "within d' \<and> buf d' = buf d \<and> pos d \<le> pos d' \<and> True"
  proof (cases "(buf d ! pos d) AND 0x80 = 0")
    case True
    with r lt w show ?thesis by (auto simp: ReadVarInt_def Let_def)
  next
    case False
    then obtain s where "readVarInt_loop s (uint ((buf d ! pos d) AND 0x3F)) 64 ?d = Inr (n, d')"
      using r lt by (auto simp: ReadVarInt_def Let_def split: if_splits)
    from soundD [OF sound_readVarInt_loop w this] show ?thesis by auto
  qed
qed

lemma sound_readAny_tag:
  assumes r: "sound r (\<lambda>v k. 1 \<le> k \<and> (k \<le> MaxSafeInteger \<longrightarrow> any_enc (Suc depth) v))"
    and d: "depth \<le> maxAnyDepth"
  shows "sound (readAny_tag r tag) (\<lambda>v k. k \<le> MaxSafeInteger \<longrightarrow> any_enc depth v)"
proof -
  have f: "sound (rbind ReadVarString (\<lambda>key. rbind r (\<lambda>val. rreturn (key, val))))
      (\<lambda>f k. 1 \<le> k \<and> (k \<le> MaxSafeInteger \<longrightarrow> length (fst f) \<le> MaxSafeInteger \<and> any_enc (Suc depth) (snd f)))"
    by (rule sound_bind [OF sound_ReadVarString], rule sound_bind [OF r], rule sound_return) auto
  have obj: "sound (rbind ReadVarUint (\<lambda>n d. if Remaining d < n then Inl ErrUnexpectedEOF
      else rbind (rtimes n (rbind ReadVarString (\<lambda>key. rbind r (\<lambda>val. rreturn (key, val)))))
                 (\<lambda>fs. rreturn (AObject fs)) d)) (\<lambda>v k. k \<le> MaxSafeInteger \<longrightarrow> any_enc depth v)"
    by (rule sound_bind [OF sound_ReadVarUint], rule sound_if, rule sound_fail,
        rule sound_bind [OF sound_rtimes_small [OF f]], rule sound_return) (use d in \<open>auto simp: list_all_iff\<close>)
  have arr: "sound (rbind ReadVarUint (\<lambda>n d. if Remaining d < n then Inl ErrUnexpectedEOF
      else rbind (rtimes n r) (\<lambda>vs. rreturn (AArray vs)) d)) (\<lambda>v k. k \<le> MaxSafeInteger \<longrightarrow> any_enc depth v)"
    by (rule sound_bind [OF sound_ReadVarUint], rule sound_if, rule sound_fail,
        rule sound_bind [OF sound_rtimes_small [OF r]], rule sound_return) (use d in \<open>auto simp: list_all_iff\<close>)
  have leaf: "sound q (\<lambda>x k. True) \<Longrightarrow> (\<And>x. any_enc depth (g x)) \<Longrightarrow>
      sound (rbind q (\<lambda>x. rreturn (g x))) (\<lambda>v k. k \<le> MaxSafeInteger \<longrightarrow> any_enc depth v)" for q :: "'q reader" and g
    by (rule sound_bind, assumption, rule sound_return) simp
  have s: "sound (rbind ReadVarString (\<lambda>s. rreturn (AString s))) (\<lambda>v k. k \<le> MaxSafeInteger \<longrightarrow> any_enc depth v)"
    by (rule sound_bind [OF sound_ReadVarString], rule sound_return) (use d in auto)
  have b: "sound (rbind ReadVarUint8Array (\<lambda>s. rreturn (ABytes s))) (\<lambda>v k. k \<le> MaxSafeInteger \<longrightarrow> any_enc depth v)"
    by (rule sound_bind [OF sound_ReadVarUint8Array], rule sound_return) (use d in auto)
  note fixed = sound_mono [OF sound_ReadBytes, where Q = "\<lambda>x k. True", OF TrueI]
  show ?thesis unfolding readAny_tag_def
      by (simp only: if_split [where P = "\<lambda>r. sound r (\<lambda>v k. k \<le> MaxSafeInteger \<longrightarrow> any_enc depth v)"])
      (intro conjI impI obj arr s b sound_fail(1) leaf sound_ReadVarInt fixed sound_return; use d in simp)
qed

lemma sound_readAny:
  "sound (readAny depth) (\<lambda>v k. 1 \<le> k \<and> (k \<le> MaxSafeInteger \<longrightarrow> any_enc depth v))"
proof (induction "129 - depth" arbitrary: depth rule: less_induct)
  case less
  show ?case
  proof (cases "depth \<le> maxAnyDepth")
    case True
    then have "129 - Suc depth < 129 - depth" by (simp add: maxAnyDepth_def)
    note less = less [OF this]
    show ?thesis
      unfolding readAny_eq [OF True]
      by (intro sound_bind [OF sound_ReadUint8] sound_mono [OF sound_readAny_tag [OF less True]]) auto
  next
    case False
    then have "readAny depth = (\<lambda>d. Inl ErrDepthExceeded)" by (simp add: readAny.simps fun_eq_iff)
    then show ?thesis by (simp add: sound_fail)
  qed
qed

end
