(* ===== verification/Ids.thy ===== *)
theory Ids
  imports Lib0
begin

text \<open>
  Identifiers and state vectors: \<open>id.go\<close>, \<open>statevector.go\<close> and the two guarded integer
  readers of \<open>content.go\<close>.

  A \<open>ClientID\<close> and a \<open>Clock\<close> are natural numbers: every one that enters a document has
  passed \<open>readSafeVarUint\<close> and every length has passed \<open>readLen\<close>, so the sums the code
  forms stay far below \<open>2 ^ 64\<close>. A client-keyed Go map is an association list with distinct
  keys; \<open>entries_desc\<close> is the order in which every client-keyed section of the wire format
  is written, highest client first.
\<close>

subsection \<open>Identifiers\<close>

type_synonym client_id = nat
type_synonym clock = nat

datatype ID = ID (Client: client_id) (Clock: clock)

definition Compare :: "ID \<Rightarrow> ID \<Rightarrow> int" where
  "Compare a b =
     (if Client a < Client b then -1
      else if Client b < Client a then 1
      else if Clock a < Clock b then -1
      else if Clock b < Clock a then 1
      else 0)"

instantiation ID :: linorder
begin

definition less_eq_ID :: "ID \<Rightarrow> ID \<Rightarrow> bool" where
  "a \<le> b \<longleftrightarrow> Compare a b \<le> 0"

definition less_ID :: "ID \<Rightarrow> ID \<Rightarrow> bool" where
  "a < b \<longleftrightarrow> Compare a b < 0"

instance
  by intro_classes (auto simp: less_eq_ID_def less_ID_def Compare_def ID.expand split: if_splits)

end

subsection \<open>Client-keyed maps\<close>

definition clientsDescending :: "(client_id \<times> 'a) list \<Rightarrow> client_id list" where
  "clientsDescending m = rev (sort (map fst m))"

definition entries_desc :: "(client_id \<times> 'a) list \<Rightarrow> (client_id \<times> 'a) list" where
  "entries_desc m = map (\<lambda>c. (c, the (map_of m c))) (clientsDescending m)"

definition of_pairs :: "('k \<times> 'a) list \<Rightarrow> ('k \<times> 'a) list" where
  "of_pairs ps = fold (\<lambda>(k, v). AList.update k v) ps []"

subsection \<open>Guarded readers\<close>

definition maxLen :: nat where
  "maxLen = 2 ^ 31"

definition readSafeVarUint :: "nat reader" where
  "readSafeVarUint = rbind ReadVarUint (\<lambda>n.
     if MaxSafeInteger < n then rfail ErrIntegerOutOfRange else rreturn n)"

definition readLen :: "nat reader" where
  "readLen = rbind ReadVarUint (\<lambda>n.
     if maxLen < n then rfail ErrNegativeLength else rreturn n)"

definition rcounted :: "nat \<Rightarrow> 'a reader \<Rightarrow> 'a list reader" where
  "rcounted n r d = (if Remaining d < n then Inl ErrUnexpectedEOF else rtimes n r d)"

definition writeID :: "ID \<Rightarrow> encoder \<Rightarrow> encoder" where
  "writeID i e = WriteVarUint (Clock i) (WriteVarUint (Client i) e)"

definition readID :: "ID reader" where
  "readID = rbind readSafeVarUint (\<lambda>client. rbind readSafeVarUint (\<lambda>clock. rreturn (ID client clock)))"

definition id_ok :: "ID \<Rightarrow> bool" where
  "id_ok i \<longleftrightarrow> Client i \<le> MaxSafeInteger \<and> Clock i \<le> MaxSafeInteger"

subsection \<open>State vectors\<close>

type_synonym state_vector = "(client_id \<times> clock) list"

definition sv_Get :: "state_vector \<Rightarrow> client_id \<Rightarrow> clock" where
  "sv_Get sv client = (case map_of sv client of None \<Rightarrow> 0 | Some clock \<Rightarrow> clock)"

definition writeStateVector :: "state_vector \<Rightarrow> encoder \<Rightarrow> encoder" where
  "writeStateVector sv e =
     (let clients = clientsDescending sv;
          e = WriteVarUint (length clients) e
      in fold (\<lambda>client e. WriteVarUint (sv_Get sv client) (WriteVarUint client e)) clients e)"

definition EncodeStateVector :: "state_vector \<Rightarrow> bytes res" where
  "EncodeStateVector sv = finish (writeStateVector sv NewEncoder)"

definition readStateVector :: "state_vector reader" where
  "readStateVector = rbind ReadVarUint (\<lambda>numClients.
     rbind (rcounted numClients (rbind readSafeVarUint (\<lambda>client. rbind readSafeVarUint (\<lambda>clock.
       rreturn (client, clock))))) (\<lambda>entries. rreturn (of_pairs entries)))"

definition DecodeStateVector :: "bytes \<Rightarrow> state_vector res" where
  "DecodeStateVector b =
     (case readStateVector (NewDecoder b) of
        Inl er \<Rightarrow> Inl er
      | Inr (sv, d) \<Rightarrow> if \<not> Done d then Inl ErrCorruptUpdate else Inr sv)"

definition sv_ok :: "state_vector \<Rightarrow> bool" where
  "sv_ok sv \<longleftrightarrow> distinct (map fst sv) \<and> length sv \<le> MaxSafeInteger
     \<and> list_all (\<lambda>(c, k). c \<le> MaxSafeInteger \<and> k \<le> MaxSafeInteger) sv"

subsection \<open>Lemmas: client-keyed maps\<close>

lemma clientsDescending_facts [simp]:
  "set (clientsDescending m) = fst ` set m" "length (clientsDescending m) = length m"
  "distinct (clientsDescending m) \<longleftrightarrow> distinct (map fst m)"
  by (simp_all add: clientsDescending_def)

lemma entries_desc_keys [simp]: "map fst (entries_desc m) = clientsDescending m"
  by (simp add: entries_desc_def comp_def)

lemma length_entries_desc [simp]: "length (entries_desc m) = length m"
  by (simp add: entries_desc_def)

lemma set_entries_desc:
  "distinct (map fst m) \<Longrightarrow> set (entries_desc m) = set m"
  by (force simp: entries_desc_def image_iff)

lemma map_of_entries_desc:
  assumes "distinct (map fst m)"
  shows "map_of (entries_desc m) = map_of m"
proof (rule map_of_eqI)
  show "set (map fst (entries_desc m)) = set (map fst m)" by simp
  show "\<forall>k\<in>set (map fst (entries_desc m)). map_of (entries_desc m) k = map_of m k"
    using assms by (auto simp: set_entries_desc entries_desc_def map_of_map_restrict restrict_map_def
        dest: weak_map_of_SomeI split: option.splits)
qed

lemma fold_update_distinct:
  "distinct (map fst (m @ ps)) \<Longrightarrow> fold (\<lambda>(k, v). AList.update k v) ps m = m @ ps"
proof (induction ps arbitrary: m)
  case (Cons p ps)
  obtain k v where p: "p = (k, v)" by fastforce
  from Cons.prems have "k \<notin> fst ` set m" by (auto simp: p)
  then have "AList.update k v m = m @ [(k, v)]" by (induction m) auto
  with Cons.IH [of "m @ [(k, v)]"] Cons.prems show ?case by (simp add: p)
qed simp

lemma of_pairs_distinct: "distinct (map fst ps) \<Longrightarrow> of_pairs ps = ps"
  using fold_update_distinct [of "[]" ps] by (simp add: of_pairs_def)

lemma distinct_of_pairs: "distinct (map fst (of_pairs ps))"
proof -
  have "distinct (map fst m) \<Longrightarrow> distinct (map fst (fold (\<lambda>(k, v). AList.update k v) ps m))" for m
    by (induction ps arbitrary: m) (auto simp: AList.distinct_update)
  then show ?thesis by (simp add: of_pairs_def)
qed

lemma set_of_pairs: "set (of_pairs ps) \<subseteq> set ps"
proof -
  have "set (fold (\<lambda>(k, v). AList.update k v) ps m) \<subseteq> set m \<union> set ps" for m
  proof (induction ps arbitrary: m)
    case (Cons p ps)
    obtain k v where p: "p = (k, v)" by fastforce
    have "set (AList.update k v m) \<subseteq> insert (k, v) (set m)" by (induction m) auto
    with Cons.IH [of "AList.update k v m"] show ?case by (auto simp: p)
  qed simp
  from this [of "[]"] show ?thesis by (simp add: of_pairs_def)
qed

lemma length_of_pairs: "length (of_pairs ps) \<le> length ps"
proof -
  have "length (fold (\<lambda>(k, v). AList.update k v) ps m) \<le> length m + length ps" for m
  proof (induction ps arbitrary: m)
    case (Cons p ps)
    obtain k v where p: "p = (k, v)" by fastforce
    have "length (AList.update k v m) \<le> Suc (length m)" by (induction m) auto
    with Cons.IH [of "AList.update k v m"] show ?case by (simp add: p)
  qed simp
  from this [of "[]"] show ?thesis by (simp add: of_pairs_def)
qed

subsection \<open>Lemmas: guarded readers\<close>

context codec
begin

lemma run_counted:
  "list_all ok xs \<Longrightarrow> parses (rcounted (length xs) rd) (concat (map (\<lambda>x. out (wr x)) xs)) xs"
  using run_guarded [of xs] by (simp add: parses_def rcounted_def)

text \<open>A counted list: its length, then its elements.\<close>

lemma counted_emits:
  "list_all ok xs \<Longrightarrow> length xs \<le> MaxSafeInteger \<Longrightarrow>
     emits (\<lambda>e. fold wr xs (WriteVarUint (length xs) e))
       (writeVarUint_loop (length xs) [] @ concat (map (\<lambda>x. out (wr x)) xs))"
  by (rule emits_seq [OF emits_WriteVarUint run_emits])

lemma counted_parses:
  "list_all ok xs \<Longrightarrow> length xs \<le> MaxSafeInteger \<Longrightarrow>
     parses (rbind ReadVarUint (\<lambda>n. rcounted n rd))
       (writeVarUint_loop (length xs) [] @ concat (map (\<lambda>x. out (wr x)) xs)) xs"
  by (rule parses_bind [OF parses_ReadVarUint], assumption, rule run_counted)

end

lemma sound_rcounted [reader_rules]: "sound (rtimes n r) P \<Longrightarrow> sound (rcounted n r) P"
  unfolding rcounted_def by (intro sound_if sound_fail) 

lemma parses_readSafeVarUint [parses_intros]:
  "v \<le> MaxSafeInteger \<Longrightarrow> parses readSafeVarUint (writeVarUint_loop v []) v"
  using parses_bind [OF parses_ReadVarUint,
      of v "\<lambda>n. if MaxSafeInteger < n then rfail ErrIntegerOutOfRange else rreturn n" "[]"]
  by (simp add: readSafeVarUint_def parses_return)

lemma parses_readLen [parses_intros]:
  assumes "v \<le> maxLen"
  shows "parses readLen (writeVarUint_loop v []) v"
proof -
  have "v \<le> MaxSafeInteger" using assms by (simp add: maxLen_def MaxSafeInteger_def)
  from parses_bind [OF parses_ReadVarUint [OF this], of "\<lambda>n. if maxLen < n then rfail ErrNegativeLength else rreturn n" "[]"]
  show ?thesis using assms by (simp add: readLen_def parses_return)
qed

lemma sound_readSafeVarUint: "sound readSafeVarUint (\<lambda>n k. n \<le> MaxSafeInteger \<and> 1 \<le> k)"
  unfolding readSafeVarUint_def
  by (rule sound_bind [OF sound_ReadVarUint]) (auto intro: sound_fail sound_return)

lemma sound_readLen: "sound readLen (\<lambda>n k. n \<le> maxLen \<and> 1 \<le> k)"
  unfolding readLen_def
  by (rule sound_bind [OF sound_ReadVarUint]) (auto intro: sound_fail sound_return)

interpretation safe_varuint: codec WriteVarUint readSafeVarUint "\<lambda>v. v \<le> MaxSafeInteger"
  by (rule codecI [where b = "\<lambda>v. writeVarUint_loop v []"]) (simp_all add: emits_intros parses_intros)

interpretation wire_id: codec writeID readID id_ok
proof (rule codecI [where b = "\<lambda>i. writeVarUint_loop (Client i) [] @ writeVarUint_loop (Clock i) []"])
  fix i assume ok: "id_ok i"
  show "emits (writeID i) (writeVarUint_loop (Client i) [] @ writeVarUint_loop (Clock i) [])"
    using ok unfolding writeID_def id_ok_def by (intro emits_seq emits_WriteVarUint) simp_all
  show "parses readID (writeVarUint_loop (Client i) [] @ writeVarUint_loop (Clock i) []) i"
    using ok unfolding readID_def id_ok_def
    by (intro parses_bind [OF parses_readSafeVarUint] parses_bind_return [OF parses_readSafeVarUint])
      simp_all
qed simp

lemma sound_readID: "sound readID (\<lambda>i k. id_ok i \<and> 2 \<le> k)"
  unfolding readID_def
  by (rule sound_bind [OF sound_readSafeVarUint], rule sound_bind [OF sound_readSafeVarUint],
      rule sound_return) (auto simp: id_ok_def)

subsection \<open>Lemmas: state vectors\<close>

definition writeClock :: "client_id \<times> clock \<Rightarrow> encoder \<Rightarrow> encoder" where
  "writeClock p e = WriteVarUint (snd p) (WriteVarUint (fst p) e)"

definition readClock :: "(client_id \<times> clock) reader" where
  "readClock = rbind readSafeVarUint (\<lambda>client. rbind readSafeVarUint (\<lambda>clock. rreturn (client, clock)))"

interpretation clock_entry: codec writeClock readClock "\<lambda>(c, k). c \<le> MaxSafeInteger \<and> k \<le> MaxSafeInteger"
proof (rule codecI [where b = "\<lambda>p. writeVarUint_loop (fst p) [] @ writeVarUint_loop (snd p) []"])
  fix p :: "client_id \<times> clock" assume ok: "case p of (c, k) \<Rightarrow> c \<le> MaxSafeInteger \<and> k \<le> MaxSafeInteger"
  show "emits (writeClock p) (writeVarUint_loop (fst p) [] @ writeVarUint_loop (snd p) [])"
    using ok unfolding writeClock_def by (intro emits_seq emits_WriteVarUint) auto
  show "parses readClock (writeVarUint_loop (fst p) [] @ writeVarUint_loop (snd p) []) p"
    using ok unfolding readClock_def
    by (intro parses_bind [OF parses_readSafeVarUint] parses_bind_return [OF parses_readSafeVarUint])
      auto
qed simp

lemma writeStateVector_entries:
  "writeStateVector sv e = fold writeClock (entries_desc sv) (WriteVarUint (length (entries_desc sv)) e)"
proof -
  have "fold (\<lambda>client e. WriteVarUint (sv_Get sv client) (WriteVarUint client e)) cs e
      = fold writeClock (map (\<lambda>c. (c, the (map_of sv c))) cs) e" if "set cs \<subseteq> fst ` set sv" for cs e
    using that
  proof (induction cs arbitrary: e)
    case (Cons c cs)
    then have "c \<in> fst ` set sv" by simp
    then obtain k where "map_of sv c = Some k"
      by (metis map_of_eq_None_iff not_None_eq)
    with Cons show ?case by (simp add: writeClock_def sv_Get_def)
  qed simp
  then show ?thesis by (simp add: writeStateVector_def entries_desc_def Let_def)
qed

lemma readStateVector_entries:
  "readStateVector = rbind (rbind ReadVarUint (\<lambda>n. rcounted n readClock)) (\<lambda>entries. rreturn (of_pairs entries))"
  by (auto simp: readStateVector_def readClock_def rbind_def fun_eq_iff split: sum.splits)

lemma state_vector_wire:
  assumes "sv_ok sv"
  shows "\<exists>bs. emits (writeStateVector sv) bs \<and> parses readStateVector bs (entries_desc sv)"
proof -
  let ?es = "entries_desc sv"
  have ok: "list_all (\<lambda>(c, k). c \<le> MaxSafeInteger \<and> k \<le> MaxSafeInteger) ?es" "length ?es \<le> MaxSafeInteger"
    using assms by (auto simp: sv_ok_def list_all_iff set_entries_desc)
  have "of_pairs ?es = ?es" using assms by (simp add: of_pairs_distinct sv_ok_def)
  with clock_entry.counted_emits [OF ok] clock_entry.counted_parses [OF ok] show ?thesis
    unfolding writeStateVector_entries [abs_def] readStateVector_entries
    by (intro exI conjI parses_bind_return) auto
qed

lemma sound_readStateVector: "sound readStateVector (\<lambda>sv k. distinct (map fst sv)
    \<and> list_all (\<lambda>(c, k). c \<le> MaxSafeInteger \<and> k \<le> MaxSafeInteger) sv \<and> 2 * length sv < k)"
proof -
  have "sound readClock (\<lambda>p k. (case p of (c, k) \<Rightarrow> c \<le> MaxSafeInteger \<and> k \<le> MaxSafeInteger) \<and> 2 \<le> k)"
    unfolding readClock_def
    by (rule sound_bind [OF sound_readSafeVarUint], rule sound_bind [OF sound_readSafeVarUint],
        rule sound_return) auto
  note c = sound_rtimes_all [OF this, where Q = "\<lambda>(c, k). c \<le> MaxSafeInteger \<and> k \<le> MaxSafeInteger" and l = 2]
  show ?thesis
    unfolding readStateVector_def readClock_def [symmetric]
    apply (rule sound_bind [OF sound_ReadVarUint], rule sound_bind [OF sound_rcounted [OF c]], simp)
    apply (rule sound_return)
    subgoal for n k es m
      using set_of_pairs [of es] length_of_pairs [of es]
      by (auto simp: distinct_of_pairs list_all_iff)
    done
qed

end
