(* ===== verification/Delete_Set.thy ===== *)
theory Delete_Set
  imports Ids
begin

text \<open>
  Delete sets, \<open>deleteset.go\<close>: per client the ranges of clocks that have been deleted.

  \<open>Add\<close> appends a range, sorts by clock and merges what touches. Its specification is the
  locale \<open>id_set\<close>: a set of identifiers with insertion of a range and membership. The
  interpretation shows that the merged lists implement it, and \<open>canonical_unique\<close> that the
  list is determined by the set, so that the order of deletions does not show in the result.
\<close>

subsection \<open>Definitions\<close>

record DeleteRange =
  rClock :: clock
  rLen :: nat

definition rEnd :: "DeleteRange \<Rightarrow> clock" where
  "rEnd r = rClock r + rLen r"

type_synonym delete_set = "(client_id \<times> DeleteRange list) list"

definition NewDeleteSet :: delete_set where
  "NewDeleteSet = []"

definition ds_ranges :: "delete_set \<Rightarrow> client_id \<Rightarrow> DeleteRange list" where
  "ds_ranges ds client = (case map_of ds client of None \<Rightarrow> [] | Some rs \<Rightarrow> rs)"

definition IsEmpty :: "delete_set \<Rightarrow> bool" where
  "IsEmpty ds \<longleftrightarrow> list_all (\<lambda>(client, ranges). ranges = []) ds"

fun merge_ranges :: "DeleteRange \<Rightarrow> DeleteRange list \<Rightarrow> DeleteRange list" where
  "merge_ranges prev [] = [prev]"
| "merge_ranges prev (r # rs) =
     (if rClock r \<le> rEnd prev
      then merge_ranges
             (if rEnd prev < rEnd r then prev\<lparr>rLen := rEnd r - rClock prev\<rparr> else prev) rs
      else prev # merge_ranges r rs)"

definition Add :: "client_id \<Rightarrow> clock \<Rightarrow> nat \<Rightarrow> delete_set \<Rightarrow> delete_set" where
  "Add client clock len ds =
     (if len = 0 then ds
      else (let ranges = sort_key rClock (ds_ranges ds client @ [\<lparr>rClock = clock, rLen = len\<rparr>])
            in AList.update client (merge_ranges (hd ranges) (tl ranges)) ds))"

definition IsDeleted :: "delete_set \<Rightarrow> ID \<Rightarrow> bool" where
  "IsDeleted ds i =
     (let ranges = ds_ranges ds (Client i);
          k = sort_Search (length ranges) (\<lambda>k. Clock i < rEnd (ranges ! k))
      in k < length ranges \<and> rClock (ranges ! k) \<le> Clock i)"

definition writeRange :: "DeleteRange \<Rightarrow> encoder \<Rightarrow> encoder" where
  "writeRange r e = WriteVarUint (rLen r) (WriteVarUint (rClock r) e)"

definition writeDeleteSet :: "delete_set \<Rightarrow> encoder \<Rightarrow> encoder" where
  "writeDeleteSet ds e =
     (let clients = clientsDescending ds;
          e = WriteVarUint (length clients) e
      in fold (\<lambda>client e.
           let ranges = ds_ranges ds client;
               e = WriteVarUint client e;
               e = WriteVarUint (length ranges) e
           in fold writeRange ranges e) clients e)"

definition readRange :: "DeleteRange reader" where
  "readRange = rbind readSafeVarUint (\<lambda>clock. rbind readLen (\<lambda>len.
     rreturn \<lparr>rClock = clock, rLen = len\<rparr>))"

definition readDeleteSet :: "delete_set reader" where
  "readDeleteSet = rbind ReadVarUint (\<lambda>numClients.
     rbind (rcounted numClients
       (rbind readSafeVarUint (\<lambda>client.
        rbind ReadVarUint (\<lambda>numRanges.
        rbind (rcounted numRanges readRange) (\<lambda>ranges.
        rreturn (client, ranges))))))
     (\<lambda>entries. rreturn (of_pairs entries)))"

subsection \<open>What a delete set means\<close>

definition covers :: "DeleteRange list \<Rightarrow> clock set" where
  "covers rs = (\<Union>r\<in>set rs. {rClock r..<rEnd r})"

definition canonical :: "DeleteRange list \<Rightarrow> bool" where
  "canonical rs \<longleftrightarrow> list_all (\<lambda>r. 0 < rLen r) rs \<and> sorted_wrt (\<lambda>a b. rEnd a < rClock b) rs"

definition ds_canonical :: "delete_set \<Rightarrow> bool" where
  "ds_canonical ds \<longleftrightarrow> distinct (map fst ds) \<and> list_all (\<lambda>(c, rs). rs \<noteq> [] \<and> canonical rs) ds"

definition range_ok :: "DeleteRange \<Rightarrow> bool" where
  "range_ok r \<longleftrightarrow> rClock r \<le> MaxSafeInteger \<and> rLen r \<le> maxLen"

definition ds_entry_ok :: "client_id \<times> DeleteRange list \<Rightarrow> bool" where
  "ds_entry_ok p \<longleftrightarrow> fst p \<le> MaxSafeInteger \<and> length (snd p) \<le> MaxSafeInteger \<and> list_all range_ok (snd p)"

definition ds_ok :: "delete_set \<Rightarrow> bool" where
  "ds_ok ds \<longleftrightarrow> distinct (map fst ds) \<and> length ds \<le> MaxSafeInteger \<and> list_all ds_entry_ok ds"

text \<open>The interface: a set of identifiers that grows by ranges of one client.\<close>

locale id_set =
  fixes inv :: "'s \<Rightarrow> bool"
    and new :: 's
    and add :: "client_id \<Rightarrow> clock \<Rightarrow> nat \<Rightarrow> 's \<Rightarrow> 's"
    and mem :: "'s \<Rightarrow> ID \<Rightarrow> bool"
  assumes inv_new: "inv new" and mem_new: "\<not> mem new i"
    and inv_add: "inv s \<Longrightarrow> inv (add c k n s)"
    and mem_add: "inv s \<Longrightarrow> mem (add c k n s) i \<longleftrightarrow> mem s i \<or> Client i = c \<and> k \<le> Clock i \<and> Clock i < k + n"

subsection \<open>Lemmas: merging\<close>

lemma rEnd_simps [simp]: "rEnd \<lparr>rClock = a, rLen = l\<rparr> = a + l" "rEnd (r\<lparr>rLen := l\<rparr>) = rClock r + l"
  by (simp_all add: rEnd_def)

lemma rClock_le_rEnd: "rClock r \<le> rEnd r"
  by (simp add: rEnd_def)

lemma covers_Nil [simp]: "covers [] = {}"
  by (simp add: covers_def)

lemma covers_Cons [simp]: "covers (r # rs) = {rClock r..<rEnd r} \<union> covers rs"
  by (simp add: covers_def)

lemma covers_set: "set rs = set rs' \<Longrightarrow> covers rs = covers rs'"
  by (simp add: covers_def)

lemma covers_merge:
  "sorted_wrt (\<lambda>a b. rClock a \<le> rClock b) (prev # rs) \<Longrightarrow> covers (merge_ranges prev rs) = covers (prev # rs)"
proof (induction prev rs rule: merge_ranges.induct)
  case (2 prev r rs)
  show ?case
  proof (cases "rClock r \<le> rEnd prev")
    case True
    let ?l = "if rEnd prev < rEnd r then prev\<lparr>rLen := rEnd r - rClock prev\<rparr> else prev"
    have le: "rClock prev \<le> rClock r" using 2 by simp
    then have "{rClock ?l..<rEnd ?l} = {rClock prev..<rEnd prev} \<union> {rClock r..<rEnd r}"
      using True rClock_le_rEnd [of r] by auto
    moreover have "sorted_wrt (\<lambda>a b. rClock a \<le> rClock b) (?l # rs)" using 2(3) by auto
    ultimately show ?thesis using 2(1) [OF True] True by auto
  next
    case False
    with 2 show ?thesis by auto
  qed
qed simp

lemma canonical_merge:
  assumes "sorted_wrt (\<lambda>a b. rClock a \<le> rClock b) (prev # rs)" and "list_all (\<lambda>r. 0 < rLen r) (prev # rs)"
  shows "canonical (merge_ranges prev rs) \<and> merge_ranges prev rs \<noteq> []
     \<and> (\<forall>r\<in>set (merge_ranges prev rs). rClock prev \<le> rClock r)"
  using assms
proof (induction prev rs rule: merge_ranges.induct)
  case (2 prev r rs)
  show ?case
  proof (cases "rClock r \<le> rEnd prev")
    case True
    let ?l = "if rEnd prev < rEnd r then prev\<lparr>rLen := rEnd r - rClock prev\<rparr> else prev"
    have "rClock ?l = rClock prev" "0 < rLen ?l"
      using 2(4) rClock_le_rEnd [of prev] by auto
    with 2(1) [OF True] 2(3,4) True show ?thesis by auto
  next
    case False
    then have "rEnd prev < rClock r" by simp
    with 2(2) [OF False] 2(3,4) False show ?thesis
      by (fastforce simp: canonical_def)
  qed
qed (simp add: canonical_def)

lemma canonical_Cons:
  "canonical (r # rs) \<longleftrightarrow> 0 < rLen r \<and> (\<forall>s\<in>set rs. rEnd r < rClock s) \<and> canonical rs"
  by (auto simp: canonical_def)

lemma covers_gap: "canonical (r # rs) \<Longrightarrow> k \<in> covers rs \<Longrightarrow> rEnd r < k"
  by (fastforce simp: canonical_Cons covers_def)

lemma canonical_unique:
  "canonical rs \<Longrightarrow> canonical rs' \<Longrightarrow> covers rs = covers rs' \<Longrightarrow> rs = rs'"
proof (induction rs arbitrary: rs')
  case Nil
  then show ?case by (cases rs') (auto simp: canonical_Cons rEnd_def)
next
  case (Cons r rs)
  then obtain s ss where rs': "rs' = s # ss"
    by (cases rs') (auto simp: canonical_Cons rEnd_def)
  note cr = Cons.prems(1) and cs = Cons.prems(2) [unfolded rs']
  have eq: "k \<in> {rClock r..<rEnd r} \<or> k \<in> covers rs \<longleftrightarrow> k \<in> {rClock s..<rEnd s} \<or> k \<in> covers ss" for k
    using Cons.prems(3) by (auto simp: rs' set_eq_iff)
  have pos: "rClock r < rEnd r" "rClock s < rEnd s"
    using cr cs by (auto simp: canonical_Cons rEnd_def)
  have gap: "k \<in> covers rs \<Longrightarrow> rEnd r < k" "k \<in> covers ss \<Longrightarrow> rEnd s < k" for k
    using covers_gap [OF cr] covers_gap [OF cs] by auto
  have c: "rClock r = rClock s"
    using eq [of "rClock r"] eq [of "rClock s"] gap [of "rClock r"] gap [of "rClock s"] pos by auto
  have e: "rEnd r = rEnd s"
    using eq [of "rEnd r"] eq [of "rEnd s"] gap [of "rEnd r"] gap [of "rEnd s"] pos c
    by (metis atLeastLessThan_iff less_irrefl less_le_not_le linorder_neqE_nat nat_le_linear)
  from c e have "r = s" by (simp add: rEnd_def)
  moreover have "covers rs = covers ss"
    using eq gap c e by (auto simp: set_eq_iff) (metis atLeastLessThan_iff less_asym)+
  ultimately show ?case using Cons.IH cr cs by (simp add: rs' canonical_Cons)
qed

subsection \<open>Lemmas: adding and looking up\<close>

lemma ds_canonical_ranges: "ds_canonical ds \<Longrightarrow> canonical (ds_ranges ds c)"
  by (auto simp: ds_canonical_def ds_ranges_def list_all_iff canonical_def dest: map_of_SomeD split: option.splits)

lemma sorted_positive_insert:
  fixes k len :: nat
  assumes "canonical rs" and "0 < len"
  defines "ranges \<equiv> sort_key rClock (rs @ [\<lparr>rClock = k, rLen = len\<rparr>])"
  shows "sorted_wrt (\<lambda>a b. rClock a \<le> rClock b) (hd ranges # tl ranges)"
    and "list_all (\<lambda>r. 0 < rLen r) (hd ranges # tl ranges)"
    and "covers (hd ranges # tl ranges) = covers rs \<union> {k..<k + len}"
proof -
  have s: "set ranges = insert \<lparr>rClock = k, rLen = len\<rparr> (set rs)" by (simp add: ranges_def)
  then have "ranges \<noteq> []" by auto
  then have ht: "hd ranges # tl ranges = ranges" by simp
  show "sorted_wrt (\<lambda>a b. rClock a \<le> rClock b) (hd ranges # tl ranges)"
    unfolding ht using sorted_sort_key [of rClock] by (simp add: ranges_def sorted_wrt_map)
  show "list_all (\<lambda>r. 0 < rLen r) (hd ranges # tl ranges)"
    unfolding ht using assms by (auto simp: s list_all_iff canonical_def simp del: ranges_def)
  show "covers (hd ranges # tl ranges) = covers rs \<union> {k..<k + len}"
    unfolding ht covers_def s by auto
qed

lemma ds_ranges_Add:
  assumes "ds_canonical ds"
  shows "covers (ds_ranges (Add c k n ds) c') =
     covers (ds_ranges ds c') \<union> (if c' = c then {k..<k + n} else {})"
proof (cases "n = 0")
  case False
  let ?ranges = "sort_key rClock (ds_ranges ds c @ [\<lparr>rClock = k, rLen = n\<rparr>])"
  have "0 < n" using False by simp
  note ins = sorted_positive_insert [OF ds_canonical_ranges [OF assms, of c] this, of k]
  from covers_merge [OF ins(1)] ins(3)
  have "covers (merge_ranges (hd ?ranges) (tl ?ranges)) = covers (ds_ranges ds c) \<union> {k..<k + n}"
    by (rule trans)
  moreover have "ds_ranges (AList.update c v ds) c' = (if c' = c then v else ds_ranges ds c')" for v
    by (simp add: ds_ranges_def update_conv')
  ultimately show ?thesis using False by (simp add: Add_def Let_def)
qed (simp add: Add_def)

lemma ds_canonical_Add:
  assumes "ds_canonical ds"
  shows "ds_canonical (Add c k n ds)"
proof (cases "n = 0")
  case False
  let ?ranges = "sort_key rClock (ds_ranges ds c @ [\<lparr>rClock = k, rLen = n\<rparr>])"
  have "canonical (merge_ranges (hd ?ranges) (tl ?ranges)) \<and> merge_ranges (hd ?ranges) (tl ?ranges) \<noteq> []"
    using canonical_merge [OF sorted_positive_insert(1,2)] ds_canonical_ranges [OF assms] False by simp
  moreover have "list_all (\<lambda>(c, rs). rs \<noteq> [] \<and> canonical rs) (AList.update c v ds)"
    if "list_all (\<lambda>(c, rs). rs \<noteq> [] \<and> canonical rs) ds" "canonical v \<and> v \<noteq> []" for v
    using that by (induction ds) auto
  ultimately show ?thesis
    using assms False by (simp add: Add_def Let_def ds_canonical_def AList.distinct_update)
qed (use assms in \<open>simp add: Add_def\<close>)

lemma IsDeleted_covers:
  assumes "canonical (ds_ranges ds (Client i))"
  shows "IsDeleted ds i \<longleftrightarrow> Clock i \<in> covers (ds_ranges ds (Client i))"
proof -
  let ?rs = "ds_ranges ds (Client i)"
  let ?f = "\<lambda>k. Clock i < rEnd (?rs ! k)"
  have lt: "rEnd (?rs ! a) < rClock (?rs ! b)" if "a < b" "b < length ?rs" for a b
    using assms that by (auto simp: canonical_def sorted_wrt_iff_nth_less)
  have mono: "\<forall>a b. a \<le> b \<longrightarrow> b < length ?rs \<longrightarrow> ?f a \<longrightarrow> ?f b"
    using lt rClock_le_rEnd by (metis le_neq_implies_less less_le_trans order.strict_trans)
  let ?k = "sort_Search (length ?rs) ?f"
  note least = sort_Search_least [OF mono]
  show ?thesis
  proof
    assume "IsDeleted ds i"
    then have "?k < length ?rs" "rClock (?rs ! ?k) \<le> Clock i" by (auto simp: IsDeleted_def Let_def)
    moreover from this(1) have "?f ?k" using least(3) by blast
    ultimately show "Clock i \<in> covers ?rs" by (auto simp: covers_def)
  next
    assume "Clock i \<in> covers ?rs"
    then obtain j where j: "j < length ?rs" "rClock (?rs ! j) \<le> Clock i" "?f j"
      by (auto simp: covers_def in_set_conv_nth)
    have "\<not> ?f l" if "l < j" for l using lt [OF that j(1)] j(2) by simp
    then have "?k = j" by (rule sort_Search_eqI [OF mono j(1,3)])
    with j show "IsDeleted ds i" by (simp add: IsDeleted_def Let_def)
  qed
qed

interpretation deletes: id_set ds_canonical NewDeleteSet Add IsDeleted
proof
  show "ds_canonical NewDeleteSet" by (simp add: ds_canonical_def NewDeleteSet_def)
  show "\<not> IsDeleted NewDeleteSet i" for i by (simp add: IsDeleted_def NewDeleteSet_def ds_ranges_def)
  show "ds_canonical (Add c k n s)" if "ds_canonical s" for c k n s by (rule ds_canonical_Add [OF that])
  show "IsDeleted (Add c k n s) i \<longleftrightarrow> IsDeleted s i \<or> Client i = c \<and> k \<le> Clock i \<and> Clock i < k + n"
    if "ds_canonical s" for c k n s i
    by (auto simp: IsDeleted_covers ds_canonical_ranges ds_canonical_Add ds_ranges_Add that split: if_splits)
qed

context id_set
begin

text \<open>What a loop of insertions collects, in whatever order.\<close>

lemma inv_fold: "inv s \<Longrightarrow> inv (fold (\<lambda>(c, k, n). add c k n) rs s)"
  by (induction rs arbitrary: s) (auto simp: inv_add)

lemma mem_fold:
  "inv s \<Longrightarrow> mem (fold (\<lambda>(c, k, n). add c k n) rs s) i \<longleftrightarrow>
     mem s i \<or> (\<exists>(c, k, n)\<in>set rs. Client i = c \<and> k \<le> Clock i \<and> Clock i < k + n)"
proof (induction rs arbitrary: s)
  case (Cons r rs)
  obtain c k n where r: "r = (c, k, n)" by (metis prod_cases3)
  show ?case using Cons.IH [OF inv_add [OF Cons.prems]] mem_add [OF Cons.prems] by (simp add: r disj_assoc)
qed simp

end

text \<open>Two canonical delete sets with the same members are the same map.\<close>

lemma ds_canonical_ext:
  assumes "ds_canonical a" and "ds_canonical b" and "\<And>i. IsDeleted a i \<longleftrightarrow> IsDeleted b i"
  shows "map_of a = map_of b"
proof
  fix c
  have "covers (ds_ranges a c) = covers (ds_ranges b c)"
    using assms(3) [of "ID c _"] assms(1,2)
    by (auto simp: IsDeleted_covers ds_canonical_ranges)
  then have eq: "ds_ranges a c = ds_ranges b c"
    using canonical_unique ds_canonical_ranges assms(1,2) by blast
  have ne: "map_of x c \<noteq> Some []" if "ds_canonical x" for x
    using that by (auto simp: ds_canonical_def list_all_iff dest: map_of_SomeD)
  show "map_of a c = map_of b c"
    using eq ne [OF assms(1)] ne [OF assms(2)] by (auto simp: ds_ranges_def split: option.splits)
qed

subsection \<open>Lemmas: the wire form\<close>

definition writeDsEntry :: "client_id \<times> DeleteRange list \<Rightarrow> encoder \<Rightarrow> encoder" where
  "writeDsEntry p e = fold writeRange (snd p) (WriteVarUint (length (snd p)) (WriteVarUint (fst p) e))"

definition readDsEntry :: "(client_id \<times> DeleteRange list) reader" where
  "readDsEntry = rbind readSafeVarUint (\<lambda>client.
     rbind (rbind ReadVarUint (\<lambda>n. rcounted n readRange)) (\<lambda>ranges. rreturn (client, ranges)))"

interpretation wire_range: codec writeRange readRange range_ok
proof (rule codecI [where b = "\<lambda>r. writeVarUint_loop (rClock r) [] @ writeVarUint_loop (rLen r) []"])
  fix r assume ok: "range_ok r"
  show "emits (writeRange r) (writeVarUint_loop (rClock r) [] @ writeVarUint_loop (rLen r) [])"
    using ok unfolding writeRange_def range_ok_def
    by (intro emits_seq emits_WriteVarUint) (auto simp: maxLen_def MaxSafeInteger_def)
  show "parses readRange (writeVarUint_loop (rClock r) [] @ writeVarUint_loop (rLen r) []) r"
    using ok unfolding readRange_def range_ok_def
    by (intro parses_bind [OF parses_readSafeVarUint] parses_bind_return [OF parses_readLen]) auto
qed simp

interpretation wire_ds_entry: codec writeDsEntry readDsEntry ds_entry_ok
proof (rule codecI [where b = "\<lambda>p. writeVarUint_loop (fst p) [] @ writeVarUint_loop (length (snd p)) []
      @ concat (map (\<lambda>r. out (writeRange r)) (snd p))"])
  fix p assume ok: "ds_entry_ok p"
  then have ok': "fst p \<le> MaxSafeInteger" "list_all range_ok (snd p)" "length (snd p) \<le> MaxSafeInteger"
    by (simp_all add: ds_entry_ok_def)
  show "emits (writeDsEntry p) (writeVarUint_loop (fst p) [] @ writeVarUint_loop (length (snd p)) []
      @ concat (map (\<lambda>r. out (writeRange r)) (snd p)))"
    unfolding writeDsEntry_def
    using emits_seq [OF emits_WriteVarUint [OF ok'(1)] wire_range.counted_emits [OF ok'(2,3)]] .
  show "parses readDsEntry (writeVarUint_loop (fst p) [] @ writeVarUint_loop (length (snd p)) []
      @ concat (map (\<lambda>r. out (writeRange r)) (snd p))) p"
    unfolding readDsEntry_def
    by (rule parses_bind [OF parses_readSafeVarUint [OF ok'(1)]],
        rule parses_bind_return [OF wire_range.counted_parses [OF ok'(2,3)]]) simp
qed simp

lemma writeDeleteSet_entries:
  "writeDeleteSet ds e = fold writeDsEntry (entries_desc ds) (WriteVarUint (length (entries_desc ds)) e)"
proof -
  have "fold (\<lambda>client e. let ranges = ds_ranges ds client; e = WriteVarUint client e;
               e = WriteVarUint (length ranges) e in fold writeRange ranges e) cs e
      = fold writeDsEntry (map (\<lambda>c. (c, the (map_of ds c))) cs) e" if "set cs \<subseteq> fst ` set ds" for cs e
    using that
  proof (induction cs arbitrary: e)
    case (Cons c cs)
    then have "c \<in> fst ` set ds" by simp
    then obtain k where "map_of ds c = Some k" by (metis map_of_eq_None_iff not_None_eq)
    with Cons show ?case by (simp add: writeDsEntry_def ds_ranges_def Let_def)
  qed simp
  then show ?thesis by (simp add: writeDeleteSet_def entries_desc_def Let_def)
qed

lemma rbind_assoc: "rbind (rbind r f) g = rbind r (\<lambda>x. rbind (f x) g)"
  by (auto simp: rbind_def fun_eq_iff split: sum.splits)

lemma readDeleteSet_entries:
  "readDeleteSet = rbind (rbind ReadVarUint (\<lambda>n. rcounted n readDsEntry)) (\<lambda>entries. rreturn (of_pairs entries))"
  by (simp add: readDeleteSet_def readDsEntry_def rbind_assoc)

lemma delete_set_wire:
  assumes "ds_ok ds"
  shows "\<exists>bs. bs \<noteq> [] \<and> emits (writeDeleteSet ds) bs \<and> parses readDeleteSet bs (entries_desc ds)"
proof -
  let ?es = "entries_desc ds"
  have ok: "list_all ds_entry_ok ?es" "length ?es \<le> MaxSafeInteger"
    using assms by (auto simp: ds_ok_def list_all_iff set_entries_desc)
  have "of_pairs ?es = ?es" using assms by (simp add: of_pairs_distinct ds_ok_def)
  with wire_ds_entry.counted_emits [OF ok] wire_ds_entry.counted_parses [OF ok] show ?thesis
    unfolding writeDeleteSet_entries [abs_def] readDeleteSet_entries
    by (intro exI conjI parses_bind_return) auto
qed

lemma sound_readRange: "sound readRange (\<lambda>r k. range_ok r \<and> 2 \<le> k)"
  unfolding readRange_def
  by (rule sound_bind [OF sound_readSafeVarUint], rule sound_bind [OF sound_readLen],
      rule sound_return) (auto simp: range_ok_def)

lemma sound_readDsEntry: "sound readDsEntry (\<lambda>p k. fst p \<le> MaxSafeInteger \<and> list_all range_ok (snd p)
    \<and> 2 * length (snd p) + 2 \<le> k)"
  unfolding readDsEntry_def rbind_assoc
  by (rule sound_bind [OF sound_readSafeVarUint], rule sound_bind [OF sound_ReadVarUint],
      rule sound_bind [OF sound_rcounted [OF sound_rtimes_all [OF sound_readRange]]],
      blast, rule sound_return) auto

lemma sound_readDeleteSet: "sound readDeleteSet (\<lambda>ds k. distinct (map fst ds) \<and> 2 * length ds < k
    \<and> list_all (\<lambda>p. fst p \<le> MaxSafeInteger \<and> list_all range_ok (snd p) \<and> 2 * length (snd p) < k) ds)"
proof -
  have "sound (rtimes n readDsEntry) (\<lambda>es k. length es = n \<and> 2 * n \<le> k
      \<and> list_all (\<lambda>p. fst p \<le> MaxSafeInteger \<and> list_all range_ok (snd p) \<and> 2 * length (snd p) \<le> k) es)" for n
  proof (rule sound_mono [OF sound_rtimes [OF sound_readDsEntry]])
    fix es k assume "length es = n \<and> (\<exists>ks. list_all2 (\<lambda>p k. fst p \<le> MaxSafeInteger \<and> list_all range_ok (snd p)
        \<and> 2 * length (snd p) + 2 \<le> k) es ks \<and> k = sum_list ks)"
    then obtain ks where "length es = n" and a: "list_all2 (\<lambda>p k. fst p \<le> MaxSafeInteger
        \<and> list_all range_ok (snd p) \<and> 2 * length (snd p) + 2 \<le> k) es ks" and "k = sum_list ks" by auto
    moreover from a have "2 * length es \<le> sum_list ks \<and> list_all (\<lambda>p. fst p \<le> MaxSafeInteger
        \<and> list_all range_ok (snd p) \<and> 2 * length (snd p) \<le> sum_list ks) es"
      by (induction rule: list_all2_induct) (auto simp: list_all_iff)
    ultimately show "length es = n \<and> 2 * n \<le> k \<and> list_all (\<lambda>p. fst p \<le> MaxSafeInteger
        \<and> list_all range_ok (snd p) \<and> 2 * length (snd p) \<le> k) es" by simp
  qed
  note c = sound_rcounted [OF this]
  show ?thesis unfolding readDeleteSet_entries rbind_assoc
    apply (rule sound_bind [OF sound_ReadVarUint], rule sound_bind [OF c], rule sound_return)
    subgoal for n k es m
      using set_of_pairs [of es] length_of_pairs [of es]
      by (fastforce simp: distinct_of_pairs list_all_iff)
    done
qed

end
