(* ===== verification/Contents.thy ===== *)
theory Contents
  imports Utf16 Lib0_Any Delete_Set
begin

text \<open>
  The payloads of items, \<open>content.go\<close>, with the wire part of shared types from \<open>type.go\<close>.

  \<open>content\<close> has one constructor per implementation of the Go interface \<open>Content\<close>, in the
  order of their refs. \<open>ContentType\<close> carries the two fields of \<open>AbstractType\<close> that travel
  on the wire; the mutable rest of a type (its list and its map) belongs to the document.
  \<open>Splice\<close> mutates its receiver and returns the tail, so here it returns both halves;
  \<open>MergeWith\<close> returns the merged receiver, or nothing where the code returns false.
  Offsets never exceed the length of the content, which every caller ensures.

  The lemmas: splitting preserves the content (the halves merge back to the whole and their
  lengths add up), writing from an offset is writing the tail, every content the reader accepts
  is read back from what is written, and every content that was read can be written.
\<close>

subsection \<open>The contents\<close>

abbreviation (input) RefGC :: nat where "RefGC \<equiv> 0"
abbreviation (input) RefDeleted :: nat where "RefDeleted \<equiv> 1"
abbreviation (input) RefJSON :: nat where "RefJSON \<equiv> 2"
abbreviation (input) RefBinary :: nat where "RefBinary \<equiv> 3"
abbreviation (input) RefString :: nat where "RefString \<equiv> 4"
abbreviation (input) RefEmbed :: nat where "RefEmbed \<equiv> 5"
abbreviation (input) RefFormat :: nat where "RefFormat \<equiv> 6"
abbreviation (input) RefType :: nat where "RefType \<equiv> 7"
abbreviation (input) RefAny :: nat where "RefAny \<equiv> 8"
abbreviation (input) RefDoc :: nat where "RefDoc \<equiv> 9"
abbreviation (input) RefSkip :: nat where "RefSkip \<equiv> 10"

abbreviation (input) TypeRefArray :: nat where "TypeRefArray \<equiv> 0"
abbreviation (input) TypeRefMap :: nat where "TypeRefMap \<equiv> 1"
abbreviation (input) TypeRefText :: nat where "TypeRefText \<equiv> 2"
abbreviation (input) TypeRefXMLElement :: nat where "TypeRefXMLElement \<equiv> 3"
abbreviation (input) TypeRefXMLFragment :: nat where "TypeRefXMLFragment \<equiv> 4"
abbreviation (input) TypeRefXMLHook :: nat where "TypeRefXMLHook \<equiv> 5"
abbreviation (input) TypeRefXMLText :: nat where "TypeRefXMLText \<equiv> 6"

datatype content =
    ContentDeleted nat
  | ContentJSON "bytes list"
  | ContentBinary bytes
  | ContentString bytes
  | ContentEmbed bytes
  | ContentFormat bytes bytes
  | ContentType nat bytes
  | ContentAny "any list"
  | ContentDoc bytes any

primrec Ref :: "content \<Rightarrow> nat" where
  "Ref (ContentDeleted n) = RefDeleted"
| "Ref (ContentJSON vs) = RefJSON"
| "Ref (ContentBinary b) = RefBinary"
| "Ref (ContentString s) = RefString"
| "Ref (ContentEmbed s) = RefEmbed"
| "Ref (ContentFormat k v) = RefFormat"
| "Ref (ContentType r n) = RefType"
| "Ref (ContentAny vs) = RefAny"
| "Ref (ContentDoc g opts) = RefDoc"

primrec Len :: "content \<Rightarrow> nat" where
  "Len (ContentDeleted n) = n"
| "Len (ContentJSON vs) = length vs"
| "Len (ContentBinary b) = 1"
| "Len (ContentString s) = UTF16Length s"
| "Len (ContentEmbed s) = 1"
| "Len (ContentFormat k v) = 1"
| "Len (ContentType r n) = 1"
| "Len (ContentAny vs) = length vs"
| "Len (ContentDoc g opts) = 1"

fun content_Countable :: "content \<Rightarrow> bool" where
  "content_Countable (ContentDeleted n) = False"
| "content_Countable (ContentFormat k v) = False"
| "content_Countable _ = True"

definition writeType :: "nat \<Rightarrow> bytes \<Rightarrow> encoder \<Rightarrow> encoder" where
  "writeType typeRef name e =
     (let e = WriteVarUint typeRef e
      in if typeRef = TypeRefXMLElement \<or> typeRef = TypeRefXMLHook then WriteVarString name e else e)"

primrec content_Write :: "content \<Rightarrow> nat \<Rightarrow> encoder \<Rightarrow> encoder" where
  "content_Write (ContentDeleted n) offset = WriteVarUint (n - offset)"
| "content_Write (ContentJSON vs) offset =
     (\<lambda>e. fold WriteVarString (drop offset vs) (WriteVarUint (length vs - offset) e))"
| "content_Write (ContentBinary b) offset = WriteVarUint8Array b"
| "content_Write (ContentString s) offset =
     (if offset = 0 then WriteVarString s
      else case splitUTF16 s offset of
        None \<Rightarrow> WriteVarString s
      | Some (_, tail) \<Rightarrow> WriteVarString tail)"
| "content_Write (ContentEmbed s) offset = WriteVarString s"
| "content_Write (ContentFormat k v) offset = (\<lambda>e. WriteVarString v (WriteVarString k e))"
| "content_Write (ContentType r n) offset = writeType r n"
| "content_Write (ContentAny vs) offset =
     (\<lambda>e. fold WriteAny (drop offset vs) (WriteVarUint (length vs - offset) e))"
| "content_Write (ContentDoc g opts) offset = (\<lambda>e. WriteAny opts (WriteVarString g e))"

primrec Splice :: "content \<Rightarrow> nat \<Rightarrow> (content \<times> content) res" where
  "Splice (ContentDeleted n) offset = Inr (ContentDeleted offset, ContentDeleted (n - offset))"
| "Splice (ContentJSON vs) offset = Inr (ContentJSON (take offset vs), ContentJSON (drop offset vs))"
| "Splice (ContentBinary b) offset = Inl ErrNotSplittable"
| "Splice (ContentString s) offset =
     (case splitUTF16 s offset of
        None \<Rightarrow> Inl ErrSplitSurrogate
      | Some (head, tail) \<Rightarrow> Inr (ContentString head, ContentString tail))"
| "Splice (ContentEmbed s) offset = Inl ErrNotSplittable"
| "Splice (ContentFormat k v) offset = Inl ErrNotSplittable"
| "Splice (ContentType r n) offset = Inl ErrNotSplittable"
| "Splice (ContentAny vs) offset = Inr (ContentAny (take offset vs), ContentAny (drop offset vs))"
| "Splice (ContentDoc g opts) offset = Inl ErrNotSplittable"

fun MergeWith :: "content \<Rightarrow> content \<Rightarrow> content option" where
  "MergeWith (ContentDeleted n) (ContentDeleted m) = Some (ContentDeleted (n + m))"
| "MergeWith (ContentJSON vs) (ContentJSON ws) = Some (ContentJSON (vs @ ws))"
| "MergeWith (ContentString s) (ContentString t) = Some (ContentString (s @ t))"
| "MergeWith (ContentAny vs) (ContentAny ws) = Some (ContentAny (vs @ ws))"
| "MergeWith _ _ = None"

subsection \<open>Reading\<close>

definition readAbstractType :: "(nat \<times> bytes) reader" where
  "readAbstractType = rbind ReadVarUint (\<lambda>ref.
     if TypeRefXMLText < ref then rfail ErrUnknownTypeRef
     else if ref = TypeRefXMLElement \<or> ref = TypeRefXMLHook
     then rbind ReadVarString (\<lambda>name. rreturn (ref, name))
     else rreturn (ref, []))"

definition readContent :: "nat \<Rightarrow> content reader" where
  "readContent ref =
     (if ref = RefDeleted then rbind readLen (\<lambda>n. rreturn (ContentDeleted n))
      else if ref = RefJSON then
        rbind readLen (\<lambda>n. rbind (rcounted n ReadVarString) (\<lambda>vs. rreturn (ContentJSON vs)))
      else if ref = RefBinary then rbind ReadVarUint8Array (\<lambda>b. rreturn (ContentBinary b))
      else if ref = RefString then rbind ReadVarString (\<lambda>s. rreturn (ContentString s))
      else if ref = RefEmbed then rbind ReadVarString (\<lambda>s. rreturn (ContentEmbed s))
      else if ref = RefFormat then
        rbind ReadVarString (\<lambda>k. rbind ReadVarString (\<lambda>v. rreturn (ContentFormat k v)))
      else if ref = RefType then
        rbind readAbstractType (\<lambda>t. rreturn (ContentType (fst t) (snd t)))
      else if ref = RefAny then
        rbind readLen (\<lambda>n. rbind (rcounted n ReadAny) (\<lambda>vs. rreturn (ContentAny vs)))
      else if ref = RefDoc then
        rbind ReadVarString (\<lambda>g. rbind ReadAny (\<lambda>opts. rreturn (ContentDoc g opts)))
      else rfail ErrUnknownContentRef)"

primrec content_ok :: "content \<Rightarrow> bool" where
  "content_ok (ContentDeleted n) \<longleftrightarrow> n \<le> maxLen"
| "content_ok (ContentJSON vs) \<longleftrightarrow> length vs \<le> maxLen \<and> list_all (\<lambda>s. length s \<le> MaxSafeInteger) vs"
| "content_ok (ContentBinary b) \<longleftrightarrow> length b \<le> MaxSafeInteger"
| "content_ok (ContentString s) \<longleftrightarrow> length s \<le> MaxSafeInteger"
| "content_ok (ContentEmbed s) \<longleftrightarrow> length s \<le> MaxSafeInteger"
| "content_ok (ContentFormat k v) \<longleftrightarrow> length k \<le> MaxSafeInteger \<and> length v \<le> MaxSafeInteger"
| "content_ok (ContentType r n) \<longleftrightarrow> r \<le> TypeRefXMLText \<and> length n \<le> MaxSafeInteger
     \<and> (r = TypeRefXMLElement \<or> r = TypeRefXMLHook \<or> n = [])"
| "content_ok (ContentAny vs) \<longleftrightarrow> length vs \<le> maxLen \<and> list_all (any_ok 0) vs"
| "content_ok (ContentDoc g opts) \<longleftrightarrow> length g \<le> MaxSafeInteger \<and> any_ok 0 opts"

text \<open>What can be written, canonical or not.\<close>

primrec content_enc :: "content \<Rightarrow> bool" where
  "content_enc (ContentDeleted n) \<longleftrightarrow> n \<le> MaxSafeInteger"
| "content_enc (ContentJSON vs) \<longleftrightarrow>
     length vs \<le> MaxSafeInteger \<and> list_all (\<lambda>s. length s \<le> MaxSafeInteger) vs"
| "content_enc (ContentBinary b) \<longleftrightarrow> length b \<le> MaxSafeInteger"
| "content_enc (ContentString s) \<longleftrightarrow> length s \<le> MaxSafeInteger"
| "content_enc (ContentEmbed s) \<longleftrightarrow> length s \<le> MaxSafeInteger"
| "content_enc (ContentFormat k v) \<longleftrightarrow> length k \<le> MaxSafeInteger \<and> length v \<le> MaxSafeInteger"
| "content_enc (ContentType r n) \<longleftrightarrow> r \<le> TypeRefXMLText \<and> length n \<le> MaxSafeInteger"
| "content_enc (ContentAny vs) \<longleftrightarrow> length vs \<le> MaxSafeInteger \<and> list_all (any_enc 0) vs"
| "content_enc (ContentDoc g opts) \<longleftrightarrow> length g \<le> MaxSafeInteger \<and> any_enc 0 opts"

subsection \<open>Lemmas: splitting and merging\<close>

lemma Splice_facts:
  assumes "Splice c n = Inr (l, r)" and "n \<le> Len c"
  shows Splice_Len: "Len l = n" "Len r = Len c - n"
    and Splice_Ref: "Ref l = Ref c" "Ref r = Ref c"
    and Splice_Countable: "content_Countable l = content_Countable c" "content_Countable r = content_Countable c"
    and Splice_MergeWith: "MergeWith l r = Some c"
proof -
  have s: "s = a @ b \<and> UTF16Length a = n \<and> UTF16Length b = UTF16Length s - n"
    if "c = ContentString s" "splitUTF16 s n = Some (a, b)" for s a b
    using splitUTF16_exact [OF that(2)] by auto
  show "Len l = n" "Len r = Len c - n" "Ref l = Ref c" "Ref r = Ref c"
    "content_Countable l = content_Countable c" "content_Countable r = content_Countable c"
    "MergeWith l r = Some c"
    using assms by (cases c; auto split: option.splits dest!: s [rotated])+
qed

lemma MergeWith_Len:
  "MergeWith a b = Some c \<Longrightarrow> \<not> (\<exists>s. a = ContentString s) \<Longrightarrow> Len c = Len a + Len b"
  by (cases a; cases b) auto

lemma content_Write_Splice:
  assumes "Splice c n = Inr (l, r)"
  shows "content_Write c n e = content_Write r 0 e"
  using assms by (cases c) (auto simp: splitUTF16_def split: option.splits if_splits)

lemma content_ok_Splice:
  assumes "Splice c n = Inr (l, r)" and "n \<le> Len c" and "content_ok c"
  shows "content_ok l" and "content_ok r"
proof -
  have s: "length a \<le> length s \<and> length b \<le> length s"
    if "splitUTF16 s n = Some (a, b)" for s a b
    using splitUTF16_exact [OF that] by auto
  show "content_ok l" and "content_ok r"
    using assms by (cases c; fastforce split: option.splits simp: list_all_iff
        dest!: in_set_takeD in_set_dropD dest: s)+
qed

lemma Splice_cases:
  "(\<exists>l r. Splice c n = Inr (l, r)) \<or> Splice c n = Inl ErrNotSplittable \<and> Len c = 1
     \<or> Splice c n = Inl ErrSplitSurrogate \<and> (\<exists>s. c = ContentString s \<and> splitUTF16 s n = None)"
  by (cases c) (auto split: option.splits)

subsection \<open>Lemmas: what is written is read back\<close>

lemma length_varuint_pos: "0 < length (writeVarUint_loop v [])"
  by simp

lemma fold_at_0: "fold w (drop 0 xs) (WriteVarUint (length xs - 0) e) = fold w xs (WriteVarUint (length xs) e)"
  by simp

lemma counted_wire:
  assumes "codec w r ok" and "list_all ok xs" and "length xs \<le> maxLen"
  shows "\<exists>bs. bs \<noteq> [] \<and> emits (\<lambda>e. fold w xs (WriteVarUint (length xs) e)) bs
     \<and> parses (rbind readLen (\<lambda>n. rbind (rcounted n r) (\<lambda>xs. rreturn (f xs)))) bs (f xs)"
proof -
  have m: "length xs \<le> MaxSafeInteger" using assms(3) by (simp add: maxLen_def MaxSafeInteger_def)
  let ?bs = "writeVarUint_loop (length xs) [] @ concat (map (\<lambda>x. out (w x)) xs)"
  have "parses (rbind readLen (\<lambda>n. rbind (rcounted n r) (\<lambda>xs. rreturn (f xs)))) ?bs (f xs)"
    by (rule parses_bind [OF parses_readLen [OF assms(3)]])
      (rule parses_bind_return [OF codec.run_counted [OF assms(1,2)] refl])
  with codec.counted_emits [OF assms(1,2) m] show ?thesis by (intro exI [of _ ?bs]) simp
qed

lemma type_wire:
  assumes "content_ok (ContentType r n)"
  shows "\<exists>bs. bs \<noteq> [] \<and> emits (writeType r n) bs \<and> parses readAbstractType bs (r, n)"
proof -
  have r: "r \<le> MaxSafeInteger" and n: "length n \<le> MaxSafeInteger" and r6: "\<not> TypeRefXMLText < r"
    using assms by (simp_all add: MaxSafeInteger_def)
  let ?k = "\<lambda>ref. if TypeRefXMLText < ref then rfail ErrUnknownTypeRef
     else if ref = TypeRefXMLElement \<or> ref = TypeRefXMLHook
     then rbind ReadVarString (\<lambda>name. rreturn (ref, name)) else rreturn (ref, [])"
  show ?thesis
  proof (cases "r = TypeRefXMLElement \<or> r = TypeRefXMLHook")
    case True
    let ?bs = "writeVarUint_loop r [] @ (writeVarUint_loop (length n) [] @ n)"
    have "emits (writeType r n) ?bs"
      using emits_seq [OF emits_WriteVarUint [OF r] emits_WriteVarString [OF n]] True
      by (simp add: writeType_def [abs_def] Let_def)
    moreover have "parses (?k r) (writeVarUint_loop (length n) [] @ n) (r, n)"
      using True r6 parses_bind_return [OF parses_ReadVarString [OF n] refl] by auto
    then have "parses readAbstractType ?bs (r, n)"
      unfolding readAbstractType_def by (rule parses_bind [OF parses_ReadVarUint [OF r]])
    ultimately show ?thesis by (intro exI [of _ ?bs]) simp
  next
    case False
    let ?bs = "writeVarUint_loop r [] @ []"
    have "emits (writeType r n) ?bs"
      using emits_WriteVarUint [OF r] False by (simp add: writeType_def [abs_def] Let_def)
    moreover have "parses (?k r) [] (r, n)"
      using False r6 assms parses_return by auto
    then have "parses readAbstractType ?bs (r, n)"
      unfolding readAbstractType_def by (rule parses_bind [OF parses_ReadVarUint [OF r]])
    ultimately show ?thesis by (intro exI [of _ ?bs]) simp
  qed
qed

lemma content_wire:
  assumes "content_ok c"
  shows "\<exists>bs. bs \<noteq> [] \<and> emits (content_Write c 0) bs \<and> parses (readContent (Ref c)) bs c"
proof (cases c)
  case (ContentDeleted n)
  then have n: "n \<le> maxLen" "n \<le> MaxSafeInteger" using assms by (auto simp: maxLen_def MaxSafeInteger_def)
  with ContentDeleted show ?thesis
    using emits_WriteVarUint [OF n(2)] parses_bind_return [OF parses_readLen [OF n(1)] refl]
    by (intro exI [of _ "writeVarUint_loop n []"]) (simp add: readContent_def)
next
  case (ContentJSON vs)
  then show ?thesis using assms counted_wire [OF varstring.codec_axioms, of vs ContentJSON]
    by (simp add: readContent_def)
next
  case (ContentAny vs)
  then show ?thesis using assms counted_wire [OF any.codec_axioms, of vs ContentAny]
    by (simp add: readContent_def)
next
  case (ContentBinary b)
  then show ?thesis
    using assms emits_WriteVarUint8Array [of b] parses_bind_return [OF parses_ReadVarUint8Array [of b] refl]
    by (intro exI [of _ "writeVarUint_loop (length b) [] @ b"]) (simp add: readContent_def)
next
  case (ContentString b)
  then show ?thesis
    using assms emits_WriteVarString [of b] parses_bind_return [OF parses_ReadVarString [of b] refl]
    by (intro exI [of _ "writeVarUint_loop (length b) [] @ b"]) (simp add: readContent_def)
next
  case (ContentEmbed b)
  then show ?thesis
    using assms emits_WriteVarString [of b] parses_bind_return [OF parses_ReadVarString [of b] refl]
    by (intro exI [of _ "writeVarUint_loop (length b) [] @ b"]) (simp add: readContent_def)
next
  case (ContentFormat k v)
  then have kv: "length k \<le> MaxSafeInteger" "length v \<le> MaxSafeInteger" using assms by simp_all
  let ?bs = "(writeVarUint_loop (length k) [] @ k) @ (writeVarUint_loop (length v) [] @ v)"
  have "emits (content_Write c 0) ?bs"
    using emits_seq [OF emits_WriteVarString [OF kv(1)] emits_WriteVarString [OF kv(2)]]
    by (simp add: ContentFormat)
  moreover have "parses (rbind ReadVarString (\<lambda>k. rbind ReadVarString (\<lambda>v. rreturn (ContentFormat k v)))) ?bs c"
    by (rule parses_bind [OF parses_ReadVarString [OF kv(1)]])
      (rule parses_bind_return [OF parses_ReadVarString [OF kv(2)]], simp add: ContentFormat)
  ultimately show ?thesis by (intro exI [of _ ?bs]) (simp add: ContentFormat readContent_def)
next
  case (ContentType r n)
  with assms obtain bs where "bs \<noteq> []" "emits (writeType r n) bs" "parses readAbstractType bs (r, n)"
    using type_wire by blast
  moreover from this(3) have "parses (rbind readAbstractType (\<lambda>t. rreturn (ContentType (fst t) (snd t)))) bs c"
    by (rule parses_bind_return) (simp add: ContentType)
  ultimately show ?thesis by (intro exI [of _ bs]) (simp add: ContentType readContent_def)
next
  case (ContentDoc g opts)
  then have g: "length g \<le> MaxSafeInteger" and o: "any_ok 0 opts" using assms by simp_all
  let ?bs = "(writeVarUint_loop (length g) [] @ g) @ out (WriteAny opts)"
  have "emits (content_Write c 0) ?bs"
    using emits_seq [OF emits_WriteVarString [OF g] any.emits_out [OF o]]
    by (simp add: ContentDoc)
  moreover have "parses (rbind ReadVarString (\<lambda>g. rbind ReadAny (\<lambda>opts. rreturn (ContentDoc g opts)))) ?bs c"
    by (rule parses_bind [OF parses_ReadVarString [OF g]])
      (rule parses_bind_return [OF any.parses_out [OF o]], simp add: ContentDoc)
  ultimately show ?thesis by (intro exI [of _ ?bs]) (simp add: ContentDoc readContent_def)
qed

subsection \<open>Lemmas: what is read can be written\<close>

lemma UTF16Length_le: "UTF16Length s \<le> length s"
proof (induction s rule: UTF16Length.induct)
  case (1 s)
  show ?case
  proof (cases "s = []")
    case False
    have "units_of (fst (DecodeRune s)) \<le> snd (DecodeRune s)"
      using False by (cases s) (auto simp: units_of_def DecodeRune.simps(2) Let_def in_range_def split: list.splits)
    with "1.IH" [OF False] DecodeRune_width_le [of s] show ?thesis
      by (subst UTF16Length.simps) (simp add: False)
  qed simp
qed

lemma content_writable:
  assumes "content_enc c"
  shows "writable (content_Write c n)"
proof (cases c)
  case (ContentDeleted m)
  then show ?thesis using assms writable_basic(3) [of "m - n"] by (simp add:)
next
  case (ContentJSON vs)
  then have "length vs - n \<le> MaxSafeInteger" "writable (fold WriteVarString (drop n vs))"
    using assms by (auto intro!: writable_fold writable_basic dest: in_set_dropD simp: list_all_iff)
  from writable_seq [OF writable_basic(3) [OF this(1)] this(2)] show ?thesis
    by (simp add: ContentJSON)
next
  case (ContentAny vs)
  then have "length vs - n \<le> MaxSafeInteger" "writable (fold WriteAny (drop n vs))"
    using assms by (auto intro!: writable_fold any_writable dest: in_set_dropD simp: list_all_iff WriteAny_def)
  from writable_seq [OF writable_basic(3) [OF this(1)] this(2)] show ?thesis
    by (simp add: ContentAny)
next
  case (ContentString s)
  have "length t \<le> length s" if "splitUTF16 s n = Some (h, t)" for h t
    using splitUTF16_exact [OF that] by auto
  then show ?thesis
    using assms ContentString writable_basic(5)
    by (cases "n = 0"; cases "splitUTF16 s n") (fastforce simp:)+
next
  case (ContentFormat k v)
  then show ?thesis
    using assms writable_seq [OF writable_basic(5) [of k] writable_basic(5) [of v]] by (simp add:)
next
  case (ContentType r m)
  have "r \<le> MaxSafeInteger" using assms by (simp add: ContentType MaxSafeInteger_def)
  then show ?thesis
    using assms writable_seq [OF writable_basic(3) [of r] writable_basic(5) [of m]] writable_basic(3) [of r]
    by (cases "r = TypeRefXMLElement \<or> r = TypeRefXMLHook")
      (auto simp: ContentType writeType_def Let_def intro: writable_cong)
next
  case (ContentDoc g opts)
  then show ?thesis
    using assms writable_seq [OF writable_basic(5) [of g] any_writable [of 0 opts]]
    by (simp add: WriteAny_def)
qed (use assms writable_basic in simp_all)

definition content_read :: "nat \<Rightarrow> content \<Rightarrow> nat \<Rightarrow> bool" where
  "content_read ref c k \<longleftrightarrow> 1 \<le> k \<and> Ref c = ref \<and> Len c \<le> maxLen + k \<and> (k \<le> MaxSafeInteger \<longrightarrow> content_enc c)"

lemma sound_readAbstractType: "sound readAbstractType (\<lambda>t k. fst t \<le> TypeRefXMLText \<and> length (snd t) < k)"
  unfolding readAbstractType_def
  by (rule sound_bind [OF sound_ReadVarUint])
    (auto intro!: sound_fail sound_return sound_bind [OF sound_ReadVarString])

lemma one_le_maxLen: "Suc 0 \<le> maxLen + k"
  by (simp add: maxLen_def)

lemma sound_readContent: "sound (readContent ref) (content_read ref)"
proof -
  have m: "n \<le> maxLen \<Longrightarrow> n \<le> MaxSafeInteger" for n by (simp add: maxLen_def MaxSafeInteger_def)
  have "sound ReadVarString (\<lambda>s k. 1 \<le> k \<and> (k \<le> MaxSafeInteger \<longrightarrow> length s \<le> MaxSafeInteger))"
    by (rule sound_mono [OF sound_ReadVarString]) auto
  note json = sound_rcounted [OF sound_rtimes_small [OF this]]
  note anys = sound_rcounted [OF sound_rtimes_small [OF sound_readAny [of 0]], folded ReadAny_def]
  have any: "sound ReadAny (\<lambda>v k. 1 \<le> k \<and> (k \<le> MaxSafeInteger \<longrightarrow> any_enc 0 v))"
    using sound_readAny [of 0] by (simp add: ReadAny_def)
  have u: "UTF16Length s \<le> maxLen + k" if "length s < k" for s k
    using UTF16Length_le [of s] that by simp
  show ?thesis
    unfolding readContent_def
    by (simp only: if_split [where P = "\<lambda>r. sound r (content_read ref)"])
      (intro conjI impI sound_fail(1);
       (rule sound_bind [OF sound_readLen] sound_bind [OF sound_ReadVarString]
          sound_bind [OF sound_ReadVarUint8Array] sound_bind [OF sound_readAbstractType],
        ((rule sound_bind [OF json] sound_bind [OF anys] sound_bind [OF any] sound_bind [OF sound_ReadVarString])?),
        rule sound_return, auto simp: content_read_def m u intro: one_le_maxLen))
qed

end
