(* ===== verification/Structs.thy ===== *)
theory Structs
  imports Contents
begin

text \<open>
  Structs, \<open>struct.go\<close>: items, garbage collected ranges and skip markers, with their wire form.

  A pointer to an item is the \<open>ID\<close> the item starts at. Once an item is in the store its
  \<open>ID\<close> does not change (a split keeps the left half in place), so the two are equivalent. A
  pointer to a shared type is a \<open>typeref\<close>: the name of a root type, or the item that owns the
  type. The fields from \<open>it_left\<close> on are the integration state of an item.
\<close>

unbundle bit_operations_syntax

subsection \<open>Data\<close>

datatype ParentInfo = PRoot bytes | PItem ID

datatype typeref = TRoot bytes | TOwned ID

record item =
  item_ID :: ID
  Origin :: "ID option"
  RightOrigin :: "ID option"
  Parent :: "ParentInfo option"
  HasParentSub :: bool
  ParentSub :: bytes
  Content :: content
  it_left :: "ID option"
  it_right :: "ID option"
  it_parent :: "typeref option"
  it_deleted :: bool
  it_keep :: bool

datatype struct = Item item | GC ID nat | Skip ID nat

primrec StructID :: "struct \<Rightarrow> ID" where
  "StructID (Item it) = item_ID it"
| "StructID (GC i n) = i"
| "StructID (Skip i n) = i"

primrec StructLen :: "struct \<Rightarrow> nat" where
  "StructLen (Item it) = Len (Content it)"
| "StructLen (GC i n) = n"
| "StructLen (Skip i n) = n"

definition item_Countable :: "item \<Rightarrow> bool" where
  "item_Countable it \<longleftrightarrow> \<not> it_deleted it \<and> content_Countable (Content it)"

definition LastID :: "item \<Rightarrow> ID" where
  "LastID it = ID (Client (item_ID it)) (Clock (item_ID it) + Len (Content it) - 1)"

subsection \<open>Writing\<close>

definition bitsContentRef :: byte where "bitsContentRef = 0x1F"
definition bitParentSub :: byte where "bitParentSub = 0x20"
definition bitRightOrigin :: byte where "bitRightOrigin = 0x40"
definition bitOrigin :: byte where "bitOrigin = 0x80"

definition writeParentInfo :: "item \<Rightarrow> encoder \<Rightarrow> encoder" where
  "writeParentInfo it e =
     (case it_parent it of
        Some (TOwned owner) \<Rightarrow> writeID owner (WriteVarUint 0 e)
      | Some (TRoot name) \<Rightarrow> WriteVarString name (WriteVarUint 1 e)
      | None \<Rightarrow>
          (case Parent it of
             None \<Rightarrow> WriteVarString [] (WriteVarUint 1 e)
           | Some (PRoot name) \<Rightarrow> WriteVarString name (WriteVarUint 1 e)
           | Some (PItem i) \<Rightarrow> writeID i (WriteVarUint 0 e)))"

definition info_byte :: "nat \<Rightarrow> bool \<Rightarrow> bool \<Rightarrow> bool \<Rightarrow> byte" where
  "info_byte ref origin right sub =
     (let info = word_of_nat ref AND bitsContentRef;
          info = (if origin then info OR bitOrigin else info);
          info = (if right then info OR bitRightOrigin else info);
          info = (if sub then info OR bitParentSub else info)
      in info)"

definition item_write :: "item \<Rightarrow> nat \<Rightarrow> encoder \<Rightarrow> encoder" where
  "item_write it offset e =
     (let origin = (if 0 < offset
                    then Some (ID (Client (item_ID it)) (Clock (item_ID it) + offset - 1))
                    else Origin it);
          e = WriteUint8 (info_byte (Ref (Content it)) (origin \<noteq> None) (RightOrigin it \<noteq> None)
                (HasParentSub it)) e;
          e = (case origin of Some i \<Rightarrow> writeID i e | None \<Rightarrow> e);
          e = (case RightOrigin it of Some i \<Rightarrow> writeID i e | None \<Rightarrow> e);
          e = (if origin = None \<and> RightOrigin it = None
               then (let e = writeParentInfo it e
                     in if HasParentSub it then WriteVarString (ParentSub it) e else e)
               else e)
      in content_Write (Content it) offset e)"

primrec struct_write :: "struct \<Rightarrow> nat \<Rightarrow> encoder \<Rightarrow> encoder" where
  "struct_write (Item it) offset = item_write it offset"
| "struct_write (GC i n) offset = (\<lambda>e. WriteVarUint (n - offset) (WriteUint8 (word_of_nat RefGC) e))"
| "struct_write (Skip i n) offset = (\<lambda>e. WriteVarUint (n - offset) (WriteUint8 (word_of_nat RefSkip) e))"

subsection \<open>Reading\<close>

definition readOptID :: "bool \<Rightarrow> ID option reader" where
  "readOptID present =
     (if present then rbind readID (\<lambda>i. rreturn (Some i)) else rreturn None)"

definition readParent :: "ParentInfo reader" where
  "readParent = rbind ReadVarUint (\<lambda>kind.
     if kind = 1 then rbind ReadVarString (\<lambda>name. rreturn (PRoot name))
     else if kind = 0 then rbind readID (\<lambda>i. rreturn (PItem i))
     else rfail ErrCorruptUpdate)"

definition new_item :: "ID \<Rightarrow> ID option \<Rightarrow> ID option \<Rightarrow> ParentInfo option \<Rightarrow> bool \<Rightarrow> bytes \<Rightarrow> content \<Rightarrow> item" where
  "new_item i origin right par has_sub sub c =
     \<lparr>item_ID = i, Origin = origin, RightOrigin = right, Parent = par, HasParentSub = has_sub,
      ParentSub = sub, Content = c, it_left = None, it_right = None, it_parent = None,
      it_deleted = False, it_keep = False\<rparr>"

definition readItem :: "ID \<Rightarrow> byte \<Rightarrow> struct reader" where
  "readItem i info =
     rbind (readOptID (info AND bitOrigin \<noteq> 0)) (\<lambda>origin.
     rbind (readOptID (info AND bitRightOrigin \<noteq> 0)) (\<lambda>right.
     let has_sub = (info AND bitParentSub \<noteq> 0) in
     rbind (if origin = None \<and> right = None
            then rbind readParent (\<lambda>par.
                 rbind (if has_sub then ReadVarString else rreturn []) (\<lambda>sub.
                 rreturn (Some par, sub)))
            else rreturn (None, [])) (\<lambda>(par, sub).
     rbind (readContent (unat (info AND bitsContentRef))) (\<lambda>c.
     rreturn (Item (new_item i origin right par has_sub sub c))))))"

definition readStruct :: "client_id \<Rightarrow> clock \<Rightarrow> struct reader" where
  "readStruct client clock = rbind ReadUint8 (\<lambda>info.
     let i = ID client clock;
         ref = unat (info AND bitsContentRef)
     in if (ref = RefGC \<or> ref = RefSkip)
            \<and> info AND (bitParentSub OR bitRightOrigin OR bitOrigin) \<noteq> 0
        then rfail ErrCorruptUpdate
        else if ref = RefGC then rbind readLen (\<lambda>n. rreturn (GC i n))
        else if ref = RefSkip then rbind readLen (\<lambda>n. rreturn (Skip i n))
        else readItem i info)"

subsection \<open>Which structs have a wire form\<close>

definition parent_ok :: "ParentInfo \<Rightarrow> bool" where
  "parent_ok p = (case p of PRoot name \<Rightarrow> length name \<le> MaxSafeInteger | PItem i \<Rightarrow> id_ok i)"

text \<open>An item as it comes from the wire, before integration.\<close>

definition wire_item :: "item \<Rightarrow> bool" where
  "wire_item it \<longleftrightarrow> it_left it = None \<and> it_right it = None \<and> it_parent it = None
     \<and> \<not> it_deleted it \<and> \<not> it_keep it
     \<and> (Parent it = None \<longleftrightarrow> Origin it \<noteq> None \<or> RightOrigin it \<noteq> None)
     \<and> (HasParentSub it \<and> Origin it = None \<and> RightOrigin it = None \<or> ParentSub it = [])"

definition item_ids_ok :: "item \<Rightarrow> bool" where
  "item_ids_ok it \<longleftrightarrow> pred_option id_ok (Origin it) \<and> pred_option id_ok (RightOrigin it)
     \<and> pred_option parent_ok (Parent it) \<and> length (ParentSub it) \<le> MaxSafeInteger"

primrec struct_ok :: "struct \<Rightarrow> bool" where
  "struct_ok (Item it) \<longleftrightarrow> wire_item it \<and> item_ids_ok it \<and> content_ok (Content it)"
| "struct_ok (GC i n) \<longleftrightarrow> n \<le> maxLen"
| "struct_ok (Skip i n) \<longleftrightarrow> n \<le> maxLen"

primrec struct_enc :: "struct \<Rightarrow> bool" where
  "struct_enc (Item it) \<longleftrightarrow> it_parent it = None \<and> item_ids_ok it \<and> content_enc (Content it)"
| "struct_enc (GC i n) \<longleftrightarrow> n \<le> MaxSafeInteger"
| "struct_enc (Skip i n) \<longleftrightarrow> n \<le> MaxSafeInteger"

subsection \<open>Lemmas: the info byte\<close>

lemma Ref_range: "Ref c \<in> set [1..<10]"
  by (cases c) simp_all

lemma info_byte_table:
  assumes "ref \<in> set [1..<10]"
  shows "unat (info_byte ref o' r p AND bitsContentRef) = ref"
    and "info_byte ref o' r p AND bitOrigin \<noteq> 0 \<longleftrightarrow> o'"
    and "info_byte ref o' r p AND bitRightOrigin \<noteq> 0 \<longleftrightarrow> r"
    and "info_byte ref o' r p AND bitParentSub \<noteq> 0 \<longleftrightarrow> p"
proof -
  have "list_all (\<lambda>ref. list_all (\<lambda>o'. list_all (\<lambda>r. list_all (\<lambda>p.
      unat (info_byte ref o' r p AND bitsContentRef) = ref
      \<and> (info_byte ref o' r p AND bitOrigin \<noteq> 0 \<longleftrightarrow> o')
      \<and> (info_byte ref o' r p AND bitRightOrigin \<noteq> 0 \<longleftrightarrow> r)
      \<and> (info_byte ref o' r p AND bitParentSub \<noteq> 0 \<longleftrightarrow> p))
      [False, True]) [False, True]) [False, True]) [1..<10]"
    by code_simp
  moreover have "b \<in> set [False, True]" for b by (cases b) simp_all
  ultimately show "unat (info_byte ref o' r p AND bitsContentRef) = ref"
    and "info_byte ref o' r p AND bitOrigin \<noteq> 0 \<longleftrightarrow> o'"
    and "info_byte ref o' r p AND bitRightOrigin \<noteq> 0 \<longleftrightarrow> r"
    and "info_byte ref o' r p AND bitParentSub \<noteq> 0 \<longleftrightarrow> p"
    using assms unfolding list_all_iff by blast+
qed

lemmas info_byte_facts = info_byte_table [OF Ref_range]

lemma plain_info_facts:
  "unat (word_of_nat RefGC AND bitsContentRef :: byte) = RefGC"
  "unat (word_of_nat RefSkip AND bitsContentRef :: byte) = RefSkip"
  "word_of_nat RefGC AND (bitParentSub OR bitRightOrigin OR bitOrigin) = (0 :: byte)"
  "word_of_nat RefSkip AND (bitParentSub OR bitRightOrigin OR bitOrigin) = (0 :: byte)"
  by code_simp+

subsection \<open>Lemmas: what is written is read back\<close>

definition writeOptID :: "ID option \<Rightarrow> encoder \<Rightarrow> encoder" where
  "writeOptID x e = (case x of Some i \<Rightarrow> writeID i e | None \<Rightarrow> e)"

lemma opt_id_wire:
  assumes "pred_option id_ok x"
  shows "\<exists>bs. emits (writeOptID x) bs \<and> parses (readOptID (x \<noteq> None)) bs x"
proof (cases x)
  case None
  then show ?thesis
    using emits_id parses_return [of None] by (intro exI [of _ "[]"]) (simp add: writeOptID_def [abs_def] readOptID_def)
next
  case (Some i)
  with assms have "id_ok i" by simp
  then show ?thesis
    using wire_id.emits_out [of i] parses_bind_return [OF wire_id.parses_out [of i] refl]
    by (intro exI [of _ "out (writeID i)"]) (simp add: Some writeOptID_def [abs_def] readOptID_def)
qed

lemma parent_info_wire:
  assumes "it_parent it = None" and "Parent it = Some p" and "parent_ok p"
  shows "\<exists>bs. emits (writeParentInfo it) bs \<and> parses readParent bs p"
proof -
  let ?k = "\<lambda>kind :: nat. if kind = 1 then rbind ReadVarString (\<lambda>name. rreturn (PRoot name))
     else if kind = 0 then rbind readID (\<lambda>i. rreturn (PItem i)) else rfail ErrCorruptUpdate"
  have small: "0 \<le> MaxSafeInteger" "1 \<le> MaxSafeInteger" by (simp_all add: MaxSafeInteger_def)
  show ?thesis
  proof (cases p)
    case (PRoot name)
    then have n: "length name \<le> MaxSafeInteger" using assms(3) by (simp add: parent_ok_def)
    let ?bs = "writeVarUint_loop 1 [] @ (writeVarUint_loop (length name) [] @ name)"
    have "emits (writeParentInfo it) ?bs"
      using emits_seq [OF emits_WriteVarUint [OF small(2)] emits_WriteVarString [OF n]] assms PRoot
      by (simp add: writeParentInfo_def [abs_def])
    moreover have "parses (?k 1) (writeVarUint_loop (length name) [] @ name) p"
      using parses_bind_return [OF parses_ReadVarString [OF n], of p PRoot] PRoot by simp
    then have "parses readParent ?bs p"
      unfolding readParent_def by (rule parses_bind [OF parses_ReadVarUint [OF small(2)]])
    ultimately show ?thesis by blast
  next
    case (PItem i)
    then have i: "id_ok i" using assms(3) by (simp add: parent_ok_def)
    let ?bs = "writeVarUint_loop 0 [] @ out (writeID i)"
    have "emits (writeParentInfo it) ?bs"
      using emits_seq [OF emits_WriteVarUint [OF small(1)] wire_id.emits_out [OF i]] assms PItem
      by (simp add: writeParentInfo_def [abs_def])
    moreover have "parses (?k 0) (out (writeID i)) p"
      using parses_bind_return [OF wire_id.parses_out [OF i], of p PItem] PItem by simp
    then have "parses readParent ?bs p"
      unfolding readParent_def by (rule parses_bind [OF parses_ReadVarUint [OF small(1)]])
    ultimately show ?thesis by blast
  qed
qed

definition writeParentPart :: "item \<Rightarrow> encoder \<Rightarrow> encoder" where
  "writeParentPart it e =
     (if Origin it = None \<and> RightOrigin it = None
      then (let e = writeParentInfo it e
            in if HasParentSub it then WriteVarString (ParentSub it) e else e)
      else e)"

definition readParentPart :: "ID option \<Rightarrow> ID option \<Rightarrow> bool \<Rightarrow> (ParentInfo option \<times> bytes) reader" where
  "readParentPart origin right has_sub =
     (if origin = None \<and> right = None
      then rbind readParent (\<lambda>par.
           rbind (if has_sub then ReadVarString else rreturn []) (\<lambda>sub. rreturn (Some par, sub)))
      else rreturn (None, []))"

lemma parent_part_wire:
  assumes "wire_item it" and "item_ids_ok it"
  shows "\<exists>bs. emits (writeParentPart it) bs
     \<and> parses (readParentPart (Origin it) (RightOrigin it) (HasParentSub it)) bs (Parent it, ParentSub it)"
proof (cases "Origin it = None \<and> RightOrigin it = None")
  case False
  with assms show ?thesis
    using emits_id parses_return [of "(None, [])"]
    by (intro exI [of _ "[]"]) (auto simp: writeParentPart_def [abs_def] readParentPart_def wire_item_def)
next
  case True
  with assms obtain p where p: "Parent it = Some p" "parent_ok p"
    by (auto simp: wire_item_def item_ids_ok_def)
  obtain b where b: "emits (writeParentInfo it) b" "parses readParent b p"
    using parent_info_wire [OF _ p] assms(1) by (auto simp: wire_item_def)
  have sub: "length (ParentSub it) \<le> MaxSafeInteger" using assms(2) by (simp add: item_ids_ok_def)
  show ?thesis
  proof (cases "HasParentSub it")
    case sub': True
    let ?bs = "b @ (writeVarUint_loop (length (ParentSub it)) [] @ ParentSub it)"
    have "emits (writeParentPart it) ?bs"
      using emits_seq [OF b(1) emits_WriteVarString [OF sub]] True sub'
      by (simp add: writeParentPart_def [abs_def] Let_def)
    moreover have "parses (readParentPart (Origin it) (RightOrigin it) (HasParentSub it)) ?bs (Parent it, ParentSub it)"
      using True sub' parses_bind [OF b(2) parses_bind_return [OF parses_ReadVarString [OF sub] refl]] p(1)
      by (simp add: readParentPart_def)
    ultimately show ?thesis by blast
  next
    case False
    then have "ParentSub it = []" using assms(1) by (simp add: wire_item_def)
    moreover have "emits (writeParentPart it) b"
      using b(1) True False by (simp add: writeParentPart_def [abs_def] Let_def)
    moreover have "parses (readParentPart (Origin it) (RightOrigin it) (HasParentSub it)) (b @ []) (Some p, [])"
      using True False parses_bind [OF b(2) parses_bind_return [OF parses_return refl]]
      by (simp add: readParentPart_def)
    ultimately show ?thesis using p(1) by auto
  qed
qed

lemma item_write_0:
  "item_write it 0 e = content_Write (Content it) 0 (writeParentPart it (writeOptID (RightOrigin it)
     (writeOptID (Origin it) (WriteUint8 (info_byte (Ref (Content it)) (Origin it \<noteq> None)
       (RightOrigin it \<noteq> None) (HasParentSub it)) e))))"
  by (simp add: item_write_def writeParentPart_def writeOptID_def Let_def)

lemma readItem_parts:
  "readItem i info =
     rbind (readOptID (info AND bitOrigin \<noteq> 0)) (\<lambda>origin.
     rbind (readOptID (info AND bitRightOrigin \<noteq> 0)) (\<lambda>right.
     rbind (readParentPart origin right (info AND bitParentSub \<noteq> 0)) (\<lambda>ps.
     rbind (readContent (unat (info AND bitsContentRef))) (\<lambda>c.
     rreturn (Item (new_item i origin right (fst ps) (info AND bitParentSub \<noteq> 0) (snd ps) c))))))"
  unfolding readItem_def readParentPart_def Let_def by (simp add: case_prod_beta')

lemma item_wire:
  assumes "wire_item it" and "item_ids_ok it" and "content_ok (Content it)"
  shows "\<exists>bs. bs \<noteq> [] \<and> emits (item_write it 0) bs
     \<and> parses (readStruct (Client (item_ID it)) (Clock (item_ID it))) bs (Item it)"
proof -
  define info where "info = info_byte (Ref (Content it)) (Origin it \<noteq> None) (RightOrigin it \<noteq> None) (HasParentSub it)"
  have ids: "pred_option id_ok (Origin it)" "pred_option id_ok (RightOrigin it)"
    using assms(2) by (simp_all add: item_ids_ok_def)
  obtain b1 where b1: "emits (writeOptID (Origin it)) b1" "parses (readOptID (Origin it \<noteq> None)) b1 (Origin it)"
    using opt_id_wire [OF ids(1)] by blast
  obtain b2 where b2: "emits (writeOptID (RightOrigin it)) b2"
    "parses (readOptID (RightOrigin it \<noteq> None)) b2 (RightOrigin it)"
    using opt_id_wire [OF ids(2)] by blast
  obtain b3 where b3: "emits (writeParentPart it) b3"
    "parses (readParentPart (Origin it) (RightOrigin it) (HasParentSub it)) b3 (Parent it, ParentSub it)"
    using parent_part_wire [OF assms(1,2)] by blast
  obtain b4 where b4: "emits (content_Write (Content it) 0) b4"
    "parses (readContent (Ref (Content it))) b4 (Content it)"
    using content_wire [OF assms(3)] by blast
  let ?bs = "[info] @ (b1 @ (b2 @ (b3 @ b4)))"
  have "emits (item_write it 0) ((((([info] @ b1) @ b2) @ b3) @ b4))"
    unfolding item_write_0 [abs_def] info_def [symmetric]
    by (rule emits_seq [OF emits_seq [OF emits_seq [OF emits_seq [OF emits_WriteUint8 b1(1)] b2(1)] b3(1)] b4(1)])
  moreover have "Item it = Item (new_item (item_ID it) (Origin it) (RightOrigin it)
      (fst (Parent it, ParentSub it)) (HasParentSub it) (snd (Parent it, ParentSub it)) (Content it))"
    using assms(1) by (simp add: new_item_def wire_item_def)
  then have "parses (readItem (item_ID it) info) (b1 @ (b2 @ (b3 @ b4))) (Item it)"
    unfolding readItem_parts info_def info_byte_facts
    by (intro parses_bind [OF b1(2)] parses_bind [OF b2(2)] parses_bind [OF b3(2)] parses_bind_return [OF b4(2)])
  then have "parses (readStruct (Client (item_ID it)) (Clock (item_ID it))) ?bs (Item it)"
    unfolding readStruct_def
    by (intro parses_bind [OF parses_ReadUint8])
      (use Ref_range [of "Content it"] in \<open>simp add: Let_def info_def info_byte_facts\<close>)
  ultimately show ?thesis by (intro exI [of _ ?bs]) simp
qed

lemma struct_wire:
  assumes "struct_ok s"
  shows "\<exists>bs. bs \<noteq> [] \<and> emits (struct_write s 0) bs
     \<and> parses (readStruct (Client (StructID s)) (Clock (StructID s))) bs s"
proof (cases s)
  case (Item it)
  then show ?thesis using item_wire [of it] assms by simp
next
  case (GC i n)
  then have n: "n \<le> maxLen" "n \<le> MaxSafeInteger" using assms by (auto simp: maxLen_def MaxSafeInteger_def)
  have "parses (readStruct (Client i) (Clock i)) ([word_of_nat RefGC] @ writeVarUint_loop n []) s"
    unfolding readStruct_def
    by (rule parses_bind [OF parses_ReadUint8])
      (use parses_bind_return [OF parses_readLen [OF n(1)], of s "GC i"] GC in
        \<open>simp add: Let_def plain_info_facts [simplified]\<close>)
  then show ?thesis
    using emits_seq [OF emits_WriteUint8 emits_WriteVarUint [OF n(2)]]
    by (intro exI [of _ "[word_of_nat RefGC] @ writeVarUint_loop n []"]) (simp add: GC)
next
  case (Skip i n)
  then have n: "n \<le> maxLen" "n \<le> MaxSafeInteger" using assms by (auto simp: maxLen_def MaxSafeInteger_def)
  have "parses (readStruct (Client i) (Clock i)) ([word_of_nat RefSkip] @ writeVarUint_loop n []) s"
    unfolding readStruct_def
    by (rule parses_bind [OF parses_ReadUint8])
      (use parses_bind_return [OF parses_readLen [OF n(1)], of s "Skip i"] Skip in
        \<open>simp add: Let_def plain_info_facts [simplified]\<close>)
  then show ?thesis
    using emits_seq [OF emits_WriteUint8 emits_WriteVarUint [OF n(2)]]
    by (intro exI [of _ "[word_of_nat RefSkip] @ writeVarUint_loop n []"]) (simp add: Skip)
qed

subsection \<open>Lemmas: what is read can be written\<close>

definition struct_read :: "client_id \<Rightarrow> clock \<Rightarrow> struct \<Rightarrow> nat \<Rightarrow> bool" where
  "struct_read client clock s k \<longleftrightarrow> 2 \<le> k \<and> StructID s = ID client clock \<and> StructLen s \<le> maxLen + k
     \<and> (k \<le> MaxSafeInteger \<longrightarrow> struct_enc s) \<and> (\<forall>it. s = Item it \<longrightarrow> wire_item it)"

lemma sound_readOptID: "sound (readOptID b) (\<lambda>x k. pred_option id_ok x)"
  unfolding readOptID_def
  by (cases b) (auto intro!: sound_return sound_bind [OF sound_readID])

lemma sound_readParent: "sound readParent (\<lambda>p k. k \<le> MaxSafeInteger \<longrightarrow> parent_ok p)"
  unfolding readParent_def
  by (rule sound_bind [OF sound_ReadVarUint])
    (auto intro!: sound_fail sound_return sound_bind [OF sound_ReadVarString] sound_bind [OF sound_readID]
      simp: parent_ok_def)

lemma sound_readParentPart:
  "sound (readParentPart origin right has_sub) (\<lambda>ps k.
     (fst ps = None \<longleftrightarrow> origin \<noteq> None \<or> right \<noteq> None)
     \<and> (has_sub \<and> origin = None \<and> right = None \<or> snd ps = [])
     \<and> (k \<le> MaxSafeInteger \<longrightarrow> pred_option parent_ok (fst ps) \<and> length (snd ps) \<le> MaxSafeInteger))"
  unfolding readParentPart_def
  by (cases "origin = None \<and> right = None"; cases has_sub)
    (auto intro!: sound_return sound_bind [OF sound_readParent] sound_bind [OF sound_ReadVarString]
      sound_bind [OF sound_return [where P = "\<lambda>x k. x = [] \<and> k = 0"]])

lemma sound_readItem:
  "sound (readItem (ID client clock) info) (\<lambda>s k. struct_read client clock s (Suc k))"
  unfolding readItem_parts
  by (rule sound_bind [OF sound_readOptID], rule sound_bind [OF sound_readOptID],
      rule sound_bind [OF sound_readParentPart], rule sound_bind [OF sound_readContent], rule sound_return)
    (auto simp: struct_read_def content_read_def new_item_def wire_item_def item_ids_ok_def)

lemma sound_readStruct: "sound (readStruct client clock) (struct_read client clock)"
proof -
  have m: "n \<le> maxLen \<Longrightarrow> n \<le> MaxSafeInteger" for n by (simp add: maxLen_def MaxSafeInteger_def)
  have gc: "sound (rbind readLen (\<lambda>n. rreturn (GC (ID client clock) n))) (\<lambda>s k. struct_read client clock s (Suc k))"
    by (rule sound_bind [OF sound_readLen], rule sound_return) (auto simp: struct_read_def m)
  have skip: "sound (rbind readLen (\<lambda>n. rreturn (Skip (ID client clock) n))) (\<lambda>s k. struct_read client clock s (Suc k))"
    by (rule sound_bind [OF sound_readLen], rule sound_return) (auto simp: struct_read_def m)
  show ?thesis unfolding readStruct_def Let_def
    by (rule sound_bind [OF sound_ReadUint8])
      (use gc skip sound_readItem in \<open>auto simp: sound_fail\<close>)
qed

lemma writable_opt:
  assumes "pred_option (\<lambda>i. writable (w i)) x"
  shows "writable (\<lambda>e. case x of Some i \<Rightarrow> w i e | None \<Rightarrow> e)"
  using assms writable_emits [OF emits_id] by (cases x) simp_all

lemma writable_writeID: "id_ok i \<Longrightarrow> writable (writeID i)"
  by (rule writable_emits [OF wire_id.emits_out])

lemma writable_writeParentInfo:
  assumes "it_parent it = None" and "pred_option parent_ok (Parent it)"
  shows "writable (writeParentInfo it)"
proof (cases "Parent it")
  case None
  have "1 \<le> MaxSafeInteger" "length ([] :: bytes) \<le> MaxSafeInteger" by (simp_all add: MaxSafeInteger_def)
  then show ?thesis
    using writable_seq [OF writable_basic(3) [of 1] writable_basic(5) [of "[]"]] assms None
    by (simp add: writeParentInfo_def [abs_def])
next
  case (Some p)
  then show ?thesis using parent_info_wire [OF assms(1) Some] assms(2) writable_emits by auto
qed

lemma writable_item:
  assumes "it_parent it = None" and "item_ids_ok it" and "content_enc (Content it)"
  shows "writable (item_write it 0)"
proof -
  have o: "writable (writeOptID (Origin it))" "writable (writeOptID (RightOrigin it))"
    using assms(2) by (auto simp: writeOptID_def [abs_def] item_ids_ok_def intro!: writable_opt
        intro: writable_writeID elim!: option.pred_mono_strong)
  have "writable (writeParentInfo it)"
    by (rule writable_writeParentInfo) (use assms in \<open>simp_all add: item_ids_ok_def\<close>)
  moreover from this have "writable (\<lambda>e. WriteVarString (ParentSub it) (writeParentInfo it e))"
    by (rule writable_seq) (use assms(2) in \<open>simp add: item_ids_ok_def writable_basic\<close>)
  ultimately have p: "writable (writeParentPart it)"
    using writable_emits [OF emits_id]
    by (cases "Origin it = None \<and> RightOrigin it = None"; cases "HasParentSub it")
      (auto simp: writeParentPart_def Let_def intro: writable_cong)
  show ?thesis
    unfolding item_write_0 [abs_def]
    by (rule writable_seq [OF writable_seq [OF writable_seq [OF writable_seq [OF writable_basic(1) o(1)] o(2)] p]
          content_writable [OF assms(3)]])
qed

lemma struct_writable: "struct_enc s \<Longrightarrow> writable (struct_write s 0)"
  using writable_item writable_seq [OF writable_basic(1) writable_basic(3)] by (cases s) auto

end
