(* ===== verification/Updates.thy ===== *)
theory Updates
  imports Structs
begin

text \<open>
  Updates, \<open>update.go\<close>: blocks of structs per client followed by a delete set.

  A block's structs carry no clocks on the wire: the reader counts from the start clock, so the
  structs of a decoded block are contiguous (\<open>structs_at\<close>). The lemmas show the round trip up
  to the order of the blocks, that a decoded update can always be encoded again, and a bound on
  every clock an update can mention, which is why clocks need no wrap-around.
\<close>

subsection \<open>Definitions\<close>

record ClientBlock =
  cbClient :: client_id
  StartClock :: clock
  Structs :: "struct list"

record Update =
  uClients :: "ClientBlock list"
  Deletes :: "delete_set option"

primrec readStructs :: "nat \<Rightarrow> client_id \<Rightarrow> clock \<Rightarrow> struct list reader" where
  "readStructs 0 client clock = rreturn []"
| "readStructs (Suc n) client clock =
     rbind (readStruct client clock) (\<lambda>s.
     rbind (readStructs n client (clock + StructLen s)) (\<lambda>ss. rreturn (s # ss)))"

definition readBlock :: "ClientBlock reader" where
  "readBlock = rbind ReadVarUint (\<lambda>numStructs d.
     if Remaining d < numStructs then Inl ErrUnexpectedEOF
     else rbind readSafeVarUint (\<lambda>client.
          rbind readSafeVarUint (\<lambda>startClock.
          rbind (readStructs numStructs client startClock) (\<lambda>ss.
          rreturn \<lparr>cbClient = client, StartClock = startClock, Structs = ss\<rparr>))) d)"

definition readUpdate :: "Update reader" where
  "readUpdate = rbind ReadVarUint (\<lambda>numClients.
     rbind (rcounted numClients readBlock) (\<lambda>blocks.
     rbind readDeleteSet (\<lambda>ds.
     rreturn \<lparr>uClients = blocks, Deletes = Some ds\<rparr>)))"

definition DecodeUpdate :: "bytes \<Rightarrow> Update res" where
  "DecodeUpdate b =
     (case readUpdate (NewDecoder b) of
        Inl er \<Rightarrow> Inl er
      | Inr (u, d) \<Rightarrow> if \<not> Done d then Inl ErrCorruptUpdate else Inr u)"

fun isDescendingByClient :: "ClientBlock list \<Rightarrow> bool" where
  "isDescendingByClient (a # b # bs) =
     (if cbClient a \<le> cbClient b then False else isDescendingByClient (b # bs))"
| "isDescendingByClient _ = True"

definition sorted_blocks :: "ClientBlock list \<Rightarrow> ClientBlock list" where
  "sorted_blocks blocks =
     (if \<not> isDescendingByClient blocks then rev (sort_key cbClient (rev blocks)) else blocks)"

definition writeBlock :: "ClientBlock \<Rightarrow> encoder \<Rightarrow> encoder" where
  "writeBlock block e =
     (let e = WriteVarUint (length (Structs block)) e;
          e = WriteVarUint (cbClient block) e;
          e = WriteVarUint (StartClock block) e
      in case Structs block of
           [] \<Rightarrow> e
         | s # ss \<Rightarrow>
             fold (\<lambda>s. struct_write s 0) ss (struct_write s (StartClock block - Clock (StructID s)) e))"

definition update_write :: "Update \<Rightarrow> encoder \<Rightarrow> encoder" where
  "update_write u e =
     (let blocks = sorted_blocks (uClients u);
          e = WriteVarUint (length blocks) e;
          e = fold writeBlock blocks e
      in case Deletes u of None \<Rightarrow> WriteVarUint 0 e | Some ds \<Rightarrow> writeDeleteSet ds e)"

definition Encode :: "Update \<Rightarrow> bytes res" where
  "Encode u = finish (update_write u NewEncoder)"

definition update_StateVector :: "Update \<Rightarrow> state_vector" where
  "update_StateVector u =
     fold (\<lambda>block sv.
       let clock = fold (\<lambda>s clock. clock + StructLen s) (Structs block) (StartClock block)
       in if sv_Get sv (cbClient block) < clock then AList.update (cbClient block) clock sv else sv)
       (uClients u) []"

subsection \<open>Which updates have a wire form\<close>

fun structs_at :: "client_id \<Rightarrow> clock \<Rightarrow> struct list \<Rightarrow> bool" where
  "structs_at client clock [] \<longleftrightarrow> True"
| "structs_at client clock (s # ss) \<longleftrightarrow>
     StructID s = ID client clock \<and> structs_at client (clock + StructLen s) ss"

definition structs_len :: "struct list \<Rightarrow> nat" where
  "structs_len ss = sum_list (map StructLen ss)"

definition block_ok :: "ClientBlock \<Rightarrow> bool" where
  "block_ok b \<longleftrightarrow> cbClient b \<le> MaxSafeInteger \<and> StartClock b \<le> MaxSafeInteger
     \<and> length (Structs b) \<le> MaxSafeInteger
     \<and> structs_at (cbClient b) (StartClock b) (Structs b) \<and> list_all struct_ok (Structs b)"

definition update_ok :: "Update \<Rightarrow> bool" where
  "update_ok u \<longleftrightarrow> length (uClients u) \<le> MaxSafeInteger \<and> list_all block_ok (uClients u)
     \<and> pred_option ds_ok (Deletes u)"

definition normal :: "Update \<Rightarrow> Update" where
  "normal u = \<lparr>uClients = sorted_blocks (uClients u),
     Deletes = Some (case Deletes u of None \<Rightarrow> [] | Some ds \<Rightarrow> entries_desc ds)\<rparr>"

definition block_read :: "ClientBlock \<Rightarrow> nat \<Rightarrow> bool" where
  "block_read b k \<longleftrightarrow> cbClient b \<le> MaxSafeInteger \<and> StartClock b \<le> MaxSafeInteger
     \<and> structs_at (cbClient b) (StartClock b) (Structs b)
     \<and> structs_len (Structs b) \<le> (maxLen + 1) * k
     \<and> list_all (\<lambda>s. \<forall>it. s = Item it \<longrightarrow> wire_item it) (Structs b)
     \<and> (k \<le> MaxSafeInteger \<longrightarrow> length (Structs b) \<le> MaxSafeInteger \<and> list_all struct_enc (Structs b))"

subsection \<open>Lemmas: what is written is read back\<close>

lemma sorted_blocks_facts [simp]:
  "length (sorted_blocks bs) = length bs" "set (sorted_blocks bs) = set bs"
  by (simp_all add: sorted_blocks_def)

lemma structs_wire:
  "structs_at client clock ss \<Longrightarrow> list_all struct_ok ss \<Longrightarrow>
     \<exists>bs. length ss \<le> length bs \<and> emits (fold (\<lambda>s. struct_write s 0) ss) bs
       \<and> parses (readStructs (length ss) client clock) bs ss"
proof (induction ss arbitrary: clock)
  case Nil
  show ?case by (intro exI [of _ "[]"]) (simp add: emits_def parses_return)
next
  case (Cons s ss)
  then obtain b where b: "b \<noteq> []" "emits (struct_write s 0) b" "parses (readStruct client clock) b s"
    using struct_wire [of s] by auto
  from Cons obtain bs where bs: "length ss \<le> length bs" "emits (fold (\<lambda>s. struct_write s 0) ss) bs"
    "parses (readStructs (length ss) client (clock + StructLen s)) bs ss" by auto
  have "emits (fold (\<lambda>s. struct_write s 0) (s # ss)) (b @ bs)"
    using emits_seq [OF b(2) bs(2)] by (simp add: comp_def)
  moreover have "parses (readStructs (length (s # ss)) client clock) (b @ bs) (s # ss)"
    unfolding length_Cons readStructs.simps
    by (rule parses_bind [OF b(3)]) (rule parses_bind_return [OF bs(3) refl])
  moreover have "length (s # ss) \<le> length (b @ bs)" using b(1) bs(1) by (cases b) auto
  ultimately show ?case by blast
qed

lemma writeBlock_fold:
  assumes "structs_at (cbClient b) (StartClock b) (Structs b)"
  shows "writeBlock b e = fold (\<lambda>s. struct_write s 0) (Structs b)
     (WriteVarUint (StartClock b) (WriteVarUint (cbClient b) (WriteVarUint (length (Structs b)) e)))"
  using assms by (cases "Structs b") (simp_all add: writeBlock_def Let_def)

interpretation wire_block: codec writeBlock readBlock block_ok
proof
  fix b assume ok: "block_ok b"
  then have c: "cbClient b \<le> MaxSafeInteger" and st: "StartClock b \<le> MaxSafeInteger"
    and l: "length (Structs b) \<le> MaxSafeInteger"
    and at: "structs_at (cbClient b) (StartClock b) (Structs b)" "list_all struct_ok (Structs b)"
    by (simp_all add: block_ok_def)
  obtain bs where bs: "length (Structs b) \<le> length bs" "emits (fold (\<lambda>s. struct_write s 0) (Structs b)) bs"
    "parses (readStructs (length (Structs b)) (cbClient b) (StartClock b)) bs (Structs b)"
    using structs_wire [OF at] by blast
  let ?p = "writeVarUint_loop (cbClient b) [] @ (writeVarUint_loop (StartClock b) [] @ bs)"
  let ?bs = "writeVarUint_loop (length (Structs b)) [] @ ?p"
  have "emits (writeBlock b) ?bs"
    unfolding writeBlock_fold [OF at(1), abs_def]
    using emits_seq [OF emits_seq [OF emits_seq [OF emits_WriteVarUint [OF l] emits_WriteVarUint [OF c]]
          emits_WriteVarUint [OF st]] bs(2)] by simp
  moreover have "parses (rbind readSafeVarUint (\<lambda>client. rbind readSafeVarUint (\<lambda>startClock.
      rbind (readStructs (length (Structs b)) client startClock) (\<lambda>ss.
      rreturn \<lparr>cbClient = client, StartClock = startClock, Structs = ss\<rparr>)))) ?p b"
    by (rule parses_bind [OF parses_readSafeVarUint [OF c]], rule parses_bind [OF parses_readSafeVarUint [OF st]],
        rule parses_bind_return [OF bs(3)]) simp
  then have "parses readBlock ?bs b"
    unfolding readBlock_def
    by (intro parses_bind [OF parses_ReadVarUint [OF l]] parses_guard) (use bs(1) in simp_all)
  ultimately show "\<exists>bs. bs \<noteq> [] \<and> emits (writeBlock b) bs \<and> parses readBlock bs b"
    by (intro exI [of _ ?bs]) simp
qed

lemma update_wire:
  assumes "update_ok u"
  shows "\<exists>bs. emits (update_write u) bs \<and> parses readUpdate bs (normal u)"
proof -
  let ?blocks = "sorted_blocks (uClients u)"
  have ok: "list_all block_ok ?blocks" "length ?blocks \<le> MaxSafeInteger"
    using assms by (auto simp: update_ok_def list_all_iff)
  let ?ds = "case Deletes u of None \<Rightarrow> [] | Some ds \<Rightarrow> ds"
  have "ds_ok ?ds"
    using assms by (auto simp: update_ok_def ds_ok_def split: option.splits)
  then obtain bs where bs: "emits (writeDeleteSet ?ds) bs" "parses readDeleteSet bs (entries_desc ?ds)"
    using delete_set_wire by blast
  have e: "entries_desc [] = ([] :: delete_set)" by (simp add: entries_desc_def clientsDescending_def)
  then have n: "normal u = \<lparr>uClients = ?blocks, Deletes = Some (entries_desc ?ds)\<rparr>"
    by (simp add: normal_def split: option.splits)
  have "writeDeleteSet [] e = WriteVarUint 0 e" for e
    by (simp add: writeDeleteSet_def clientsDescending_def)
  then have w: "update_write u = (\<lambda>e. writeDeleteSet ?ds (fold writeBlock ?blocks (WriteVarUint (length ?blocks) e)))"
    by (simp add: update_write_def fun_eq_iff Let_def split: option.splits)
  let ?c = "writeVarUint_loop (length ?blocks) [] @ concat (map (\<lambda>x. out (writeBlock x)) ?blocks)"
  have "emits (update_write u) (?c @ bs)"
    unfolding w by (rule emits_seq [OF wire_block.counted_emits [OF ok] bs(1)])
  moreover have "parses (rbind (rbind ReadVarUint (\<lambda>n. rcounted n readBlock)) (\<lambda>blocks.
      rbind readDeleteSet (\<lambda>ds. rreturn \<lparr>uClients = blocks, Deletes = Some ds\<rparr>))) (?c @ bs) (normal u)"
    by (rule parses_bind [OF wire_block.counted_parses [OF ok]])
      (rule parses_bind_return [OF bs(2)], simp add: n)
  then have "parses readUpdate (?c @ bs) (normal u)" by (simp add: readUpdate_def rbind_assoc)
  ultimately show ?thesis by blast
qed

lemma isDescending_sorted: "isDescendingByClient bs \<longleftrightarrow> sorted_wrt (\<lambda>a b. cbClient b < cbClient a) bs"
  by (induction bs rule: isDescendingByClient.induct) (auto simp: not_le)

lemma sorted_blocks_descending: "sorted_wrt (\<lambda>a b. cbClient b \<le> cbClient a) (sorted_blocks bs)"
proof (cases "isDescendingByClient bs")
  case True
  then have "sorted_wrt (\<lambda>a b. cbClient b < cbClient a) bs" by (simp add: isDescending_sorted)
  then show ?thesis
    using True by (auto simp: sorted_blocks_def elim!: sorted_wrt_mono_rel [rotated])
next
  case False
  then show ?thesis
    using sorted_sort_key [of cbClient "rev bs"] by (simp add: sorted_blocks_def sorted_wrt_rev sorted_wrt_map)
qed

subsection \<open>Lemmas: what is read can be written, and its clocks are bounded\<close>

lemma structs_len_simps [simp]: "structs_len [] = 0" "structs_len (s # ss) = StructLen s + structs_len ss"
  by (simp_all add: structs_len_def)

lemma sound_readStructs:
  "sound (readStructs n client clock) (\<lambda>ss k. structs_at client clock ss \<and> length ss = n \<and> 2 * n \<le> k
     \<and> structs_len ss \<le> (maxLen + 1) * k \<and> list_all (\<lambda>s. \<forall>it. s = Item it \<longrightarrow> wire_item it) ss
     \<and> (k \<le> MaxSafeInteger \<longrightarrow> list_all struct_enc ss))"
proof (induction n arbitrary: clock)
  case 0
  show ?case by (auto intro: sound_return)
next
  case (Suc n)
  show ?case
    unfolding readStructs.simps
    apply (rule sound_bind [OF sound_readStruct], rule sound_bind [OF Suc.IH], rule sound_return)
    subgoal premises prems for s k ss m
    proof -
      have "maxLen + k \<le> (maxLen + 1) * k" using prems(1) by (cases k) (auto simp: struct_read_def)
      moreover have "StructLen s \<le> maxLen + k" "structs_len ss \<le> (maxLen + 1) * m"
        using prems by (auto simp: struct_read_def)
      moreover have "(maxLen + 1) * (k + (m + 0)) = (maxLen + 1) * k + (maxLen + 1) * m"
        by (simp only: distrib_left add_0_right)
      ultimately have "structs_len (s # ss) \<le> (maxLen + 1) * (k + (m + 0))"
        unfolding structs_len_simps by linarith
      with prems show ?thesis by (auto simp: struct_read_def simp del: structs_len_simps mult_Suc)
    qed
    done
qed

lemma sound_readBlock: "sound readBlock block_read"
  unfolding readBlock_def
  by (rule sound_bind [OF sound_ReadVarUint], rule sound_if, rule sound_fail,
      rule sound_bind [OF sound_readSafeVarUint], rule sound_bind [OF sound_readSafeVarUint],
      rule sound_bind [OF sound_readStructs], rule sound_return)
    (auto simp: block_read_def algebra_simps)

definition update_read :: "Update \<Rightarrow> nat \<Rightarrow> bool" where
  "update_read u k \<longleftrightarrow> list_all (\<lambda>b. block_read b k) (uClients u)
     \<and> (\<exists>ds. Deletes u = Some ds \<and> distinct (map fst ds)
          \<and> list_all (\<lambda>p. fst p \<le> MaxSafeInteger \<and> list_all range_ok (snd p)) ds
          \<and> (k \<le> MaxSafeInteger \<longrightarrow> ds_ok ds))
     \<and> (k \<le> MaxSafeInteger \<longrightarrow> length (uClients u) \<le> MaxSafeInteger)"

lemma block_read_mono: "block_read b k \<Longrightarrow> k \<le> m \<Longrightarrow> block_read b m"
  unfolding block_read_def using mult_le_mono2 [of k m "maxLen + 1"] by auto

lemma sound_readBlocks:
  "sound (rtimes n readBlock) (\<lambda>bs k. length bs = n \<and> n \<le> k \<and> list_all (\<lambda>b. block_read b k) bs)"
proof -
  have "sound readBlock (\<lambda>b k. block_read b k \<and> 1 \<le> k)"
    unfolding readBlock_def
    by (rule sound_bind [OF sound_ReadVarUint], rule sound_if, rule sound_fail,
        rule sound_bind [OF sound_readSafeVarUint], rule sound_bind [OF sound_readSafeVarUint],
        rule sound_bind [OF sound_readStructs], rule sound_return)
      (auto simp: block_read_def algebra_simps)
  from sound_rtimes [OF this, of n] show ?thesis
  proof (rule sound_mono)
    fix bs k assume "length bs = n \<and> (\<exists>ks. list_all2 (\<lambda>b k. block_read b k \<and> 1 \<le> k) bs ks \<and> k = sum_list ks)"
    then obtain ks where ks: "length bs = n" "list_all2 (\<lambda>b k. block_read b k \<and> 1 \<le> k) bs ks" "k = sum_list ks"
      by blast
    from ks(2) have "length bs \<le> sum_list ks \<and> list_all (\<lambda>b. block_read b (sum_list ks)) bs"
    proof (induction rule: list_all2_induct)
      case (Cons b bs k ks)
      then have "block_read b (sum_list (k # ks))" by (auto intro: block_read_mono)
      moreover have "list_all (\<lambda>b. block_read b (sum_list (k # ks))) bs"
        using Cons by (auto simp: list_all_iff intro: block_read_mono)
      ultimately show ?case using Cons by auto
    qed simp
    with ks show "length bs = n \<and> n \<le> k \<and> list_all (\<lambda>b. block_read b k) bs" by simp
  qed
qed

lemma sound_readUpdate: "sound readUpdate update_read"
  unfolding readUpdate_def
  apply (rule sound_bind [OF sound_ReadVarUint], rule sound_bind [OF sound_rcounted [OF sound_readBlocks]],
      rule sound_bind [OF sound_readDeleteSet], rule sound_return)
  subgoal premises prems for n k bs m ds l
  proof -
    have "list_all (\<lambda>b. block_read b (k + (m + (l + 0)))) bs"
      using prems(2) by (auto simp: list_all_iff intro: block_read_mono)
    with prems show ?thesis
      by (auto simp: update_read_def ds_ok_def ds_entry_ok_def list_all_iff)
  qed
  done

lemma DecodeUpdate_read:
  assumes "DecodeUpdate b = Inr u"
  shows "update_read u (length b)"
proof -
  from assms obtain d where d: "readUpdate (NewDecoder b) = Inr (u, d)" "Done d"
    by (auto simp: DecodeUpdate_def split: sum.splits prod.splits if_splits)
  have "within (NewDecoder b)" by (simp add: within_def NewDecoder_def)
  note r = soundD [OF sound_readUpdate this d(1)]
  then have "pos d = length b" using d(2) by (simp add: Done_def within_def NewDecoder_def)
  with r(4) show ?thesis by (simp add: NewDecoder_def)
qed

lemma writable_block:
  assumes "block_read b k" and "k \<le> MaxSafeInteger"
  shows "writable (writeBlock b)"
proof -
  have b: "cbClient b \<le> MaxSafeInteger" "StartClock b \<le> MaxSafeInteger" "length (Structs b) \<le> MaxSafeInteger"
    "structs_at (cbClient b) (StartClock b) (Structs b)" "list_all struct_enc (Structs b)"
    using assms by (auto simp: block_read_def)
  have "writable (fold (\<lambda>s. struct_write s 0) (Structs b))"
    using b(5) by (intro writable_fold struct_writable) (simp add: list_all_iff)
  from writable_seq [OF writable_seq [OF writable_seq [OF writable_basic(3) [OF b(3)] writable_basic(3) [OF b(1)]]
        writable_basic(3) [OF b(2)]] this]
  show ?thesis unfolding writeBlock_fold [OF b(4), abs_def] .
qed

lemma update_writable:
  assumes "update_read u k" and "k \<le> MaxSafeInteger"
  shows "writable (update_write u)"
proof -
  let ?blocks = "sorted_blocks (uClients u)"
  obtain ds where ds: "Deletes u = Some ds" "ds_ok ds" using assms by (auto simp: update_read_def)
  then have d: "writable (writeDeleteSet ds)" using delete_set_wire writable_emits by blast
  have l: "length ?blocks \<le> MaxSafeInteger" using assms by (simp add: update_read_def)
  have "writable (fold writeBlock ?blocks)"
    using assms by (intro writable_fold writable_block) (auto simp: update_read_def list_all_iff)
  from writable_seq [OF writable_seq [OF writable_basic(3) [OF l] this] d]
  show ?thesis by (simp add: update_write_def [abs_def] ds(1) Let_def)
qed

lemma structs_at_end:
  "structs_at c k ss \<Longrightarrow> s \<in> set ss \<Longrightarrow> k \<le> Clock (StructID s)
     \<and> Clock (StructID s) + StructLen s \<le> k + structs_len ss \<and> Client (StructID s) = c"
  by (induction ss arbitrary: k) fastforce+

end
