(* ===== verification/Messages.thy ===== *)
theory Messages
  imports Ids
begin

text \<open>
  The frames of the wire protocol, \<open>protocol/messages.go\<close>: a message type, and for each type its
  payload. The \<open>Write\<close> functions hand out the buffer of an encoder without asking it for an
  error, and so do their models.

  The lemmas: every frame the server writes is decoded to the message it was written for, two
  different messages never share a frame, and a frame with a byte too many is refused.
\<close>

subsection \<open>Messages\<close>

abbreviation (input) MessageSync :: nat where "MessageSync \<equiv> 0"
abbreviation (input) MessageAwareness :: nat where "MessageAwareness \<equiv> 1"
abbreviation (input) MessageAuth :: nat where "MessageAuth \<equiv> 2"
abbreviation (input) MessageQueryAwareness :: nat where "MessageQueryAwareness \<equiv> 3"
abbreviation (input) SyncStep1 :: nat where "SyncStep1 \<equiv> 0"
abbreviation (input) SyncStep2 :: nat where "SyncStep2 \<equiv> 1"
abbreviation (input) SyncUpdate :: nat where "SyncUpdate \<equiv> 2"
abbreviation (input) AuthPermissionDenied :: nat where "AuthPermissionDenied \<equiv> 0"

datatype Message =
    SyncStep1Message bytes
  | SyncStep2Message bytes
  | UpdateMessage bytes
  | AwarenessMessage bytes
  | QueryAwarenessMessage
  | PermissionDeniedMessage bytes

subsection \<open>Decoding\<close>

definition decodeSync :: "Message reader" where
  "decodeSync = rbind ReadVarUint (\<lambda>sub. rbind ReadVarUint8Array (\<lambda>payload.
     if sub = SyncStep1 then rreturn (SyncStep1Message payload)
     else if sub = SyncStep2 then rreturn (SyncStep2Message payload)
     else if sub = SyncUpdate then rreturn (UpdateMessage payload)
     else rfail (ErrUnknownSyncType sub)))"

definition decodeAuth :: "Message reader" where
  "decodeAuth = rbind ReadVarUint (\<lambda>sub.
     if sub \<noteq> AuthPermissionDenied then rfail (ErrUnknownAuthType sub)
     else rbind ReadVarString (\<lambda>reason. rreturn (PermissionDeniedMessage reason)))"

definition decodeMessage :: "Message reader" where
  "decodeMessage = rbind ReadVarUint (\<lambda>typ.
     if typ = MessageSync then decodeSync
     else if typ = MessageAwareness then rbind ReadVarUint8Array (\<lambda>payload. rreturn (AwarenessMessage payload))
     else if typ = MessageQueryAwareness then rreturn QueryAwarenessMessage
     else if typ = MessageAuth then decodeAuth
     else rfail (ErrUnknownMessageType typ))"

definition Decode :: "bytes \<Rightarrow> Message res" where
  "Decode b =
     (case decodeMessage (NewDecoder b) of
        Inl er \<Rightarrow> Inl er
      | Inr (msg, d) \<Rightarrow> if \<not> Done d then Inl ErrTrailingBytes else Inr msg)"

subsection \<open>Encoding\<close>

definition writeSync :: "nat \<Rightarrow> bytes \<Rightarrow> bytes" where
  "writeSync sub payload =
     ebuf (WriteVarUint8Array payload (WriteVarUint sub (WriteVarUint MessageSync NewEncoder)))"

definition WriteSyncStep1 :: "bytes \<Rightarrow> bytes" where
  "WriteSyncStep1 stateVector = writeSync SyncStep1 stateVector"

definition WriteSyncStep2 :: "bytes \<Rightarrow> bytes" where
  "WriteSyncStep2 update = writeSync SyncStep2 update"

definition WriteUpdate :: "bytes \<Rightarrow> bytes" where
  "WriteUpdate update = writeSync SyncUpdate update"

definition WriteAwareness :: "bytes \<Rightarrow> bytes" where
  "WriteAwareness payload = ebuf (WriteVarUint8Array payload (WriteVarUint MessageAwareness NewEncoder))"

definition WriteQueryAwareness :: bytes where
  "WriteQueryAwareness = ebuf (WriteVarUint MessageQueryAwareness NewEncoder)"

definition WritePermissionDenied :: "bytes \<Rightarrow> bytes" where
  "WritePermissionDenied reason =
     ebuf (WriteVarString reason (WriteVarUint AuthPermissionDenied (WriteVarUint MessageAuth NewEncoder)))"

subsection \<open>The frame of a message\<close>

primrec frame_of :: "Message \<Rightarrow> bytes" where
  "frame_of (SyncStep1Message sv) = WriteSyncStep1 sv"
| "frame_of (SyncStep2Message u) = WriteSyncStep2 u"
| "frame_of (UpdateMessage u) = WriteUpdate u"
| "frame_of (AwarenessMessage p) = WriteAwareness p"
| "frame_of QueryAwarenessMessage = WriteQueryAwareness"
| "frame_of (PermissionDeniedMessage r) = WritePermissionDenied r"

primrec payload_of :: "Message \<Rightarrow> bytes" where
  "payload_of (SyncStep1Message sv) = sv"
| "payload_of (SyncStep2Message u) = u"
| "payload_of (UpdateMessage u) = u"
| "payload_of (AwarenessMessage p) = p"
| "payload_of QueryAwarenessMessage = []"
| "payload_of (PermissionDeniedMessage r) = r"

abbreviation "message_ok m \<equiv> length (payload_of m) \<le> MaxSafeInteger"

primrec write_message :: "Message \<Rightarrow> encoder \<Rightarrow> encoder" where
  "write_message (SyncStep1Message sv) = (\<lambda>e. WriteVarUint8Array sv (WriteVarUint SyncStep1 (WriteVarUint MessageSync e)))"
| "write_message (SyncStep2Message u) = (\<lambda>e. WriteVarUint8Array u (WriteVarUint SyncStep2 (WriteVarUint MessageSync e)))"
| "write_message (UpdateMessage u) = (\<lambda>e. WriteVarUint8Array u (WriteVarUint SyncUpdate (WriteVarUint MessageSync e)))"
| "write_message (AwarenessMessage p) = (\<lambda>e. WriteVarUint8Array p (WriteVarUint MessageAwareness e))"
| "write_message QueryAwarenessMessage = (\<lambda>e. WriteVarUint MessageQueryAwareness e)"
| "write_message (PermissionDeniedMessage r) =
     (\<lambda>e. WriteVarString r (WriteVarUint AuthPermissionDenied (WriteVarUint MessageAuth e)))"

lemma frame_of_out: "frame_of m = out (write_message m)"
  by (cases m) (simp_all add: out_def WriteSyncStep1_def WriteSyncStep2_def WriteUpdate_def writeSync_def
      WriteAwareness_def WriteQueryAwareness_def WritePermissionDenied_def)

subsection \<open>Lemmas\<close>

lemma parses_small: "v < 128 \<Longrightarrow> parses ReadVarUint (writeVarUint_loop v []) v"
  by (rule parses_ReadVarUint) (simp add: MaxSafeInteger_def)

lemma emits_small: "v < 128 \<Longrightarrow> emits (WriteVarUint v) (writeVarUint_loop v [])"
  by (rule emits_WriteVarUint) (simp add: MaxSafeInteger_def)

lemma parses_tag: "v < 128 \<Longrightarrow> parses (f v) bs x \<Longrightarrow> parses (rbind ReadVarUint f) (writeVarUint_loop v [] @ bs) x"
  by (rule parses_bind [OF parses_small])

lemma emits_tag: "v < 128 \<Longrightarrow> emits w bs \<Longrightarrow> emits (\<lambda>e. w (WriteVarUint v e)) (writeVarUint_loop v [] @ bs)"
  by (rule emits_seq [OF emits_small])

lemma emits_tags:
  "u < 128 \<Longrightarrow> v < 128 \<Longrightarrow> emits w bs \<Longrightarrow>
     emits (\<lambda>e. w (WriteVarUint v (WriteVarUint u e))) (writeVarUint_loop u [] @ writeVarUint_loop v [] @ bs)"
  using emits_tag [of u "\<lambda>e. w (WriteVarUint v e)"] emits_tag by blast

lemma parses_sync:
  assumes "length p \<le> MaxSafeInteger"
  shows "parses decodeSync (writeVarUint_loop SyncStep1 [] @ (writeVarUint_loop (length p) [] @ p)) (SyncStep1Message p)"
    and "parses decodeSync (writeVarUint_loop SyncStep2 [] @ (writeVarUint_loop (length p) [] @ p)) (SyncStep2Message p)"
    and "parses decodeSync (writeVarUint_loop SyncUpdate [] @ (writeVarUint_loop (length p) [] @ p)) (UpdateMessage p)"
  unfolding decodeSync_def
  by (intro parses_tag; simp add: parses_bind_return [OF parses_ReadVarUint8Array [OF assms]])+

interpretation wire_message: codec write_message decodeMessage message_ok
proof
  fix m assume ok: "message_ok m"
  let ?v = "\<lambda>v. writeVarUint_loop v []" and ?p = "writeVarUint_loop (length (payload_of m)) [] @ payload_of m"
  have a: "emits (WriteVarUint8Array (payload_of m)) ?p" "emits (WriteVarString (payload_of m)) ?p"
    using ok by (simp_all add: emits_intros)
  have s: "parses (rbind ReadVarUint8Array (\<lambda>p. rreturn (f p))) ?p (f (payload_of m))"
    "parses (rbind ReadVarString (\<lambda>p. rreturn (f p))) ?p (f (payload_of m))" for f :: "bytes \<Rightarrow> Message"
    using ok by (simp_all add: parses_bind_return [OF parses_ReadVarUint8Array] parses_bind_return [OF parses_ReadVarString])
  show "\<exists>bs. bs \<noteq> [] \<and> emits (write_message m) bs \<and> parses decodeMessage bs m"
  proof (cases m)
    case (SyncStep1Message p)
    with ok a s show ?thesis unfolding decodeMessage_def
      by (intro exI [of _ "?v MessageSync @ (?v SyncStep1 @ ?p)"] conjI parses_tag)
        (simp_all add: emits_tags parses_sync parses_sync [simplified One_nat_def])
  next
    case (SyncStep2Message p)
    with ok a s show ?thesis unfolding decodeMessage_def
      by (intro exI [of _ "?v MessageSync @ (?v SyncStep2 @ ?p)"] conjI parses_tag)
        (simp_all add: emits_tags parses_sync parses_sync [simplified One_nat_def])
  next
    case (UpdateMessage p)
    with ok a s show ?thesis unfolding decodeMessage_def
      by (intro exI [of _ "?v MessageSync @ (?v SyncUpdate @ ?p)"] conjI parses_tag)
        (simp_all add: emits_tags parses_sync parses_sync [simplified One_nat_def])
  next
    case (AwarenessMessage p)
    with a s show ?thesis unfolding decodeMessage_def
      by (intro exI [of _ "?v MessageAwareness @ ?p"] conjI parses_tag) (simp_all add: emits_tag)
  next
    case QueryAwarenessMessage
    then show ?thesis unfolding decodeMessage_def
      using parses_tag [of MessageQueryAwareness "\<lambda>typ. if typ = MessageSync then decodeSync
     else if typ = MessageAwareness then rbind ReadVarUint8Array (\<lambda>payload. rreturn (AwarenessMessage payload))
     else if typ = MessageQueryAwareness then rreturn QueryAwarenessMessage
     else if typ = MessageAuth then decodeAuth
     else rfail (ErrUnknownMessageType typ)" "[]" QueryAwarenessMessage]
      by (intro exI [of _ "?v MessageQueryAwareness"] conjI) (simp_all add: emits_small parses_return)
  next
    case (PermissionDeniedMessage r)
    with a have "parses decodeAuth (?v AuthPermissionDenied @ ?p) m"
      unfolding decodeAuth_def using s(2) [of PermissionDeniedMessage] by (intro parses_tag) simp_all
    with PermissionDeniedMessage a show ?thesis unfolding decodeMessage_def
      by (intro exI [of _ "?v MessageAuth @ (?v AuthPermissionDenied @ ?p)"] conjI parses_tag)
        (simp_all add: emits_tags)
  qed
qed

lemma Decode_frame_of: "message_ok m \<Longrightarrow> Decode (frame_of m) = Inr m"
  using wire_message.parses_out [of m] unfolding frame_of_out Decode_def parses_def
  by (fastforce simp: Done_unread dest!: spec [of _ "NewDecoder (out (write_message m))"])

lemma Decode_trailing:
  assumes "message_ok m" and "rest \<noteq> []"
  shows "Decode (frame_of m @ rest) = Inl ErrTrailingBytes"
proof -
  from wire_message.parses_out [OF assms(1)] obtain d where
    "decodeMessage (NewDecoder (out (write_message m) @ rest)) = Inr (m, d)" "unread d = rest"
    by (rule parsesE [where d = "NewDecoder (out (write_message m) @ rest)"]) simp
  with assms(2) show ?thesis by (simp add: Decode_def frame_of_out Done_unread)
qed

lemma frame_of_inj: "message_ok m \<Longrightarrow> message_ok m' \<Longrightarrow> frame_of m = frame_of m' \<Longrightarrow> m = m'"
  using Decode_frame_of by (metis sum.inject(2))

end
