(* ===== verification/Codec_Properties.thy ===== *)
theory Codec_Properties
  imports Updates Messages "HOL-Library.Code_Target_Nat"
begin

text \<open>
  What the wire formats promise, stated on whole frames: the primitive numbers, dynamic values,
  updates, state vectors, delete sets, the contents of items and the messages of the protocol.
  Every statement with a hypothesis is followed by an instance.
\<close>

subsection \<open>Instances\<close>

definition sample_value :: any where
  "sample_value = AObject [(str ''k'', AArray [AInt 5, ABool True, ANull]), (str ''s'', AString (str ''x''))]"

definition sample_item :: item where
  "sample_item = new_item (ID 7 0) None None (Some (PRoot (str ''t''))) False [] (ContentString (str ''hi''))"

definition sample_update :: Update where
  "sample_update = \<lparr>uClients = [\<lparr>cbClient = 7, StartClock = 0, Structs = [Item sample_item]\<rparr>],
     Deletes = Some [(7, [\<lparr>rClock = 1, rLen = 1\<rparr>])]\<rparr>"

subsection \<open>Numbers and values\<close>

text \<open>
  Whatever \<open>WriteVarUint\<close> accepts, \<open>ReadVarUint\<close> reads back, and nothing is left
  unread.
\<close>

theorem varuint_roundtrip:
  assumes "v \<le> MaxSafeInteger"
  shows "\<exists>bs d'. finish (WriteVarUint v NewEncoder) = Inr bs \<and> ReadVarUint (NewDecoder bs) = Inr (v, d') \<and> Done d'"
  using varuint.frame [OF assms] .

theorem varuint_roundtrip_witness:
  "\<exists>bs d'. finish (WriteVarUint 300 NewEncoder) = Inr bs \<and> ReadVarUint (NewDecoder bs) = Inr (300, d') \<and> Done d'"
  by (rule varuint_roundtrip) (simp add: MaxSafeInteger_def)

text \<open>
  C29. A dynamic value in its canonical form (the depth within the limit, numbers in the
  representation the writer chooses) is written without an error and read back unchanged.
\<close>

theorem any_roundtrip:
  assumes "any_ok 0 v"
  shows "\<exists>bs d'. finish (WriteAny v NewEncoder) = Inr bs \<and> ReadAny (NewDecoder bs) = Inr (v, d') \<and> Done d'"
  using any.frame [OF assms] .

theorem any_roundtrip_witness:
  "\<exists>bs d'. finish (WriteAny sample_value NewEncoder) = Inr bs \<and> ReadAny (NewDecoder bs) = Inr (sample_value, d') \<and> Done d'"
  by (rule any_roundtrip)
    (simp add: sample_value_def maxAnyDepth_def MaxSafeInteger_def maxInt31_def str_def)

text \<open>
  Every dynamic value the reader accepts, in whatever form, can be written again: the server
  never holds a value it cannot relay.
\<close>

theorem any_reencode:
  assumes "ReadAny (NewDecoder b) = Inr (v, d)" and "length b \<le> MaxSafeInteger"
  shows "\<exists>bs. finish (WriteAny v NewEncoder) = Inr bs"
proof -
  have "within (NewDecoder b)" by (simp add: within_def NewDecoder_def)
  from soundD [OF sound_readAny [of 0] this assms(1) [unfolded ReadAny_def]]
  have "pos d \<le> length b" "any_enc 0 v" using assms(2) by (auto simp: within_def NewDecoder_def)
  then show ?thesis using writable_finish [OF any_writable] by (simp add: WriteAny_def)
qed

theorem any_reencode_witness:
  "ReadAny (NewDecoder [0x7d, 0x05]) = Inr (AInt 5, \<lparr>buf = [0x7d, 0x05], pos = 2\<rparr>)
   \<and> (\<exists>bs. finish (WriteAny (AInt 5) NewEncoder) = Inr bs)"
proof -
  have r: "ReadAny (NewDecoder [0x7d, 0x05]) = Inr (AInt 5, \<lparr>buf = [0x7d, 0x05], pos = 2\<rparr>)"
    by code_simp
  then show ?thesis using any_reencode [OF r] by (simp add: MaxSafeInteger_def)
qed

subsection \<open>Updates and state vectors\<close>

text \<open>
  C27. An update within the limits of the format is encoded, and decoding gives it back with its
  client blocks and its deletions in descending order of the client.
\<close>

theorem update_roundtrip:
  assumes "update_ok u"
  shows "\<exists>bs. Encode u = Inr bs \<and> DecodeUpdate bs = Inr (normal u)"
proof -
  obtain bs where e: "emits (update_write u) bs" and p: "parses readUpdate bs (normal u)"
    using update_wire [OF assms] by blast
  obtain d where "readUpdate (NewDecoder bs) = Inr (normal u, d)" "unread d = []"
    by (rule parsesE [OF p, of "NewDecoder bs" "[]"]) simp_all
  then show ?thesis using finish_emits [OF e] by (simp add: Encode_def DecodeUpdate_def Done_unread)
qed

theorem update_roundtrip_witness:
  "\<exists>bs. Encode sample_update = Inr bs \<and> DecodeUpdate bs = Inr (normal sample_update)"
  by (rule update_roundtrip)
    (simp add: update_ok_def sample_update_def block_ok_def sample_item_def new_item_def wire_item_def
      item_ids_ok_def parent_ok_def ds_ok_def ds_entry_ok_def range_ok_def MaxSafeInteger_def maxLen_def str_def)

text \<open>
  C28. Whatever \<open>DecodeUpdate\<close> accepts can be encoded again, so an update that has been stored or
  merged can always be sent on.
\<close>

theorem update_reencode:
  assumes "DecodeUpdate b = Inr u" and "length b \<le> MaxSafeInteger"
  shows "\<exists>bs. Encode u = Inr bs"
  using writable_finish [OF update_writable [OF DecodeUpdate_read [OF assms(1)] assms(2)]]
  by (simp add: Encode_def)

theorem update_reencode_witness:
  "DecodeUpdate [0, 0] = Inr \<lparr>uClients = [], Deletes = Some []\<rparr>
   \<and> (\<exists>bs. Encode \<lparr>uClients = [], Deletes = Some []\<rparr> = Inr bs)"
proof -
  have r: "DecodeUpdate [0, 0] = Inr \<lparr>uClients = [], Deletes = Some []\<rparr>" by code_simp
  then show ?thesis using update_reencode [OF r] by (simp add: MaxSafeInteger_def)
qed

text \<open>
  Decoding and encoding again does not reproduce the bytes: two clients of a delete set in ascending
  order come back in descending order.
\<close>

lemma update_reencode_differs:
  "\<exists>u. DecodeUpdate [0, 2, 1, 1, 0, 1, 2, 1, 0, 1] = Inr u
     \<and> Encode u = Inr [0, 2, 2, 1, 0, 1, 1, 1, 0, 1]"
proof -
  have "DecodeUpdate [0, 2, 1, 1, 0, 1, 2, 1, 0, 1]
      = Inr \<lparr>uClients = [], Deletes = Some [(1, [\<lparr>rClock = 0, rLen = 1\<rparr>]), (2, [\<lparr>rClock = 0, rLen = 1\<rparr>])]\<rparr>"
    by code_simp
  moreover have "Encode \<lparr>uClients = [], Deletes = Some [(1, [\<lparr>rClock = 0, rLen = 1\<rparr>]), (2, [\<lparr>rClock = 0, rLen = 1\<rparr>])]\<rparr>
      = Inr [0, 2, 2, 1, 0, 1, 1, 1, 0, 1]"
    by code_simp
  ultimately show ?thesis by blast
qed

text \<open>A number that does not fit is not refused: its high bits are dropped.\<close>

lemma varuint_wraps:
  "ReadVarUint (NewDecoder [0x80, 0x80, 0x80, 0x80, 0x80, 0x80, 0x80, 0x80, 0x80, 0x02])
   = Inr (0, \<lparr>buf = [0x80, 0x80, 0x80, 0x80, 0x80, 0x80, 0x80, 0x80, 0x80, 0x02], pos = 10\<rparr>)"
  by code_simp

text \<open>
  An encoded state vector is decoded to a vector with the same clock for every client.
\<close>

theorem state_vector_roundtrip:
  assumes "sv_ok sv"
  shows "\<exists>bs sv'. EncodeStateVector sv = Inr bs \<and> DecodeStateVector bs = Inr sv' \<and> (\<forall>c. sv_Get sv' c = sv_Get sv c)"
proof -
  obtain bs where e: "emits (writeStateVector sv) bs" and p: "parses readStateVector bs (entries_desc sv)"
    using state_vector_wire [OF assms] by blast
  obtain d where "readStateVector (NewDecoder bs) = Inr (entries_desc sv, d)" "unread d = []"
    by (rule parsesE [OF p, of "NewDecoder bs" "[]"]) simp_all
  moreover have "sv_Get (entries_desc sv) c = sv_Get sv c" for c
    using assms by (simp add: sv_Get_def sv_ok_def map_of_entries_desc)
  ultimately show ?thesis
    using finish_emits [OF e] by (simp add: EncodeStateVector_def DecodeStateVector_def Done_unread)
qed

theorem state_vector_roundtrip_witness:
  "\<exists>bs sv'. EncodeStateVector [(1, 4), (9, 2)] = Inr bs \<and> DecodeStateVector bs = Inr sv'
     \<and> (\<forall>c. sv_Get sv' c = sv_Get [(1, 4), (9, 2)] c)"
  by (rule state_vector_roundtrip) (simp add: sv_ok_def MaxSafeInteger_def)

subsection \<open>Delete sets\<close>

text \<open>
  C31. A delete set is a set of identifiers: adding a range adds exactly its clocks, keeps the ranges
  sorted, disjoint and merged, and two delete sets built in any order from the same ranges are the
  same map.
\<close>

theorem delete_set_is_a_set:
  assumes "ds_canonical ds"
  shows "ds_canonical (Add c k n ds)
    \<and> (\<forall>i. IsDeleted (Add c k n ds) i \<longleftrightarrow> IsDeleted ds i \<or> Client i = c \<and> k \<le> Clock i \<and> Clock i < k + n)
    \<and> map_of (Add c k n (Add c' k' n' ds)) = map_of (Add c' k' n' (Add c k n ds))"
proof (intro conjI allI)
  show "ds_canonical (Add c k n ds)" using assms by (rule deletes.inv_add)
  show "IsDeleted (Add c k n ds) i \<longleftrightarrow> IsDeleted ds i \<or> Client i = c \<and> k \<le> Clock i \<and> Clock i < k + n" for i
    using assms by (rule deletes.mem_add)
  show "map_of (Add c k n (Add c' k' n' ds)) = map_of (Add c' k' n' (Add c k n ds))"
    by (rule ds_canonical_ext) (auto simp: deletes.inv_add deletes.mem_add assms)
qed

theorem delete_set_is_a_set_witness:
  "ds_canonical [(3, [\<lparr>rClock = 0, rLen = 2\<rparr>])]
   \<and> ds_canonical (Add 3 2 4 [(3, [\<lparr>rClock = 0, rLen = 2\<rparr>])])
   \<and> IsDeleted (Add 3 2 4 [(3, [\<lparr>rClock = 0, rLen = 2\<rparr>])]) (ID 3 5)"
proof -
  have c: "ds_canonical [(3, [\<lparr>rClock = 0, rLen = 2\<rparr>])]" by (simp add: ds_canonical_def canonical_def)
  then show ?thesis using delete_set_is_a_set [OF c, of 3 2 4 0 0 0] by simp
qed

subsection \<open>Contents and messages\<close>

text \<open>
  C30. Splitting a content is exact: both halves have the lengths asked for, merging them gives the
  content back, and writing the content from the offset writes what the right half is.
\<close>

theorem splice_exact:
  assumes "Splice c n = Inr (l, r)" and "n \<le> Len c"
  shows "Len l = n \<and> Len r = Len c - n \<and> MergeWith l r = Some c \<and> content_Write c n e = content_Write r 0 e"
  using Splice_facts [OF assms] content_Write_Splice [OF assms(1)] by simp

theorem splice_exact_witness:
  "Splice (ContentString (str ''abc'')) 1 = Inr (ContentString (str ''a''), ContentString (str ''bc''))
   \<and> MergeWith (ContentString (str ''a'')) (ContentString (str ''bc'')) = Some (ContentString (str ''abc''))"
proof -
  have s: "Splice (ContentString (str ''abc'')) 1 = Inr (ContentString (str ''a''), ContentString (str ''bc''))"
    by code_simp
  have "1 \<le> Len (ContentString (str ''abc''))" by code_simp
  from splice_exact [OF s this] s show ?thesis by simp
qed

text \<open>
  C32. Every message of the protocol is decoded from the frame that was written for it, and a frame
  with anything after its message is refused.
\<close>

theorem frame_roundtrip:
  assumes "message_ok m"
  shows "Decode (frame_of m) = Inr m \<and> (\<forall>rest. rest \<noteq> [] \<longrightarrow> Decode (frame_of m @ rest) = Inl ErrTrailingBytes)"
  using Decode_frame_of [OF assms] Decode_trailing [OF assms] by blast

theorem frame_roundtrip_witness:
  "Decode (frame_of (UpdateMessage [1, 2])) = Inr (UpdateMessage [1, 2])
   \<and> Decode (frame_of (UpdateMessage [1, 2]) @ [0]) = Inl ErrTrailingBytes"
  using frame_roundtrip [of "UpdateMessage [1, 2]"] by (simp add: MaxSafeInteger_def)

end
