(* ===== verification/Struct_Store.thy ===== *)
theory Struct_Store
  imports Updates
begin

text \<open>
  The struct store, \<open>structstore.go\<close>, together with the objects its items point to.

  \<open>clients\<close> is the map of the Go struct. Items are mutable objects in the code; here the
  structs in the lists are their current values, \<open>deref\<close> follows a pointer and \<open>upd_item\<close>
  assigns to the fields of the item behind one. \<open>types\<close> holds the mutable part of the shared
  types, \<open>AbstractType\<close>, by reference; a type that was never assigned to is the empty one.

  The lemmas: the clock space of every client stays gapless, the binary search finds exactly the
  covering struct, and a split changes neither the clock space nor what is deleted.
\<close>

subsection \<open>State\<close>

definition typeRefUnknown :: nat where
  "typeRefUnknown = 0xFF"

record ytype =
  ytype_ref :: nat
  ytype_start :: "ID option"
  mapItems :: "(bytes \<times> ID) list"

definition newAbstractType :: "nat \<Rightarrow> ytype" where
  "newAbstractType ref = \<lparr>ytype_ref = ref, ytype_start = None, mapItems = []\<rparr>"

record store =
  clients :: "(client_id \<times> struct list) list"
  types :: "(typeref \<times> ytype) list"

definition NewStructStore :: store where
  "NewStructStore = \<lparr>clients = [], types = []\<rparr>"

definition store_Structs :: "store \<Rightarrow> client_id \<Rightarrow> struct list" where
  "store_Structs s client = (case map_of (clients s) client of None \<Rightarrow> [] | Some ss \<Rightarrow> ss)"

definition State :: "store \<Rightarrow> client_id \<Rightarrow> clock" where
  "State s client =
     (let ss = store_Structs s client
      in if length ss = 0 then 0 else Clock (StructID (last ss)) + StructLen (last ss))"

definition store_StateVector :: "store \<Rightarrow> state_vector" where
  "store_StateVector s = map (\<lambda>(client, ss). (client, State s client)) (clients s)"

definition store_Clients :: "store \<Rightarrow> client_id list" where
  "store_Clients s = clientsDescending (clients s)"

definition set_structs :: "client_id \<Rightarrow> struct list \<Rightarrow> store \<Rightarrow> store" where
  "set_structs client ss s = s\<lparr>clients := AList.update client ss (clients s)\<rparr>"

definition Append :: "struct \<Rightarrow> store \<Rightarrow> store res" where
  "Append st s =
     (let i = StructID st
      in if State s (Client i) \<noteq> Clock i then Inl ErrClockGap
         else Inr (set_structs (Client i) (store_Structs s (Client i) @ [st]) s))"

subsection \<open>Items behind pointers\<close>

fun is_item_at :: "ID \<Rightarrow> struct \<Rightarrow> bool" where
  "is_item_at i (Item it) \<longleftrightarrow> item_ID it = i"
| "is_item_at i _ \<longleftrightarrow> False"

definition deref :: "store \<Rightarrow> ID \<Rightarrow> item option" where
  "deref s i =
     (case find (is_item_at i) (store_Structs s (Client i)) of
        Some (Item it) \<Rightarrow> Some it
      | _ \<Rightarrow> None)"

definition upd_struct :: "ID \<Rightarrow> (item \<Rightarrow> item) \<Rightarrow> struct \<Rightarrow> struct" where
  "upd_struct i f st = (case st of Item it \<Rightarrow> if item_ID it = i then Item (f it) else st | _ \<Rightarrow> st)"

definition upd_item :: "ID \<Rightarrow> (item \<Rightarrow> item) \<Rightarrow> store \<Rightarrow> store" where
  "upd_item i f s = s\<lparr>clients := AList.map_entry (Client i) (map (upd_struct i f)) (clients s)\<rparr>"

definition get_type :: "store \<Rightarrow> typeref \<Rightarrow> ytype" where
  "get_type s t = (case map_of (types s) t of Some y \<Rightarrow> y | None \<Rightarrow> newAbstractType typeRefUnknown)"

definition set_type :: "typeref \<Rightarrow> ytype \<Rightarrow> store \<Rightarrow> store" where
  "set_type t y s = s\<lparr>types := AList.update t y (types s)\<rparr>"

subsection \<open>Lookup\<close>

definition store_find :: "store \<Rightarrow> ID \<Rightarrow> nat res" where
  "store_find s i =
     (let ss = store_Structs s (Client i)
      in if length ss = 0 then Inl ErrMissingStruct
         else (let k = sort_Search (length ss)
                         (\<lambda>k. Clock i < Clock (StructID (ss ! k)) + StructLen (ss ! k))
               in if length ss \<le> k \<or> Clock i < Clock (StructID (ss ! k)) then Inl ErrMissingStruct
                  else Inr k))"

definition store_Get :: "store \<Rightarrow> ID \<Rightarrow> struct res" where
  "store_Get s i =
     (case store_find s i of Inl er \<Rightarrow> Inl er | Inr k \<Rightarrow> Inr (store_Structs s (Client i) ! k))"

definition GetItem :: "store \<Rightarrow> ID \<Rightarrow> item res" where
  "GetItem s i =
     (case store_Get s i of
        Inl er \<Rightarrow> Inl er
      | Inr (Item it) \<Rightarrow> Inr it
      | Inr _ \<Rightarrow> Inl ErrMissingStruct)"

subsection \<open>Splitting\<close>

definition split_right :: "item \<Rightarrow> nat \<Rightarrow> content \<Rightarrow> item" where
  "split_right it offset tail =
     (let client = Client (item_ID it); clock = Clock (item_ID it)
      in \<lparr>item_ID = ID client (clock + offset),
          Origin = Some (ID client (clock + offset - 1)),
          RightOrigin = RightOrigin it, Parent = Parent it,
          HasParentSub = HasParentSub it, ParentSub = ParentSub it, Content = tail,
          it_left = Some (item_ID it), it_right = it_right it, it_parent = it_parent it,
          it_deleted = it_deleted it, it_keep = it_keep it\<rparr>)"

definition set_map_item :: "typeref \<Rightarrow> bytes \<Rightarrow> ID \<Rightarrow> store \<Rightarrow> store" where
  "set_map_item t key i s =
     (let y = get_type s t in set_type t (y\<lparr>mapItems := AList.update key i (mapItems y)\<rparr>) s)"

definition splitItem :: "store \<Rightarrow> item \<Rightarrow> nat \<Rightarrow> nat \<Rightarrow> (item \<times> store) res" where
  "splitItem s it offset index =
     (case Splice (Content it) offset of
        Inl er \<Rightarrow> Inl er
      | Inr (head, tail) \<Rightarrow>
          (let right = split_right it offset tail;
               rid = item_ID right;
               s = upd_item (item_ID it) (\<lambda>x. x\<lparr>Content := head\<rparr>) s;
               s = (case it_right right of
                      Some r \<Rightarrow> upd_item r (\<lambda>x. x\<lparr>it_left := Some rid\<rparr>) s
                    | None \<Rightarrow> s);
               s = upd_item (item_ID it) (\<lambda>x. x\<lparr>it_right := Some rid\<rparr>) s;
               s = (case it_parent right of
                      Some t \<Rightarrow>
                        if HasParentSub right \<and> it_right right = None
                        then set_map_item t (ParentSub right) rid s else s
                    | None \<Rightarrow> s);
               ss = store_Structs s (Client (item_ID it));
               ss = take (index + 1) ss @ [Item right] @ drop (index + 1) ss
           in Inr (right, set_structs (Client (item_ID it)) ss s)))"

definition GetItemCleanStart :: "store \<Rightarrow> ID \<Rightarrow> (item \<times> store) res" where
  "GetItemCleanStart s i =
     (case store_find s i of
        Inl er \<Rightarrow> Inl er
      | Inr k \<Rightarrow>
          (case store_Structs s (Client i) ! k of
             Item it \<Rightarrow>
               (let offset = Clock i - Clock (item_ID it)
                in if offset = 0 then Inr (it, s) else splitItem s it offset k)
           | _ \<Rightarrow> Inl ErrMissingStruct))"

definition GetItemCleanEnd :: "store \<Rightarrow> ID \<Rightarrow> (item \<times> store) res" where
  "GetItemCleanEnd s i =
     (case store_find s i of
        Inl er \<Rightarrow> Inl er
      | Inr k \<Rightarrow>
          (case store_Structs s (Client i) ! k of
             Item it \<Rightarrow>
               (let offset = Clock i - Clock (item_ID it)
                in if offset = Len (Content it) - 1 then Inr (it, s)
                   else (case splitItem s it (offset + 1) k of
                           Inl er \<Rightarrow> Inl er
                         | Inr (right, s') \<Rightarrow>
                             (case deref s' (item_ID it) of
                                Some it' \<Rightarrow> Inr (it', s')
                              | None \<Rightarrow> Inl ErrMissingStruct)))
           | _ \<Rightarrow> Inl ErrMissingStruct))"

subsection \<open>The invariant\<close>

definition gapless :: "store \<Rightarrow> bool" where
  "gapless s \<longleftrightarrow> distinct (map fst (clients s))
     \<and> list_all (\<lambda>(c, ss). structs_at c 0 ss
          \<and> list_all (\<lambda>st. 0 < StructLen st \<and> (\<forall>i n. st \<noteq> Skip i n)) ss) (clients s)"

definition struct_covers :: "struct \<Rightarrow> clock \<Rightarrow> bool" where
  "struct_covers st k \<longleftrightarrow> Clock (StructID st) \<le> k \<and> k < Clock (StructID st) + StructLen st"

fun struct_deleted :: "struct \<Rightarrow> bool" where
  "struct_deleted (Item it) \<longleftrightarrow> it_deleted it"
| "struct_deleted (GC i n) \<longleftrightarrow> True"
| "struct_deleted (Skip i n) \<longleftrightarrow> False"

definition deleted_at :: "store \<Rightarrow> ID \<Rightarrow> bool" where
  "deleted_at s i \<longleftrightarrow> (\<exists>st\<in>set (store_Structs s (Client i)). struct_covers st (Clock i) \<and> struct_deleted st)"

subsection \<open>Lemmas: contiguous structs\<close>

lemma structs_at_append:
  "structs_at c k (xs @ ys) \<longleftrightarrow> structs_at c k xs \<and> structs_at c (k + structs_len xs) ys"
  by (induction xs arbitrary: k) (auto simp: algebra_simps)

lemma structs_len_append [simp]: "structs_len (xs @ ys) = structs_len xs + structs_len ys"
  by (simp add: structs_len_def)

lemma structs_at_nth:
  "structs_at c k ss \<Longrightarrow> i < length ss \<Longrightarrow> StructID (ss ! i) = ID c (k + structs_len (take i ss))"
  by (induction ss arbitrary: k i) (auto simp: nth_Cons take_Cons algebra_simps split: nat.splits)

lemma structs_at_cong:
  "map StructID ss = map StructID ss' \<Longrightarrow> map StructLen ss = map StructLen ss' \<Longrightarrow>
     structs_at c k ss \<longleftrightarrow> structs_at c k ss'"
proof (induction ss arbitrary: ss' k)
  case (Cons s ss)
  then obtain t ts where "ss' = t # ts" by (cases ss') auto
  with Cons show ?case by auto
qed simp

lemma structs_len_nth_le:
  "i < j \<Longrightarrow> j < length ss \<Longrightarrow> structs_len (take i ss) + StructLen (ss ! i) \<le> structs_len (take j ss)"
proof (induction ss arbitrary: i j)
  case (Cons s ss)
  then show ?case by (cases i; cases j) auto
qed simp

lemma gapless_structs:
  assumes "gapless s"
  shows "structs_at c 0 (store_Structs s c)"
    and "st \<in> set (store_Structs s c) \<Longrightarrow> 0 < StructLen st"
    and "st \<in> set (store_Structs s c) \<Longrightarrow> st \<noteq> Skip i n"
    and "st \<in> set (store_Structs s c) \<Longrightarrow> Client (StructID st) = c"
proof -
  have a: "structs_at c 0 (store_Structs s c) \<and> list_all (\<lambda>st. 0 < StructLen st \<and> (\<forall>i n. st \<noteq> Skip i n)) (store_Structs s c)"
  proof (cases "map_of (clients s) c")
    case (Some ss)
    then have "(c, ss) \<in> set (clients s)" by (rule map_of_SomeD)
    with assms Some show ?thesis unfolding gapless_def list_all_iff [of _ "clients s"]
      by (auto simp: store_Structs_def)
  qed (simp add: store_Structs_def)
  then show "structs_at c 0 (store_Structs s c)" by simp
  from a show "st \<in> set (store_Structs s c) \<Longrightarrow> 0 < StructLen st"
    and "st \<in> set (store_Structs s c) \<Longrightarrow> st \<noteq> Skip i n"
    by (auto simp: list_all_iff)
  show "st \<in> set (store_Structs s c) \<Longrightarrow> Client (StructID st) = c"
    using a structs_at_end by blast
qed

lemma State_len:
  assumes "gapless s"
  shows "State s c = structs_len (store_Structs s c)"
proof (cases "store_Structs s c" rule: rev_cases)
  case Nil
  then show ?thesis by (simp add: State_def)
next
  case (snoc ss st)
  with gapless_structs(1) [OF assms, of c] show ?thesis
    by (simp add: State_def structs_at_append)
qed

subsection \<open>Lemmas: binary search finds the covering struct\<close>

lemma struct_clock:
  assumes "gapless s" and "k < length (store_Structs s c)"
  shows "StructID (store_Structs s c ! k) = ID c (structs_len (take k (store_Structs s c)))"
  using structs_at_nth [OF gapless_structs(1) [OF assms(1)] assms(2)] by simp

lemma struct_ends:
  assumes "gapless s" and "a < b" and "b < length (store_Structs s c)"
  shows "Clock (StructID (store_Structs s c ! a)) + StructLen (store_Structs s c ! a)
     \<le> Clock (StructID (store_Structs s c ! b))"
  using structs_len_nth_le [OF assms(2,3)] struct_clock [OF assms(1), of a c] struct_clock [OF assms(1,3)] assms(2,3)
  by simp

lemma covers_unique:
  assumes "gapless s" and "a < length (store_Structs s c)" and "b < length (store_Structs s c)"
    and "struct_covers (store_Structs s c ! a) k" and "struct_covers (store_Structs s c ! b) k"
  shows "a = b"
  using struct_ends [OF assms(1), of a b c] struct_ends [OF assms(1), of b a c] assms(2-)
  by (cases a b rule: linorder_cases) (auto simp: struct_covers_def)

lemma struct_unique:
  assumes "gapless s" and "st \<in> set (store_Structs s c)" and "st' \<in> set (store_Structs s c)"
    and "struct_covers st k" and "struct_covers st' k"
  shows "st = st'"
  using assms covers_unique by (metis in_set_conv_nth)

lemma store_find_iff:
  assumes "gapless s"
  shows "store_find s i = Inr k \<longleftrightarrow>
     k < length (store_Structs s (Client i)) \<and> struct_covers (store_Structs s (Client i) ! k) (Clock i)"
proof -
  let ?ss = "store_Structs s (Client i)"
  let ?f = "\<lambda>k. Clock i < Clock (StructID (?ss ! k)) + StructLen (?ss ! k)"
  have mono: "\<forall>a b. a \<le> b \<longrightarrow> b < length ?ss \<longrightarrow> ?f a \<longrightarrow> ?f b"
    using struct_ends [OF assms] by (metis le_neq_implies_less less_le_trans trans_less_add1)
  let ?k = "sort_Search (length ?ss) ?f"
  note least = sort_Search_least [OF mono]
  show ?thesis
  proof
    assume "store_find s i = Inr k"
    then have "k = ?k" "?k < length ?ss" "Clock (StructID (?ss ! ?k)) \<le> Clock i"
      by (auto simp: store_find_def Let_def not_le not_less split: if_splits)
    moreover have "?f ?k" using least(3) calculation(2) by blast
    ultimately show "k < length ?ss \<and> struct_covers (?ss ! k) (Clock i)" by (simp add: struct_covers_def)
  next
    assume k: "k < length ?ss \<and> struct_covers (?ss ! k) (Clock i)"
    have "\<not> ?f j" if "j < k" for j
      using struct_ends [OF assms that, of "Client i"] k by (auto simp: struct_covers_def)
    then have "?k = k" using k by (intro sort_Search_eqI [OF mono]) (auto simp: struct_covers_def)
    with k show "store_find s i = Inr k" by (auto simp: store_find_def Let_def struct_covers_def)
  qed
qed

lemma covered_iff_State:
  assumes "gapless s"
  shows "(\<exists>st\<in>set (store_Structs s c). struct_covers st k) \<longleftrightarrow> k < State s c"
proof -
  have "structs_at c n ss \<Longrightarrow> n \<le> k \<Longrightarrow> (\<exists>st\<in>set ss. struct_covers st k) \<longleftrightarrow> k < n + structs_len ss" for n ss
  proof (induction ss arbitrary: n)
    case (Cons s ss)
    show ?case
    proof (cases "k < n + StructLen s")
      case True
      with Cons.prems show ?thesis by (auto simp: struct_covers_def)
    next
      case False
      with Cons.prems have "\<not> struct_covers s k" by (simp add: struct_covers_def)
      with False Cons.prems Cons.IH [of "n + StructLen s"] show ?thesis by (simp add: add.assoc)
    qed
  qed simp
  from this [of 0 "store_Structs s c"] gapless_structs(1) [OF assms] show ?thesis
    by (simp add: State_len [OF assms])
qed

lemma store_find_State:
  assumes "gapless s"
  shows "(\<exists>k. store_find s i = Inr k) \<longleftrightarrow> Clock i < State s (Client i)"
  using covered_iff_State [OF assms, of "Client i" "Clock i"]
  by (simp add: store_find_iff [OF assms] in_set_conv_nth Bex_def) blast

lemma store_Get_iff:
  assumes "gapless s"
  shows "store_Get s i = Inr st \<longleftrightarrow> st \<in> set (store_Structs s (Client i)) \<and> struct_covers st (Clock i)"
proof
  assume "store_Get s i = Inr st"
  then obtain k where "store_find s i = Inr k" "st = store_Structs s (Client i) ! k"
    by (auto simp: store_Get_def split: sum.splits)
  then show "st \<in> set (store_Structs s (Client i)) \<and> struct_covers st (Clock i)"
    by (simp add: store_find_iff [OF assms])
next
  assume a: "st \<in> set (store_Structs s (Client i)) \<and> struct_covers st (Clock i)"
  then obtain k where k: "k < length (store_Structs s (Client i))" "st = store_Structs s (Client i) ! k"
    by (auto simp: in_set_conv_nth)
  with a have "store_find s i = Inr k" by (simp add: store_find_iff [OF assms])
  with k show "store_Get s i = Inr st" by (simp add: store_Get_def)
qed

lemma GetItem_iff:
  assumes "gapless s"
  shows "GetItem s i = Inr it \<longleftrightarrow> Item it \<in> set (store_Structs s (Client i)) \<and> struct_covers (Item it) (Clock i)"
  unfolding store_Get_iff [OF assms, symmetric] GetItem_def
  by (auto split: sum.splits struct.splits)

subsection \<open>Lemmas: pointers\<close>

lemma struct_at_own_clock: "gapless s \<Longrightarrow> st \<in> set (store_Structs s c) \<Longrightarrow> struct_covers st (Clock (StructID st))"
  using gapless_structs(2) by (simp add: struct_covers_def)

lemma deref_iff:
  assumes "gapless s"
  shows "deref s i = Some it \<longleftrightarrow> Item it \<in> set (store_Structs s (Client i)) \<and> item_ID it = i"
proof
  assume "deref s i = Some it"
  then have f: "find (is_item_at i) (store_Structs s (Client i)) = Some (Item it)"
    by (auto simp: deref_def split: option.splits struct.splits)
  then obtain k where "k < length (store_Structs s (Client i))" "is_item_at i (Item it)"
    "Item it = store_Structs s (Client i) ! k"
    using f by (auto simp: find_Some_iff)
  then show "Item it \<in> set (store_Structs s (Client i)) \<and> item_ID it = i"
    by (metis is_item_at.simps(1) nth_mem)
next
  assume a: "Item it \<in> set (store_Structs s (Client i)) \<and> item_ID it = i"
  then obtain st where st: "find (is_item_at i) (store_Structs s (Client i)) = Some st"
    by (cases "find (is_item_at i) (store_Structs s (Client i))") (auto simp: find_None_iff)
  then have "st \<in> set (store_Structs s (Client i))" "is_item_at i st"
    by (auto simp: find_Some_iff in_set_conv_nth)
  moreover obtain it' where "st = Item it'" using calculation(2) by (cases st) auto
  ultimately have "Item it' = Item it"
    using a struct_at_own_clock [OF assms, of "Item it" "Client i"]
      struct_at_own_clock [OF assms, of "Item it'" "Client i"]
    by (intro struct_unique [OF assms, of _ "Client i" _ "Clock i"]) auto
  with st \<open>st = Item it'\<close> show "deref s i = Some it" by (simp add: deref_def)
qed

lemma deref_ID: "gapless s \<Longrightarrow> deref s i = Some it \<Longrightarrow> item_ID it = i"
  by (simp add: deref_iff)

lemma deref_in: "gapless s \<Longrightarrow> Item it \<in> set (store_Structs s c) \<Longrightarrow> deref s (item_ID it) = Some it"
  using gapless_structs(4) [of s "Item it" c] by (simp add: deref_iff)

lemma GetItem_deref: "gapless s \<Longrightarrow> GetItem s i = Inr it \<Longrightarrow> deref s (item_ID it) = Some it"
  using deref_in [of s it "Client i"] by (simp add: GetItem_iff)

subsection \<open>Lemmas: assignments\<close>

lemma store_Structs_set [simp]:
  "store_Structs (set_structs c ss s) c' = (if c' = c then ss else store_Structs s c')"
  by (simp add: store_Structs_def set_structs_def update_conv')

lemma store_Structs_set_type [simp]:
  "store_Structs (set_type t y s) c = store_Structs s c" "store_Structs (set_map_item t k i s) c = store_Structs s c"
  by (simp_all add: store_Structs_def set_type_def set_map_item_def Let_def)

lemma store_Structs_upd [simp]:
  "store_Structs (upd_item i f s) c =
     (if c = Client i then map (upd_struct i f) (store_Structs s c) else store_Structs s c)"
  by (simp add: store_Structs_def upd_item_def map_of_map_entry split: option.splits)

lemma gapless_alt:
  "gapless s \<longleftrightarrow> distinct (map fst (clients s)) \<and> (\<forall>c. structs_at c 0 (store_Structs s c)
     \<and> (\<forall>st\<in>set (store_Structs s c). 0 < StructLen st \<and> (\<forall>i n. st \<noteq> Skip i n)))"
  (is "_ \<longleftrightarrow> _ \<and> ?all")
proof
  assume g: "gapless s"
  then show "distinct (map fst (clients s)) \<and> ?all"
    using gapless_structs(1,2,3) [OF g] by (simp add: gapless_def [of s])
next
  assume a: "distinct (map fst (clients s)) \<and> ?all"
  have "store_Structs s c = ss" if "(c, ss) \<in> set (clients s)" for c ss
    using a that by (simp add: store_Structs_def)
  with a show "gapless s" unfolding gapless_def by (fastforce simp: list_all_iff)
qed

lemma gapless_cong:
  assumes "gapless s" and "distinct (map fst (clients s'))"
    and "\<And>c. map StructID (store_Structs s' c) = map StructID (store_Structs s c)"
    and "\<And>c. map StructLen (store_Structs s' c) = map StructLen (store_Structs s c)"
    and "\<And>c st i n. st \<in> set (store_Structs s' c) \<Longrightarrow> st \<noteq> Skip i n"
  shows "gapless s'" and "State s' c = State s c"
proof -
  have len: "\<forall>st\<in>set (store_Structs s' c). 0 < StructLen st" for c
  proof -
    have "\<forall>n\<in>set (map StructLen (store_Structs s c)). 0 < n" using gapless_structs(2) [OF assms(1)] by auto
    then show ?thesis unfolding assms(4) [symmetric] by simp
  qed
  show g: "gapless s'"
    unfolding gapless_alt
    using assms(2,5) len structs_at_cong [OF assms(3,4)] gapless_structs(1) [OF assms(1)] by blast
  show "State s' c = State s c"
    unfolding State_len [OF g] State_len [OF assms(1)] structs_len_def by (simp only: assms(4))
qed

lemma map_fst_map_entry: "map fst (AList.map_entry k f m) = map fst m"
  by (induction m) auto

lemma distinct_clients_upd [simp]:
  "distinct (map fst (clients (upd_item i f s))) \<longleftrightarrow> distinct (map fst (clients s))"
  "distinct (map fst (clients s)) \<Longrightarrow> distinct (map fst (clients (set_structs c ss s)))"
  "clients (set_type t y s) = clients s" "clients (set_map_item t k i s) = clients s"
  by (simp_all add: upd_item_def set_structs_def set_type_def set_map_item_def Let_def
      map_fst_map_entry AList.distinct_update)

lemma upd_struct_simps [simp]:
  "(\<And>x. item_ID (f x) = item_ID x) \<Longrightarrow> StructID (upd_struct i f st) = StructID st"
  "(\<And>x. Len (Content (f x)) = Len (Content x)) \<Longrightarrow> StructLen (upd_struct i f st) = StructLen st"
  "(\<And>x. it_deleted (f x) = it_deleted x) \<Longrightarrow> struct_deleted (upd_struct i f st) = struct_deleted st"
  "upd_struct i f st = Skip j n \<longleftrightarrow> st = Skip j n"
  by (cases st; simp add: upd_struct_def)+

lemma upd_struct_other: "StructID st \<noteq> i \<Longrightarrow> upd_struct i f st = st"
  by (cases st) (auto simp: upd_struct_def)

lemma deref_upd:
  assumes "\<And>x. item_ID (f x) = item_ID x"
  shows "deref (upd_item i f s) j = (if j = i then map_option f (deref s j) else deref s j)"
proof -
  have "find (is_item_at j) (map (upd_struct i f) ss)
      = (if j = i then map_option (upd_struct i f) (find (is_item_at j) ss) else find (is_item_at j) ss)" for ss
  proof (induction ss)
    case (Cons st ss)
    have "is_item_at j (upd_struct i f st) \<longleftrightarrow> is_item_at j st"
      by (cases st) (simp_all add: upd_struct_def assms)
    moreover have "j \<noteq> i \<Longrightarrow> is_item_at j st \<Longrightarrow> upd_struct i f st = st"
      by (cases st) (simp_all add: upd_struct_def)
    ultimately show ?case using Cons.IH by auto
  qed simp
  moreover have "find (is_item_at j) ss = Some (Item x) \<Longrightarrow> item_ID x = j" for ss x
    by (induction ss) (auto split: if_splits)
  ultimately show ?thesis
    by (auto simp: deref_def upd_struct_def split: option.splits struct.splits)
qed

lemma deref_set_type [simp]:
  "deref (set_type t y s) j = deref s j" "deref (set_map_item t k i s) j = deref s j"
  by (simp_all add: deref_def)

lemma gapless_upd:
  assumes "gapless s" and "\<And>x. item_ID (f x) = item_ID x" and "\<And>x. Len (Content (f x)) = Len (Content x)"
  shows "gapless (upd_item i f s)" and "State (upd_item i f s) c = State s c"
proof -
  have d: "distinct (map fst (clients (upd_item i f s)))" using assms(1) by (simp add: gapless_def)
  have m: "map StructID (store_Structs (upd_item i f s) c) = map StructID (store_Structs s c)"
    "map StructLen (store_Structs (upd_item i f s) c) = map StructLen (store_Structs s c)"
    "st \<in> set (store_Structs (upd_item i f s) c) \<Longrightarrow> st \<noteq> Skip j n" for c st j n
    using gapless_structs(3) [OF assms(1)] by (auto simp: assms(2,3) comp_def split: if_splits)
  show "gapless (upd_item i f s)" by (rule gapless_cong(1) [OF assms(1) d]) (fact m)+
  show "State (upd_item i f s) c = State s c" by (rule gapless_cong(2) [OF assms(1) d]) (fact m)+
qed

lemma gapless_set_type [simp]:
  "gapless (set_type t y s) \<longleftrightarrow> gapless s" "State (set_type t y s) c = State s c"
  "gapless (set_map_item t k i s) \<longleftrightarrow> gapless s" "State (set_map_item t k i s) c = State s c"
  by (simp_all add: gapless_alt State_def)

lemma deleted_at_upd:
  assumes "\<And>x. item_ID (f x) = item_ID x" and "\<And>x. Len (Content (f x)) = Len (Content x)"
    and "\<And>x. it_deleted x \<Longrightarrow> it_deleted (f x)" and "deleted_at s j"
  shows "deleted_at (upd_item i f s) j"
proof -
  obtain st where st: "st \<in> set (store_Structs s (Client j))" "struct_covers st (Clock j)" "struct_deleted st"
    using assms(4) by (auto simp: deleted_at_def)
  have "struct_covers (upd_struct i f st) (Clock j)" "struct_deleted (upd_struct i f st)"
    using st(2,3) assms(1-3) by (auto simp: struct_covers_def upd_struct_def split: struct.splits)
  with st show ?thesis unfolding deleted_at_def by (cases "Client j = Client i") auto
qed

lemma deleted_at_set_type [simp]:
  "deleted_at (set_type t y s) j = deleted_at s j" "deleted_at (set_map_item t k i s) j = deleted_at s j"
  by (simp_all add: deleted_at_def)

subsection \<open>Lemmas: appending\<close>

lemma Append_structs:
  assumes "Append st s = Inr s'"
  shows "store_Structs s' c = store_Structs s c @ (if c = Client (StructID st) then [st] else [])"
    and "State s (Client (StructID st)) = Clock (StructID st)" and "types s' = types s"
  using assms by (auto simp: Append_def Let_def set_structs_def [of _ _ s] store_Structs_def update_conv'
      split: if_splits)

lemma Append_gapless:
  assumes "gapless s" and "Append st s = Inr s'" and "0 < StructLen st" and "\<And>i n. st \<noteq> Skip i n"
  shows "gapless s'" and "State s' c = State s c + (if c = Client (StructID st) then StructLen st else 0)"
proof -
  note a = Append_structs [OF assms(2)]
  have i: "StructID st = ID (Client (StructID st)) (structs_len (store_Structs s (Client (StructID st))))"
    using a(2) State_len [OF assms(1)] by (metis ID.collapse)
  have "distinct (map fst (clients s'))"
    using assms(1,2) by (auto simp: Append_def Let_def gapless_def split: if_splits)
  then show g: "gapless s'"
    unfolding gapless_alt a(1) using assms(1,3,4) i gapless_structs(2,3) [OF assms(1)]
    by (auto simp: structs_at_append gapless_structs(1))
  show "State s' c = State s c + (if c = Client (StructID st) then StructLen st else 0)"
    unfolding State_len [OF g] State_len [OF assms(1)] a(1) by simp
qed

lemma deref_Append:
  assumes "gapless s" and "Append st s = Inr s'" and "0 < StructLen st" and "\<And>i n. st \<noteq> Skip i n"
  shows "deref s' j = (if is_item_at j st then (case st of Item it \<Rightarrow> Some it | _ \<Rightarrow> None) else deref s j)"
proof -
  note a = Append_structs [OF assms(2)]
  have new: "\<not> is_item_at (StructID st) st'" if "st' \<in> set (store_Structs s (Client (StructID st)))" for st'
  proof
    assume "is_item_at (StructID st) st'"
    then have "StructID st' = StructID st" by (cases st') auto
    with struct_at_own_clock [OF assms(1) that] that
    have "Clock (StructID st) < State s (Client (StructID st))"
      using covered_iff_State [OF assms(1)] by auto
    with a(2) show False by simp
  qed
  have app: "find P (xs @ ys) = (case find P xs of None \<Rightarrow> find P ys | Some x \<Rightarrow> Some x)" for P and xs ys :: "struct list"
    by (induction xs) auto
  show ?thesis
  proof (cases "is_item_at j st")
    case True
    then have "j = StructID st" "find (is_item_at j) (store_Structs s (Client j)) = None"
      using new by (cases st; auto simp: find_None_iff)+
    with True show ?thesis by (cases st) (auto simp: deref_def a(1) app)
  next
    case False
    then show ?thesis by (auto simp: deref_def a(1) app split: option.splits)
  qed
qed

subsection \<open>Lemmas: splitting\<close>

definition split_left :: "item \<Rightarrow> content \<Rightarrow> ID \<Rightarrow> item" where
  "split_left it head rid = it\<lparr>Content := head, it_right := Some rid\<rparr>"

definition relink :: "item \<Rightarrow> ID \<Rightarrow> struct \<Rightarrow> struct" where
  "relink it rid = (case it_right it of
     Some r \<Rightarrow> upd_struct r (\<lambda>x. x\<lparr>it_left := Some rid\<rparr>) | None \<Rightarrow> (\<lambda>st. st))"

lemma relink_simps [simp]:
  "StructID (relink it rid st) = StructID st" "StructLen (relink it rid st) = StructLen st"
  "struct_deleted (relink it rid st) = struct_deleted st" "relink it rid st = Skip j n \<longleftrightarrow> st = Skip j n"
  by (simp_all add: relink_def split: option.splits)

lemma structs_at_relink [simp]: "structs_at c k (map (relink it rid) xs) \<longleftrightarrow> structs_at c k xs"
  by (rule structs_at_cong) (simp_all add: comp_def)

lemma structs_len_relink [simp]: "structs_len (map (relink it rid) xs) = structs_len xs"
  by (simp add: structs_len_def comp_def)

lemma split_right_simps [simp]:
  "item_ID (split_right it n tail) = ID (Client (item_ID it)) (Clock (item_ID it) + n)"
  "Content (split_right it n tail) = tail" "it_deleted (split_right it n tail) = it_deleted it"
  "it_left (split_right it n tail) = Some (item_ID it)" "it_right (split_right it n tail) = it_right it"
  "it_parent (split_right it n tail) = it_parent it" "HasParentSub (split_right it n tail) = HasParentSub it"
  "ParentSub (split_right it n tail) = ParentSub it"
  by (simp_all add: split_right_def Let_def)

lemma split_left_simps [simp]:
  "item_ID (split_left it head rid) = item_ID it" "Content (split_left it head rid) = head"
  "it_deleted (split_left it head rid) = it_deleted it" "it_left (split_left it head rid) = it_left it"
  "it_right (split_left it head rid) = Some rid" "it_parent (split_left it head rid) = it_parent it"
  by (simp_all add: split_left_def)

lemma splitItem_Inr:
  assumes "splitItem s it n k = Inr (right, s')"
  obtains head tail where "Splice (Content it) n = Inr (head, tail)" and "right = split_right it n tail"
  using assms by (auto simp: splitItem_def Let_def split: sum.splits prod.splits)

text \<open>Every struct is in the list of its own client, so an assignment can be seen as a map over all lists.\<close>

definition homed :: "store \<Rightarrow> bool" where
  "homed s \<longleftrightarrow> (\<forall>c. \<forall>st\<in>set (store_Structs s c). Client (StructID st) = c)"

lemma gapless_homed: "gapless s \<Longrightarrow> homed s"
  using gapless_structs(4) by (simp add: homed_def)

lemma upd_structs_homed:
  assumes "homed s"
  shows "store_Structs (upd_item i f s) c = map (upd_struct i f) (store_Structs s c)"
proof (cases "c = Client i")
  case False
  then have "\<forall>st\<in>set (store_Structs s c). StructID st \<noteq> i" using assms by (auto simp: homed_def)
  then have "map (upd_struct i f) (store_Structs s c) = store_Structs s c"
    by (simp add: map_idI upd_struct_other)
  with False show ?thesis by simp
qed simp

lemma homed_upd: "homed s \<Longrightarrow> (\<And>x. item_ID (f x) = item_ID x) \<Longrightarrow> homed (upd_item i f s)"
  by (auto simp: homed_def split: if_splits)

lemma nth_other:
  assumes "x \<in> set (take k xs) \<union> set (drop (Suc k) xs)"
  shows "\<exists>j < length xs. j \<noteq> k \<and> x = xs ! j"
  using assms
proof
  assume "x \<in> set (take k xs)"
  then obtain j where "j < length (take k xs)" "x = take k xs ! j" by (metis in_set_conv_nth)
  then show ?thesis by (intro exI [of _ j]) simp
next
  assume "x \<in> set (drop (Suc k) xs)"
  then obtain j where "j < length (drop (Suc k) xs)" "x = drop (Suc k) xs ! j" by (metis in_set_conv_nth)
  then show ?thesis by (intro exI [of _ "Suc k + j"]) simp
qed

lemma splitItem_structs:
  assumes g: "gapless s" and k: "k < length (store_Structs s (Client (item_ID it)))"
    and it: "store_Structs s (Client (item_ID it)) ! k = Item it"
    and sp: "Splice (Content it) n = Inr (head, tail)"
    and self: "it_right it \<noteq> Some (item_ID it)"
    and r: "splitItem s it n k = Inr (right, s')"
  defines "ss \<equiv> store_Structs s (Client (item_ID it))" and "rid \<equiv> item_ID right"
  shows "store_Structs s' c = (if c = Client (item_ID it)
      then map (relink it rid) (take k ss) @ Item (split_left it head rid) # Item right # map (relink it rid) (drop (Suc k) ss)
      else map (relink it rid) (store_Structs s c))"
proof -
  have right: "right = split_right it n tail" using sp splitItem_Inr [OF r] by auto
  have rid: "rid = ID (Client (item_ID it)) (Clock (item_ID it) + n)" by (simp add: rid_def right)
  define f1 where "f1 = upd_struct (item_ID it) (\<lambda>x. x\<lparr>Content := head\<rparr>)"
  define f3 where "f3 = upd_struct (item_ID it) (\<lambda>x. x\<lparr>it_right := Some rid\<rparr>)"
  define s1 where "s1 = upd_item (item_ID it) (\<lambda>x. x\<lparr>it_right := Some rid\<rparr>)
      ((case it_right it of Some r \<Rightarrow> upd_item r (\<lambda>x. x\<lparr>it_left := Some rid\<rparr>) | None \<Rightarrow> (\<lambda>s. s))
        (upd_item (item_ID it) (\<lambda>x. x\<lparr>Content := head\<rparr>) s))"
  have h: "homed s" by (rule gapless_homed [OF g])
  have s1: "store_Structs s1 c = map (\<lambda>st. f3 (relink it rid (f1 st))) (store_Structs s c)" for c
    unfolding s1_def relink_def f1_def f3_def
    by (cases "it_right it") (simp_all add: upd_structs_homed homed_upd h comp_def del: store_Structs_upd)
  have s': "store_Structs s' c = (if c = Client (item_ID it)
      then take (k + 1) (store_Structs s1 c) @ Item right # drop (k + 1) (store_Structs s1 c)
      else store_Structs s1 c)"
    using r sp unfolding splitItem_def s1_def rid_def
    by (auto simp: Let_def right split: option.splits if_splits)
  have ss: "ss = take k ss @ Item it # drop (Suc k) ss"
    using id_take_nth_drop [OF k] it by (simp add: ss_def)
  have other: "StructID st \<noteq> item_ID it" if "st \<in> set (take k ss) \<union> set (drop (Suc k) ss)" for st
  proof
    assume i: "StructID st = item_ID it"
    from nth_other [OF that] obtain j where j: "j < length ss" "j \<noteq> k" "st = ss ! j" by blast
    have "struct_covers (ss ! j) (Clock (item_ID it))" "struct_covers (ss ! k) (Clock (item_ID it))"
      using struct_at_own_clock [OF g, of "ss ! j" "Client (item_ID it)"] j i
        struct_at_own_clock [OF g, of "ss ! k" "Client (item_ID it)"] k it nth_mem [OF k]
      by (auto simp: ss_def)
    with covers_unique [OF g, of j "Client (item_ID it)" k] j k show False by (auto simp: ss_def)
  qed
  have "f3 (relink it rid (f1 st)) = relink it rid st" if "st \<in> set (take k ss) \<union> set (drop (Suc k) ss)" for st
    using other [OF that] by (simp add: f1_def f3_def upd_struct_other)
  then have m: "map (\<lambda>st. f3 (relink it rid (f1 st))) (take k ss) = map (relink it rid) (take k ss)"
    "map (\<lambda>st. f3 (relink it rid (f1 st))) (drop (Suc k) ss) = map (relink it rid) (drop (Suc k) ss)"
    by simp_all
  have mid: "f3 (relink it rid (f1 (Item it))) = Item (split_left it head rid)"
    using self by (auto simp: f1_def f3_def relink_def upd_struct_def split_left_def split: option.splits)
  have "store_Structs s1 (Client (item_ID it)) = map (relink it rid) (take k ss) @ Item (split_left it head rid)
      # map (relink it rid) (drop (Suc k) ss)"
    unfolding s1 ss_def [symmetric] by (subst ss) (simp add: m mid)
  moreover have "length (take k ss) = k" using k by (simp add: ss_def)
  moreover have "store_Structs s1 c = map (relink it rid) (store_Structs s c)" if "c \<noteq> Client (item_ID it)"
  proof -
    have "f3 (relink it rid (f1 st)) = relink it rid st" if "st \<in> set (store_Structs s c)" for st
    proof -
      have "Client (StructID st) = c" using that h by (simp add: homed_def)
      then have "StructID st \<noteq> item_ID it" using \<open>c \<noteq> Client (item_ID it)\<close> by metis
      then show ?thesis by (simp add: f1_def f3_def upd_struct_other)
    qed
    then show ?thesis by (simp add: s1)
  qed
  ultimately show ?thesis unfolding s' by auto
qed

text \<open>What a split does, in terms of the clock space, of pointers and of deletions.\<close>

lemma split_setup:
  assumes "gapless s" and "k < length (store_Structs s (Client (item_ID it)))"
    and "store_Structs s (Client (item_ID it)) ! k = Item it"
    and "0 < n" and "n < Len (Content it)" and "it_right it \<noteq> Some (item_ID it)"
    and "splitItem s it n k = Inr (right, s')"
  obtains A B head tail where "Splice (Content it) n = Inr (head, tail)" and "right = split_right it n tail"
    and "Len head = n" and "Len tail = Len (Content it) - n"
    and "store_Structs s (Client (item_ID it)) = A @ Item it # B"
    and "\<And>c. store_Structs s' c = (if c = Client (item_ID it)
      then map (relink it (item_ID right)) A @ Item (split_left it head (item_ID right)) # Item right
        # map (relink it (item_ID right)) B
      else map (relink it (item_ID right)) (store_Structs s c))"
proof -
  obtain head tail where sp: "Splice (Content it) n = Inr (head, tail)" "right = split_right it n tail"
    using splitItem_Inr [OF assms(7)] by blast
  have "Len head = n" "Len tail = Len (Content it) - n"
    using Splice_Len [OF sp(1)] assms(5) by simp_all
  moreover have "store_Structs s (Client (item_ID it)) = take k (store_Structs s (Client (item_ID it)))
      @ Item it # drop (Suc k) (store_Structs s (Client (item_ID it)))"
    using id_take_nth_drop [OF assms(2)] assms(3) by simp
  ultimately show ?thesis
    using sp splitItem_structs [OF assms(1-3) sp(1) assms(6,7)] by (intro that) blast+
qed

lemma splitItem_clients:
  assumes "splitItem s it n k = Inr (right, s')" and "distinct (map fst (clients s))"
  shows "distinct (map fst (clients s'))"
  using assms unfolding splitItem_def
  by (auto simp: Let_def split: sum.splits prod.splits option.splits if_splits)

lemma splitItem_gapless:
  assumes "gapless s" and "k < length (store_Structs s (Client (item_ID it)))"
    and "store_Structs s (Client (item_ID it)) ! k = Item it"
    and "0 < n" and "n < Len (Content it)" and "it_right it \<noteq> Some (item_ID it)"
    and r: "splitItem s it n k = Inr (right, s')"
  shows "gapless s'" and "State s' c = State s c"
proof -
  obtain A B head tail where sp: "right = split_right it n tail" "Len head = n" "Len tail = Len (Content it) - n"
    and ss: "store_Structs s (Client (item_ID it)) = A @ Item it # B"
    and ss': "\<And>c. store_Structs s' c = (if c = Client (item_ID it)
      then map (relink it (item_ID right)) A @ Item (split_left it head (item_ID right)) # Item right
        # map (relink it (item_ID right)) B
      else map (relink it (item_ID right)) (store_Structs s c))"
    by (rule split_setup [OF assms]) blast
  let ?m = "map (relink it (item_ID right))"
  have pos: "0 < StructLen st \<and> (\<forall>i n. st \<noteq> Skip i n)" if "st \<in> set (store_Structs s c)" for st c
    using that gapless_structs(2,3) [OF assms(1)] by blast
  have "item_ID it = ID (Client (item_ID it)) (structs_len A)"
    using gapless_structs(1) [OF assms(1), of "Client (item_ID it)"] by (simp add: ss structs_at_append)
  then have "Clock (item_ID it) = structs_len A" by (metis ID.sel(2))
  then have "structs_at c 0 (store_Structs s' c)" for c
    using gapless_structs(1) [OF assms(1), of c] ss assms(4,5)
    by (auto simp: ss' structs_at_append sp add.assoc)
  moreover have "0 < StructLen st \<and> (\<forall>i n. st \<noteq> Skip i n)" if "st \<in> set (store_Structs s' c)" for st c
    using that pos [of _ "Client (item_ID it)"] pos [of _ c] assms(4,5)
    by (auto simp: ss' ss sp(2,3) sp(1)[symmetric] split: if_splits) (simp_all add: sp)
  ultimately show g: "gapless s'"
    unfolding gapless_alt using splitItem_clients [OF r] assms(1) by (auto simp: gapless_def)
  show "State s' c = State s c"
    unfolding State_len [OF g] State_len [OF assms(1)] ss'
    using assms(5) by (auto simp: ss sp)
qed

lemma struct_deleted_split [simp]:
  "struct_deleted (Item (split_left it head rid)) \<longleftrightarrow> it_deleted it"
  "struct_deleted (Item (split_right it n tail)) \<longleftrightarrow> it_deleted it"
  by simp_all

lemma relink_covers [simp]: "struct_covers (relink it rid st) k \<longleftrightarrow> struct_covers st k"
  by (simp add: struct_covers_def)

lemma splitItem_deleted:
  assumes "gapless s" and "k < length (store_Structs s (Client (item_ID it)))"
    and "store_Structs s (Client (item_ID it)) ! k = Item it"
    and "0 < n" and "n < Len (Content it)" and "it_right it \<noteq> Some (item_ID it)"
    and r: "splitItem s it n k = Inr (right, s')"
  shows "deleted_at s' i \<longleftrightarrow> deleted_at s i"
proof -
  obtain A B head tail where sp: "right = split_right it n tail" "Len head = n" "Len tail = Len (Content it) - n"
    and ss: "store_Structs s (Client (item_ID it)) = A @ Item it # B"
    and ss': "\<And>c. store_Structs s' c = (if c = Client (item_ID it)
      then map (relink it (item_ID right)) A @ Item (split_left it head (item_ID right)) # Item right
        # map (relink it (item_ID right)) B
      else map (relink it (item_ID right)) (store_Structs s c))"
    by (rule split_setup [OF assms]) blast
  have "struct_covers (Item it) (Clock i) \<longleftrightarrow>
      struct_covers (Item (split_left it head (item_ID right))) (Clock i) \<or> struct_covers (Item right) (Clock i)"
    using assms(5) by (auto simp: struct_covers_def sp)
  then show ?thesis
    by (cases "Client i = Client (item_ID it)") (simp_all add: deleted_at_def ss' ss sp(1) bex_Un, blast)
qed

lemma splitItem_deref:
  assumes "gapless s" and "k < length (store_Structs s (Client (item_ID it)))"
    and "store_Structs s (Client (item_ID it)) ! k = Item it"
    and "0 < n" and "n < Len (Content it)" and "it_right it \<noteq> Some (item_ID it)"
    and r: "splitItem s it n k = Inr (right, s')" and "Splice (Content it) n = Inr (head, tail)"
  shows "deref s' j = (if j = item_ID right then Some right
     else if j = item_ID it then Some (split_left it head (item_ID right))
     else if it_right it = Some j then map_option (\<lambda>x. x\<lparr>it_left := Some (item_ID right)\<rparr>) (deref s j)
     else deref s j)"
    and "deref s (item_ID right) = None"
proof -
  let ?rid = "item_ID right" and ?c = "Client (item_ID it)"
  obtain A B head' tail' where sp: "Splice (Content it) n = Inr (head', tail')" "right = split_right it n tail'"
      "Len head' = n"
    and ss: "store_Structs s ?c = A @ Item it # B"
    and ss': "\<And>c. store_Structs s' c = (if c = ?c
      then map (relink it ?rid) A @ Item (split_left it head' ?rid) # Item right # map (relink it ?rid) B
      else map (relink it ?rid) (store_Structs s c))"
    by (rule split_setup [OF assms(1-7)]) blast
  have ht: "head' = head" using sp(1) assms(8) by simp
  note g' = splitItem_gapless(1) [OF assms(1-7)]
  have it_in: "Item it \<in> set (store_Structs s ?c)" by (simp add: ss)
  have not_right: "it_right it \<noteq> Some (item_ID it)" by (rule assms(6))
  have none: "deref s ?rid = None"
  proof (rule ccontr)
    assume "deref s ?rid \<noteq> None"
    then obtain x where x: "Item x \<in> set (store_Structs s ?c)" "item_ID x = ?rid"
      by (auto simp: deref_iff [OF assms(1)] sp)
    have "struct_covers (Item it) (Clock ?rid)" using assms(4,5) by (simp add: struct_covers_def sp)
    moreover have "struct_covers (Item x) (Clock ?rid)" using struct_at_own_clock [OF assms(1) x(1)] x(2) by simp
    ultimately have "x = it" using struct_unique [OF assms(1) x(1) it_in] by blast
    with x(2) assms(4) show False by (cases "item_ID it") (simp add: sp)
  qed
  then show "deref s ?rid = None" .
  have itm: "relink it ?rid (Item y) = Item x \<longleftrightarrow>
      x = (if it_right it = Some (item_ID y) then y\<lparr>it_left := Some ?rid\<rparr> else y)" for x y
    by (auto simp: relink_def upd_struct_def split: option.splits)
  have itm': "relink it ?rid st = Item x \<longleftrightarrow> (\<exists>y. st = Item y \<and>
      x = (if it_right it = Some (item_ID y) then y\<lparr>it_left := Some ?rid\<rparr> else y))" for x st
    by (cases st) (auto simp: relink_def upd_struct_def split: option.splits)
  show "deref s' j = (if j = ?rid then Some right
     else if j = item_ID it then Some (split_left it head ?rid)
     else if it_right it = Some j then map_option (\<lambda>x. x\<lparr>it_left := Some ?rid\<rparr>) (deref s j) else deref s j)"
  proof (cases "j = ?rid \<or> j = item_ID it")
    case True
    then show ?thesis using assms(4)
      by (cases "item_ID it") (auto simp: deref_iff [OF g'] ss' ht sp(2))
  next
    case False
    have "deref s' j = Some x \<longleftrightarrow> (\<exists>y. deref s j = Some y \<and>
        x = (if it_right it = Some j then y\<lparr>it_left := Some ?rid\<rparr> else y))" for x
      using False
      by (cases "Client j = ?c")
        (auto simp: deref_iff [OF g'] deref_iff [OF assms(1)] ss' ss itm' image_iff eq_commute [of "Item _" "relink _ _ _"])
    with False show ?thesis
      by (cases "deref s' j"; cases "deref s j") auto
  qed
qed

end
