(* ===== verification/Links.thy ===== *)
theory Links
  imports Struct_Store Complex_Main
begin

text \<open>
  The pointers between items.

  Items form doubly linked lists through \<open>left\<close> and \<open>right\<close>, and an update decides where a
  new item is linked in, so nothing may be assumed of the shape of these lists. What does hold,
  whatever arrives, is \<open>linked\<close>: no pointer dangles, and the items can be given ranks that grow
  along \<open>right\<close> and fall along \<open>left\<close>. A new item always goes between two items that are
  already in this order, so a rank between theirs extends the ranking (\<open>linked_insert\<close>). Hence
  every walk along \<open>left\<close> or \<open>right\<close> visits each item at most once.
\<close>

subsection \<open>The invariant\<close>

definition live :: "store \<Rightarrow> ID \<Rightarrow> bool" where
  "live s i \<longleftrightarrow> deref s i \<noteq> None"

definition item_linked :: "(ID \<Rightarrow> rat) \<Rightarrow> store \<Rightarrow> ID \<Rightarrow> item \<Rightarrow> bool" where
  "item_linked rank s i it \<longleftrightarrow>
     (\<forall>l. it_left it = Some l \<longrightarrow> live s l \<and> rank l < rank i)
     \<and> (\<forall>r. it_right it = Some r \<longrightarrow> live s r \<and> rank i < rank r)
     \<and> it_parent it \<noteq> None \<and> (\<forall>owner. it_parent it = Some (TOwned owner) \<longrightarrow> live s owner)"

definition type_linked :: "store \<Rightarrow> ytype \<Rightarrow> bool" where
  "type_linked s y \<longleftrightarrow> pred_option (live s) (ytype_start y) \<and> list_all (\<lambda>(k, i). live s i) (mapItems y)"

definition linked :: "(ID \<Rightarrow> rat) \<Rightarrow> store \<Rightarrow> bool" where
  "linked rank s \<longleftrightarrow> (\<forall>i it. deref s i = Some it \<longrightarrow> item_linked rank s i it)
     \<and> list_all (\<lambda>(t, y). type_linked s y) (types s)"

definition wf_store :: "store \<Rightarrow> bool" where
  "wf_store s \<longleftrightarrow> gapless s \<and> (\<exists>rank. linked rank s)"

text \<open>What an operation may do to a store: clocks and deletions only grow, and no item disappears.\<close>

definition grows :: "store \<Rightarrow> store \<Rightarrow> bool" where
  "grows s s' \<longleftrightarrow> (\<forall>c. State s c \<le> State s' c) \<and> (\<forall>i. deleted_at s i \<longrightarrow> deleted_at s' i)
     \<and> (\<forall>i. live s i \<longrightarrow> live s' i)"

text \<open>A split moves no clock and deletes nothing.\<close>

definition same_content :: "store \<Rightarrow> store \<Rightarrow> bool" where
  "same_content s s' \<longleftrightarrow> (\<forall>c. State s' c = State s c) \<and> (\<forall>i. deleted_at s' i \<longleftrightarrow> deleted_at s i)
     \<and> (\<forall>i. live s i \<longrightarrow> live s' i)"

subsection \<open>Lemmas\<close>

lemma grows_refl [simp]: "grows s s"
  by (simp add: grows_def)

lemma grows_trans: "grows s t \<Longrightarrow> grows t u \<Longrightarrow> grows s u"
  unfolding grows_def by (meson order_trans)

lemma same_content_refl [simp]: "same_content s s"
  by (simp add: same_content_def)

lemma same_content_trans: "same_content s t \<Longrightarrow> same_content t u \<Longrightarrow> same_content s u"
  by (simp add: same_content_def)

lemma same_content_grows: "same_content s t \<Longrightarrow> grows s t"
  by (simp add: same_content_def grows_def)

lemma linkedD:
  assumes "linked rank s" and "deref s i = Some it"
  shows "it_left it = Some l \<Longrightarrow> live s l \<and> rank l < rank i"
    and "it_right it = Some r \<Longrightarrow> live s r \<and> rank i < rank r"
    and "it_parent it \<noteq> None" and "it_parent it = Some (TOwned owner) \<Longrightarrow> live s owner"
  using assms by (auto simp: linked_def item_linked_def)

lemma linked_type:
  assumes "linked rank s"
  shows "type_linked s (get_type s t)"
  using assms
  by (auto simp: linked_def get_type_def list_all_iff type_linked_def newAbstractType_def
      split: option.splits dest!: map_of_SomeD)

lemma linked_start: "linked rank s \<Longrightarrow> ytype_start (get_type s t) = Some i \<Longrightarrow> live s i"
  using linked_type [of rank s t] by (simp add: type_linked_def)

lemma linked_map_item:
  assumes "linked rank s" and "map_of (mapItems (get_type s t)) k = Some i"
  shows "live s i"
  using linked_type [OF assms(1), of t] map_of_SomeD [OF assms(2)]
  by (auto simp: type_linked_def list_all_iff)

lemma type_linked_mono: "type_linked s y \<Longrightarrow> (\<And>i. live s i \<Longrightarrow> live s' i) \<Longrightarrow> type_linked s' y"
  by (auto simp: type_linked_def list_all_iff elim!: option.pred_mono_strong)

lemma no_self_right: "linked rank s \<Longrightarrow> deref s i = Some it \<Longrightarrow> it_right it \<noteq> Some i"
  using linkedD(2) by fastforce

text \<open>The rank of a new item between two neighbours.\<close>

definition between :: "(ID \<Rightarrow> rat) \<Rightarrow> ID option \<Rightarrow> ID option \<Rightarrow> rat" where
  "between rank l r =
     (case (l, r) of
        (Some l, Some r) \<Rightarrow> (rank l + rank r) / 2
      | (Some l, None) \<Rightarrow> rank l + 1
      | (None, Some r) \<Rightarrow> rank r - 1
      | (None, None) \<Rightarrow> 0)"

lemma between_bounds:
  assumes "\<And>a b. l = Some a \<Longrightarrow> r = Some b \<Longrightarrow> rank a < rank b"
  shows "l = Some a \<Longrightarrow> rank a < between rank l r" and "r = Some b \<Longrightarrow> between rank l r < rank b"
  using assms by (auto simp: between_def split: option.splits)

lemma linked_insert:
  assumes l: "linked rank s" and new: "\<not> live s n" and x: "deref s' n = Some x"
    and old: "\<And>j y. j \<noteq> n \<Longrightarrow> deref s' j = Some y \<Longrightarrow> \<exists>y0. deref s j = Some y0 \<and> it_parent y = it_parent y0
      \<and> (it_left y = it_left y0 \<or> it_left y = Some n \<and> it_right x = Some j)
      \<and> (it_right y = it_right y0 \<or> it_right y = Some n \<and> it_left x = Some j)"
    and mono: "\<And>j. live s j \<Longrightarrow> live s' j"
    and left: "\<And>a. it_left x = Some a \<Longrightarrow> live s a" and right: "\<And>b. it_right x = Some b \<Longrightarrow> live s b"
    and order: "\<And>a b. it_left x = Some a \<Longrightarrow> it_right x = Some b \<Longrightarrow> rank a < rank b"
    and parent: "it_parent x \<noteq> None" "\<And>owner. it_parent x = Some (TOwned owner) \<Longrightarrow> live s owner"
    and types: "list_all (\<lambda>(t, y). type_linked s' y) (types s')"
  shows "\<exists>rank. linked rank s'"
proof -
  let ?m = "between rank (it_left x) (it_right x)"
  define rank' where "rank' = rank(n := ?m)"
  note b = between_bounds [of "it_left x" "it_right x" rank, OF order]
  have keep: "rank' j = rank j" if "live s j" for j using that new by (auto simp: rank'_def)
  have n: "rank' n = ?m" by (simp add: rank'_def)
  have "item_linked rank' s' j y" if "deref s' j = Some y" for j y
  proof (cases "j = n")
    case True
    with that x have "y = x" by simp
    then show ?thesis
      unfolding item_linked_def True n using left right mono b parent keep by fastforce
  next
    case False
    from old [OF False that] obtain y0 where y0: "deref s j = Some y0" "it_parent y = it_parent y0"
      "it_left y = it_left y0 \<or> it_left y = Some n \<and> it_right x = Some j"
      "it_right y = it_right y0 \<or> it_right y = Some n \<and> it_left x = Some j" by blast
    have j: "rank' j = rank j" using y0(1) by (intro keep) (simp add: live_def)
    have "live s' n" using x by (simp add: live_def)
    note d = linkedD [OF l y0(1)]
    show ?thesis unfolding item_linked_def j
    proof (intro conjI allI impI)
      fix a assume a: "it_left y = Some a"
      show "live s' a" using a y0(3) d(1) mono \<open>live s' n\<close> by auto
      show "rank' a < rank j" using a y0(3) d(1) keep b(2) n by auto
    next
      fix a assume a: "it_right y = Some a"
      show "live s' a" using a y0(4) d(2) mono \<open>live s' n\<close> by auto
      show "rank j < rank' a" using a y0(4) d(2) keep b(1) n by auto
    next
      show "it_parent y \<noteq> None" using y0(2) d(3) by simp
      show "live s' owner" if "it_parent y = Some (TOwned owner)" for owner using that y0(2) d(4) mono by simp
    qed
  qed
  with types show ?thesis unfolding linked_def by blast
qed

subsection \<open>Splitting and clean lookups keep the invariant\<close>

lemma types_set [simp]:
  "types (set_structs c ss s) = types s" "types (upd_item i f s) = types s"
  "get_type (set_structs c ss s) t = get_type s t" "get_type (upd_item i f s) t = get_type s t"
  by (simp_all add: set_structs_def upd_item_def get_type_def)

lemma types_set_map_item_eq:
  "types (set_map_item t k i s) =
     AList.update t (get_type s t\<lparr>mapItems := AList.update k i (mapItems (get_type s t))\<rparr>) (types s)"
  by (simp add: set_map_item_def set_type_def Let_def)

lemma types_set_map_item:
  assumes "list_all (\<lambda>(t, y). type_linked s' y) (types s)" and "live s' i"
  shows "list_all (\<lambda>(t, y). type_linked s' y) (types (set_map_item t k i s))"
proof -
  have "type_linked s' (get_type s t)"
    using assms(1) by (auto simp: get_type_def list_all_iff type_linked_def newAbstractType_def
        split: option.splits dest!: map_of_SomeD)
  then have "type_linked s' (get_type s t\<lparr>mapItems := AList.update k i (mapItems (get_type s t))\<rparr>)"
    using assms(2) by (simp add: type_linked_def list_all_update)
  with assms(1) show ?thesis
    by (simp add: set_map_item_def set_type_def Let_def list_all_update)
qed

lemma splitItem_types:
  assumes "splitItem s it n k = Inr (right, s')" and "list_all (\<lambda>(t, y). type_linked s' y) (types s)"
    and "live s' (item_ID right)"
  shows "list_all (\<lambda>(t, y). type_linked s' y) (types s')"
proof -
  obtain head tail where sp: "Splice (Content it) n = Inr (head, tail)" "right = split_right it n tail"
    using splitItem_Inr [OF assms(1)] by blast
  have "types s' = types s \<or> (\<exists>t k. types s' = types (set_map_item t k (item_ID right) s))"
    using assms(1) sp unfolding splitItem_def
    by (auto simp: Let_def types_set_map_item_eq split: option.splits if_splits) blast
  then show ?thesis
    using assms(2,3) types_set_map_item [of s' s] by (metis (no_types, lifting))
qed

lemma split_wf:
  assumes "wf_store s" and k: "k < length (store_Structs s (Client (item_ID it)))"
    and it: "store_Structs s (Client (item_ID it)) ! k = Item it"
    and n: "0 < n" "n < Len (Content it)"
    and r: "splitItem s it n k = Inr (right, s')"
  shows "wf_store s'" and "same_content s s'" and "deref s' (item_ID right) = Some right"
    and "\<exists>head. deref s' (item_ID it) = Some (split_left it head (item_ID right)) \<and> Len head = n"
    and "item_ID right = ID (Client (item_ID it)) (Clock (item_ID it) + n)"
proof -
  obtain rank where g: "gapless s" and l: "linked rank s" using assms(1) by (auto simp: wf_store_def)
  have d: "deref s (item_ID it) = Some it"
    using deref_in [OF g, of it "Client (item_ID it)"] nth_mem [OF k] it by simp
  have self: "it_right it \<noteq> Some (item_ID it)" by (rule no_self_right [OF l d])
  note pre = g k it n self r
  obtain head tail where sp: "Splice (Content it) n = Inr (head, tail)" "right = split_right it n tail"
    using splitItem_Inr [OF r] by blast
  note dr = splitItem_deref [OF pre sp(1)]
  note g' = splitItem_gapless [OF pre]
  have ne: "item_ID it \<noteq> item_ID right" using n(1) by (cases "item_ID it") (simp add: sp(2))
  show dright: "deref s' (item_ID right) = Some right" by (simp add: dr)
  show "\<exists>head. deref s' (item_ID it) = Some (split_left it head (item_ID right)) \<and> Len head = n"
    using ne Splice_Len(1) [OF sp(1)] n by (intro exI [of _ head]) (simp add: dr)
  show "item_ID right = ID (Client (item_ID it)) (Clock (item_ID it) + n)" by (simp add: sp(2))
  have mono: "live s j \<Longrightarrow> live s' j" for j by (auto simp: live_def dr(1))
  then show "same_content s s'"
    unfolding same_content_def using g'(2) splitItem_deleted [OF pre] by blast
  have new: "\<not> live s (item_ID right)" using dr(2) by (simp add: live_def)
  have types: "list_all (\<lambda>(t, y). type_linked s' y) (types s')"
  proof (rule splitItem_types [OF r])
    show "list_all (\<lambda>(t, y). type_linked s' y) (types s)"
      using l mono by (auto simp: linked_def list_all_iff intro: type_linked_mono)
    show "live s' (item_ID right)" using dright by (simp add: live_def)
  qed
  have "\<exists>rank. linked rank s'"
  proof (rule linked_insert [OF l new dright _ mono _ _ _ _ _ types])
    fix j y assume "j \<noteq> item_ID right" "deref s' j = Some y"
    then show "\<exists>y0. deref s j = Some y0 \<and> it_parent y = it_parent y0
        \<and> (it_left y = it_left y0 \<or> it_left y = Some (item_ID right) \<and> it_right right = Some j)
        \<and> (it_right y = it_right y0 \<or> it_right y = Some (item_ID right) \<and> it_left right = Some j)"
      using d by (auto simp: dr(1) sp(2) split: if_splits)
  next
    show "live s a" if "it_left right = Some a" for a using that d by (simp add: sp(2) live_def)
    show "live s b" if "it_right right = Some b" for b using that linkedD(2) [OF l d] by (simp add: sp(2))
    show "rank a < rank b" if "it_left right = Some a" "it_right right = Some b" for a b
      using that linkedD(2) [OF l d] by (simp add: sp(2))
    show "it_parent right \<noteq> None" using linkedD(3) [OF l d] by (simp add: sp(2))
    show "live s owner" if "it_parent right = Some (TOwned owner)" for owner
      using that linkedD(4) [OF l d] by (simp add: sp(2))
  qed
  with g'(1) show "wf_store s'" by (simp add: wf_store_def)
qed

lemma find_item:
  assumes "wf_store s" and "store_find s i = Inr k" and "store_Structs s (Client i) ! k = Item it"
  shows "Client (item_ID it) = Client i" and "Clock (item_ID it) \<le> Clock i"
    and "Clock i < Clock (item_ID it) + Len (Content it)" and "k < length (store_Structs s (Client i))"
    and "deref s (item_ID it) = Some it"
proof -
  have g: "gapless s" using assms(1) by (simp add: wf_store_def)
  have f: "k < length (store_Structs s (Client i)) \<and> struct_covers (Item it) (Clock i)"
    using assms(2,3) by (simp add: store_find_iff [OF g])
  then have mem: "Item it \<in> set (store_Structs s (Client i))" using assms(3) nth_mem by metis
  show "Client (item_ID it) = Client i" using gapless_structs(4) [OF g mem] by simp
  show "deref s (item_ID it) = Some it" by (rule deref_in [OF g mem])
  show "Clock (item_ID it) \<le> Clock i" "Clock i < Clock (item_ID it) + Len (Content it)"
    "k < length (store_Structs s (Client i))"
    using f by (simp_all add: struct_covers_def)
qed

lemma GetItemCleanStart_wf:
  assumes "wf_store s" and "GetItemCleanStart s i = Inr (it, s')"
  shows "wf_store s'" and "same_content s s'" and "deref s' (item_ID it) = Some it" and "item_ID it = i"
proof -
  obtain k x where k: "store_find s i = Inr k" "store_Structs s (Client i) ! k = Item x"
    and r: "(if Clock i - Clock (item_ID x) = 0 then Inr (x, s)
      else splitItem s x (Clock i - Clock (item_ID x)) k) = Inr (it, s')"
    using assms(2) by (auto simp: GetItemCleanStart_def Let_def split: sum.splits struct.splits)
  note f = find_item [OF assms(1) k]
  have "wf_store s' \<and> same_content s s' \<and> deref s' (item_ID it) = Some it \<and> item_ID it = i"
  proof (cases "Clock i - Clock (item_ID x) = 0")
    case True
    with r have "it = x" "s' = s" by simp_all
    with True f assms(1) show ?thesis by (cases i; cases "item_ID x") auto
  next
    case False
    with r have sp: "splitItem s x (Clock i - Clock (item_ID x)) k = Inr (it, s')" by simp
    have "k < length (store_Structs s (Client (item_ID x)))" "store_Structs s (Client (item_ID x)) ! k = Item x"
      using f k(2) by simp_all
    note w = split_wf [OF assms(1) this _ _ sp]
    have "0 < Clock i - Clock (item_ID x)" "Clock i - Clock (item_ID x) < Len (Content x)"
      using False f(2,3) by simp_all
    with w f show ?thesis by (cases i) simp
  qed
  then show "wf_store s'" "same_content s s'" "deref s' (item_ID it) = Some it" "item_ID it = i" by blast+
qed

lemma GetItemCleanEnd_wf:
  assumes "wf_store s" and "GetItemCleanEnd s i = Inr (it, s')"
  shows "wf_store s'" and "same_content s s'" and "deref s' (item_ID it) = Some it" and "LastID it = i"
proof -
  obtain k x where k: "store_find s i = Inr k" "store_Structs s (Client i) ! k = Item x"
    and r: "(if Clock i - Clock (item_ID x) = Len (Content x) - 1 then Inr (x, s)
      else (case splitItem s x (Clock i - Clock (item_ID x) + 1) k of
              Inl er \<Rightarrow> Inl er
            | Inr (right, s') \<Rightarrow> (case deref s' (item_ID x) of
                 Some it' \<Rightarrow> Inr (it', s') | None \<Rightarrow> Inl ErrMissingStruct))) = Inr (it, s')"
    using assms(2) by (auto simp: GetItemCleanEnd_def Let_def split: sum.splits struct.splits)
  note f = find_item [OF assms(1) k]
  have "wf_store s' \<and> same_content s s' \<and> deref s' (item_ID it) = Some it \<and> LastID it = i"
  proof (cases "Clock i - Clock (item_ID x) = Len (Content x) - 1")
    case True
    with r have "it = x" "s' = s" by simp_all
    with True f assms(1) show ?thesis by (cases i; cases "item_ID x") (auto simp: LastID_def)
  next
    case False
    with r obtain right where sp: "splitItem s x (Clock i - Clock (item_ID x) + 1) k = Inr (right, s')"
      and d: "deref s' (item_ID x) = Some it"
      by (auto split: sum.splits prod.splits option.splits)
    have "k < length (store_Structs s (Client (item_ID x)))" "store_Structs s (Client (item_ID x)) ! k = Item x"
      using f k(2) by simp_all
    note w = split_wf [OF assms(1) this _ _ sp]
    have "Clock i - Clock (item_ID x) + 1 < Len (Content x)" using False f(2,3) by simp
    with w obtain head where "wf_store s'" "same_content s s'"
      "deref s' (item_ID x) = Some (split_left x head (item_ID right))" "Len head = Clock i - Clock (item_ID x) + 1"
      by auto
    with d f show ?thesis by (cases i) (auto simp: LastID_def)
  qed
  then show "wf_store s'" "same_content s s'" "deref s' (item_ID it) = Some it" "LastID it = i" by simp_all
qed

end
