(* ===== verification/Integrate.thy ===== *)
theory Integrate
  imports Links "HOL-Library.Monad_Syntax"
begin

text \<open>
  Integration of one struct, \<open>doc.go\<close>: finding an item's neighbours and parent
  (\<open>resolve\<close>), the conflict resolution of YATA (\<open>resolveConflict\<close>) and linking the item into
  its list (\<open>integrateItem\<close>).

  The two loops that follow pointers, \<open>leftmost\<close> and the scan of \<open>resolveConflict\<close>, take fuel
  and return \<open>None\<close> when it runs out or a pointer dangles; their callers give them one unit
  more than there are structs. The lemmas show that this is always enough: on a well-formed store
  no step of the integration returns \<open>None\<close>, whatever item arrives, and the store stays
  well-formed and only grows.
\<close>

subsection \<open>Finding the neighbours\<close>

definition missing_dep :: "store \<Rightarrow> item \<Rightarrow> ID \<Rightarrow> bool" where
  "missing_dep s it dep \<longleftrightarrow> Client dep \<noteq> Client (item_ID it) \<and> State s (Client dep) \<le> Clock dep"

definition doc_Get :: "bytes \<Rightarrow> store \<Rightarrow> store" where
  "doc_Get name s =
     (case map_of (types s) (TRoot name) of
        Some t \<Rightarrow> s
      | None \<Rightarrow> set_type (TRoot name) (newAbstractType typeRefUnknown) s)"

definition resolve_parent :: "store \<Rightarrow> item \<Rightarrow> item option \<Rightarrow> item option \<Rightarrow> item \<times> store" where
  "resolve_parent s it left right =
     (case Parent it of
        None \<Rightarrow>
          (case left of
             Some l \<Rightarrow> (it\<lparr>it_parent := it_parent l, HasParentSub := HasParentSub l, ParentSub := ParentSub l\<rparr>, s)
           | None \<Rightarrow>
               (case right of
                  Some r \<Rightarrow> (it\<lparr>it_parent := it_parent r, HasParentSub := HasParentSub r, ParentSub := ParentSub r\<rparr>, s)
                | None \<Rightarrow> (it, s)))
      | Some (PRoot name) \<Rightarrow> (it\<lparr>it_parent := Some (TRoot name)\<rparr>, doc_Get name s)
      | Some (PItem p) \<Rightarrow>
          (case GetItem s p of
             Inl er \<Rightarrow> (it\<lparr>it_parent := None\<rparr>, s)
           | Inr owner \<Rightarrow>
               (case Content owner of
                  ContentType r n \<Rightarrow> (it\<lparr>it_parent := Some (TOwned (item_ID owner))\<rparr>, s)
                | _ \<Rightarrow> (it\<lparr>it_parent := None\<rparr>, s))))"

definition resolve_right :: "store \<Rightarrow> item \<Rightarrow> item option \<Rightarrow> item \<times> store" where
  "resolve_right s it left =
     (case RightOrigin it of
        None \<Rightarrow> resolve_parent s it left None
      | Some r \<Rightarrow>
          (case GetItemCleanStart s r of
             Inl er \<Rightarrow> (it\<lparr>it_right := None, it_parent := None\<rparr>, s)
           | Inr (right, s') \<Rightarrow>
               resolve_parent s' (it\<lparr>it_right := Some (item_ID right)\<rparr>) left (Some right)))"

definition resolve_left :: "store \<Rightarrow> item \<Rightarrow> item \<times> store" where
  "resolve_left s it =
     (case Origin it of
        None \<Rightarrow> resolve_right s it None
      | Some l \<Rightarrow>
          (case GetItemCleanEnd s l of
             Inl er \<Rightarrow> (it\<lparr>it_left := None, it_parent := None\<rparr>, s)
           | Inr (left, s') \<Rightarrow>
               resolve_right s' (it\<lparr>it_left := Some (item_ID left), Origin := Some (LastID left)\<rparr>) (Some left)))"

definition resolve_item :: "store \<Rightarrow> item \<Rightarrow> (item \<times> store) option" where
  "resolve_item s it =
     (if (case Origin it of Some i \<Rightarrow> missing_dep s it i | None \<Rightarrow> False)
         \<or> (case RightOrigin it of Some i \<Rightarrow> missing_dep s it i | None \<Rightarrow> False)
         \<or> (case Parent it of Some (PItem i) \<Rightarrow> missing_dep s it i | _ \<Rightarrow> False)
      then None
      else Some (resolve_left s it))"

fun resolve :: "store \<Rightarrow> struct \<Rightarrow> (struct \<times> store) option" where
  "resolve s (Item it) = map_option (\<lambda>(it, s). (Item it, s)) (resolve_item s it)"
| "resolve s st = Some (st, s)"

subsection \<open>Conflict resolution\<close>

definition walk_fuel :: "store \<Rightarrow> nat" where
  "walk_fuel s = Suc (sum_list (map (\<lambda>(c, ss). length ss) (clients s)))"

fun leftmost :: "nat \<Rightarrow> store \<Rightarrow> ID option \<Rightarrow> ID option option" where
  "leftmost 0 s p = None"
| "leftmost (Suc n) s None = Some None"
| "leftmost (Suc n) s (Some i) =
     (case deref s i of
        None \<Rightarrow> None
      | Some x \<Rightarrow> (case it_left x of None \<Rightarrow> Some (Some i) | Some l \<Rightarrow> leftmost n s (Some l)))"

definition itemAt :: "store \<Rightarrow> ID \<Rightarrow> ID option" where
  "itemAt s i = (case GetItem s i of Inl er \<Rightarrow> None | Inr it \<Rightarrow> Some (item_ID it))"

definition sameID :: "ID option \<Rightarrow> ID option \<Rightarrow> bool" where
  "sameID a b \<longleftrightarrow> (if a = None \<or> b = None then a = None \<and> b = None else the a = the b)"

definition in_ids :: "ID option \<Rightarrow> ID list \<Rightarrow> bool" where
  "in_ids p ids = (case p of None \<Rightarrow> False | Some i \<Rightarrow> i \<in> set ids)"

fun conflict_loop ::
  "nat \<Rightarrow> store \<Rightarrow> item \<Rightarrow> ID option \<Rightarrow> ID option \<Rightarrow> ID list \<Rightarrow> ID list \<Rightarrow> ID option option" where
  "conflict_loop 0 s it left p conflicting before = None"
| "conflict_loop (Suc n) s it left None conflicting before = Some left"
| "conflict_loop (Suc n) s it left (Some i) conflicting before =
     (if it_right it = Some i then Some left
      else case deref s i of
        None \<Rightarrow> None
      | Some x \<Rightarrow>
          (let before = i # before;
               conflicting = i # conflicting
           in if sameID (Origin it) (Origin x)
              then (if Client (item_ID x) < Client (item_ID it)
                    then conflict_loop n s it (Some i) (it_right x) [] before
                    else if sameID (RightOrigin it) (RightOrigin x) then Some left
                    else conflict_loop n s it left (it_right x) conflicting before)
              else (case Origin x of
                      None \<Rightarrow> Some left
                    | Some orig \<Rightarrow>
                        if in_ids (itemAt s orig) before
                        then (if \<not> in_ids (itemAt s orig) conflicting
                              then conflict_loop n s it (Some i) (it_right x) [] before
                              else conflict_loop n s it left (it_right x) conflicting before)
                        else Some left)))"

definition item_left :: "store \<Rightarrow> ID \<Rightarrow> ID option" where
  "item_left s i = (case deref s i of Some x \<Rightarrow> it_left x | None \<Rightarrow> None)"

definition item_right :: "store \<Rightarrow> ID \<Rightarrow> ID option" where
  "item_right s i = (case deref s i of Some x \<Rightarrow> it_right x | None \<Rightarrow> None)"

definition map_item :: "store \<Rightarrow> typeref \<Rightarrow> bytes \<Rightarrow> ID option" where
  "map_item s t key = map_of (mapItems (get_type s t)) key"

definition resolveConflict :: "store \<Rightarrow> item \<Rightarrow> typeref \<Rightarrow> ID option option" where
  "resolveConflict s it par =
     do {
       first \<leftarrow> (case it_left it of
                  Some l \<Rightarrow> Some (item_right s l)
                | None \<Rightarrow>
                    if HasParentSub it then leftmost (walk_fuel s) s (map_item s par (ParentSub it))
                    else Some (ytype_start (get_type s par)));
       conflict_loop (walk_fuel s) s it (it_left it) first [] []
     }"

subsection \<open>Linking an item in\<close>

definition deleteItem :: "ID \<Rightarrow> store \<Rightarrow> store" where
  "deleteItem i s = upd_item i (\<lambda>x. if it_deleted x then x else x\<lparr>it_deleted := True\<rparr>) s"

definition append_ignore :: "struct \<Rightarrow> store \<Rightarrow> store" where
  "append_ignore st s = (case Append st s of Inl er \<Rightarrow> s | Inr s' \<Rightarrow> s')"

definition needs_conflict :: "store \<Rightarrow> item \<Rightarrow> bool" where
  "needs_conflict s it =
     (case it_left it of
        None \<Rightarrow> (case it_right it of None \<Rightarrow> True | Some r \<Rightarrow> item_left s r \<noteq> None)
      | Some l \<Rightarrow> item_right s l \<noteq> it_right it)"

definition place_left :: "store \<Rightarrow> item \<Rightarrow> typeref \<Rightarrow> ID option option" where
  "place_left s it par = (if needs_conflict s it then resolveConflict s it par else Some (it_left it))"

definition relink_item :: "store \<Rightarrow> item \<Rightarrow> typeref \<Rightarrow> (item \<times> store) option" where
  "relink_item s it par =
     (case it_left it of
        Some l \<Rightarrow>
          Some (it\<lparr>it_right := item_right s l\<rparr>, upd_item l (\<lambda>x. x\<lparr>it_right := Some (item_ID it)\<rparr>) s)
      | None \<Rightarrow>
          if HasParentSub it
          then do {
            r \<leftarrow> leftmost (walk_fuel s) s (map_item s par (ParentSub it));
            Some (it\<lparr>it_right := r\<rparr>, s)
          }
          else (let y = get_type s par
                in Some (it\<lparr>it_right := ytype_start y\<rparr>,
                         set_type par (y\<lparr>ytype_start := Some (item_ID it)\<rparr>) s)))"

definition link_right :: "store \<Rightarrow> item \<Rightarrow> typeref \<Rightarrow> store" where
  "link_right s it par =
     (case it_right it of
        Some r \<Rightarrow> upd_item r (\<lambda>x. x\<lparr>it_left := Some (item_ID it)\<rparr>) s
      | None \<Rightarrow>
          if HasParentSub it
          then (let s = set_map_item par (ParentSub it) (item_ID it) s
                in case it_left it of Some l \<Rightarrow> deleteItem l s | None \<Rightarrow> s)
          else s)"

definition parent_deleted :: "store \<Rightarrow> typeref \<Rightarrow> bool" where
  "parent_deleted s par =
     (case par of
        TRoot name \<Rightarrow> False
      | TOwned owner \<Rightarrow> (case deref s owner of Some x \<Rightarrow> it_deleted x | None \<Rightarrow> False))"

definition finish_item :: "store \<Rightarrow> item \<Rightarrow> typeref \<Rightarrow> store" where
  "finish_item s it par =
     (let s = append_ignore (Item it) s;
          s = (case Content it of
                 ContentDeleted n \<Rightarrow> upd_item (item_ID it) (\<lambda>x. x\<lparr>it_deleted := True\<rparr>) s
               | _ \<Rightarrow> s)
      in if parent_deleted s par \<or> HasParentSub it \<and> it_right it \<noteq> None
         then deleteItem (item_ID it) s else s)"

definition place_item :: "store \<Rightarrow> item \<Rightarrow> store option" where
  "place_item s it =
     (case it_parent it of
        None \<Rightarrow> Some (append_ignore (GC (item_ID it) (Len (Content it))) s)
      | Some par \<Rightarrow>
          do {
            left \<leftarrow> place_left s it par;
            (it, s) \<leftarrow> relink_item s (it\<lparr>it_left := left\<rparr>) par;
            Some (finish_item (link_right s it par) it par)
          })"

definition integrateItem :: "store \<Rightarrow> item \<Rightarrow> nat \<Rightarrow> store option" where
  "integrateItem s it offset =
     (if 0 < offset
      then (let client = Client (item_ID it);
                clock = Clock (item_ID it) + offset;
                it = it\<lparr>item_ID := ID client clock\<rparr>
            in case GetItemCleanEnd s (ID client (clock - 1)) of
                 Inl er \<Rightarrow> Some s
               | Inr (left, s) \<Rightarrow>
                   (let it = it\<lparr>it_left := Some (item_ID left), Origin := Some (LastID left)\<rparr>
                    in case Splice (Content it) offset of
                         Inl er \<Rightarrow> Some s
                       | Inr (head, tail) \<Rightarrow> place_item s (it\<lparr>Content := tail\<rparr>)))
      else place_item s it)"

fun integrateStruct :: "store \<Rightarrow> struct \<Rightarrow> nat \<Rightarrow> store option" where
  "integrateStruct s (GC i n) offset =
     (let st = (if 0 < offset then GC (ID (Client i) (Clock i + offset)) (n - offset) else GC i n)
      in Some (append_ignore st s))"
| "integrateStruct s (Item it) offset = integrateItem s it offset"
| "integrateStruct s (Skip i n) offset = Some s"

subsection \<open>Lemmas: walks end\<close>

lemma live_struct: "gapless s \<Longrightarrow> live s i \<Longrightarrow> \<exists>it. Item it \<in> set (store_Structs s (Client i)) \<and> item_ID it = i"
  by (auto simp: live_def deref_iff)

lemma live_card:
  assumes "gapless s"
  shows "finite {i. live s i}" and "card {i. live s i} < walk_fuel s"
proof -
  let ?ids = "concat (map (\<lambda>(c, ss). map StructID ss) (clients s))"
  have sub: "{i. live s i} \<subseteq> set ?ids"
  proof
    fix i assume "i \<in> {i. live s i}"
    then obtain it where it: "Item it \<in> set (store_Structs s (Client i))" "item_ID it = i"
      using live_struct [OF assms] by auto
    then obtain ss where "(Client i, ss) \<in> set (clients s)" "Item it \<in> set ss"
      by (cases "map_of (clients s) (Client i)") (auto simp: store_Structs_def dest: map_of_SomeD)
    with it(2) show "i \<in> set ?ids" by force
  qed
  show "finite {i. live s i}" by (rule finite_subset [OF sub finite_set])
  have "card {i. live s i} \<le> card (set ?ids)" by (rule card_mono [OF finite_set sub])
  also have "\<dots> \<le> length ?ids" by (rule card_length)
  also have "length ?ids = sum_list (map (\<lambda>(c, ss). length ss) (clients s))"
    by (induction "clients s") (auto simp: length_concat comp_def case_prod_beta')
  finally show "card {i. live s i} < walk_fuel s" by (simp add: walk_fuel_def)
qed

lemma card_shrink:
  assumes "finite {i. live s i}" and "live s i" and "{j. live s j \<and> P j} \<subseteq> {j. live s j \<and> Q j}" and "Q i" and "\<not> P i"
  shows "card {j. live s j \<and> P j} < card {j. live s j \<and> Q j}"
proof (rule psubset_card_mono)
  show "finite {j. live s j \<and> Q j}" by (rule finite_subset [OF _ assms(1)]) auto
  show "{j. live s j \<and> P j} \<subset> {j. live s j \<and> Q j}" using assms(2-) by blast
qed

lemma leftmost_ends:
  assumes g: "gapless s" and l: "linked rank s"
  shows "live s i \<Longrightarrow> card {j. live s j \<and> rank j \<le> rank i} \<le> n \<Longrightarrow>
     \<exists>r. leftmost n s (Some i) = Some (Some r) \<and> live s r \<and> item_left s r = None"
proof (induction n arbitrary: i)
  case 0
  have "finite {j. live s j \<and> rank j \<le> rank i}" by (rule finite_subset [OF _ live_card(1) [OF g]]) auto
  then have "{j. live s j \<and> rank j \<le> rank i} = {}" using 0 by (simp add: card_eq_0_iff)
  with 0 show ?case by auto
next
  case (Suc n)
  then obtain x where x: "deref s i = Some x" by (auto simp: live_def)
  show ?case
  proof (cases "it_left x")
    case None
    with x Suc.prems show ?thesis by (simp add: item_left_def)
  next
    case (Some a)
    with linkedD(1) [OF l x] have a: "live s a" "rank a < rank i" by auto
    have "card {j. live s j \<and> rank j \<le> rank a} < card {j. live s j \<and> rank j \<le> rank i}"
      by (rule card_shrink [OF live_card(1) [OF g] Suc.prems(1)]) (use a in auto)
    with Suc.IH [OF a(1)] Suc.prems(2) x Some show ?thesis by simp
  qed
qed

lemma leftmost_fuel:
  assumes "gapless s" and "linked rank s" and "pred_option (live s) p"
  shows "\<exists>r. leftmost (walk_fuel s) s p = Some r \<and> pred_option (live s) r"
proof (cases p)
  case None
  then show ?thesis by (simp add: walk_fuel_def)
next
  case (Some i)
  have "card {j. live s j \<and> rank j \<le> rank i} \<le> card {j. live s j}"
    by (rule card_mono [OF live_card(1) [OF assms(1)]]) auto
  then have "card {j. live s j \<and> rank j \<le> rank i} \<le> walk_fuel s"
    using live_card(2) [OF assms(1)] by simp
  with leftmost_ends [OF assms(1,2)] Some assms(3) show ?thesis by fastforce
qed

lemma conflict_loop_ends:
  assumes g: "gapless s" and l: "linked rank s"
  shows "pred_option (live s) left \<Longrightarrow> pred_option (live s) p \<Longrightarrow>
     (\<And>i. p = Some i \<Longrightarrow> card {j. live s j \<and> rank i \<le> rank j} < n) \<Longrightarrow> 0 < n \<Longrightarrow>
     \<exists>r. conflict_loop n s it left p conflicting before = Some r \<and> pred_option (live s) r"
proof (induction n arbitrary: left p conflicting before)
  case (Suc n)
  show ?case
  proof (cases p)
    case None
    with Suc.prems show ?thesis by simp
  next
    case (Some i)
    with Suc.prems obtain x where x: "deref s i = Some x" and i: "live s i" by (auto simp: live_def)
    have fin: "finite {j. live s j \<and> rank i \<le> rank j}" by (rule finite_subset [OF _ live_card(1) [OF g]]) auto
    have "0 < card {j. live s j \<and> rank i \<le> rank j}" using i by (subst card_gt_0_iff) (use fin in auto)
    moreover have c: "card {j. live s j \<and> rank i \<le> rank j} < Suc n" using Suc.prems(3) [OF Some] .
    ultimately have n: "0 < n" by simp
    have "live s r \<and> card {j. live s j \<and> rank r \<le> rank j} < n" if "it_right x = Some r" for r
    proof -
      from linkedD(2) [OF l x that] have r: "live s r" "rank i < rank r" by auto
      have "card {j. live s j \<and> rank r \<le> rank j} < card {j. live s j \<and> rank i \<le> rank j}"
        by (rule card_shrink [OF live_card(1) [OF g] i]) (use r in auto)
      with c r show ?thesis by simp
    qed
    then have next_ok: "pred_option (live s) (it_right x)"
      "\<And>r. it_right x = Some r \<Longrightarrow> card {j. live s j \<and> rank r \<le> rank j} < n"
      by (cases "it_right x"; simp)+
    have step: "\<exists>r. conflict_loop n s it left' (it_right x) c' b' = Some r \<and> pred_option (live s) r"
      if "pred_option (live s) left'" for left' c' b'
      by (rule Suc.IH [OF that next_ok n])
    have i': "pred_option (live s) (Some i)" using i by simp
    show ?thesis
      using Some x Suc.prems(1) step [OF i'] step [OF Suc.prems(1)]
      by (simp add: Let_def split: option.splits)
  qed
qed simp

lemma conflict_fuel:
  assumes "gapless s" and "linked rank s" and "pred_option (live s) left" and "pred_option (live s) p"
  shows "\<exists>r. conflict_loop (walk_fuel s) s it left p [] [] = Some r \<and> pred_option (live s) r"
proof (rule conflict_loop_ends [OF assms])
  show "card {j. live s j \<and> rank i \<le> rank j} < walk_fuel s" for i
    by (rule le_less_trans [OF card_mono [OF live_card(1) [OF assms(1)]] live_card(2) [OF assms(1)]]) auto
  show "0 < walk_fuel s" by (simp add: walk_fuel_def)
qed

lemma item_right_linked:
  assumes "linked rank s" and "item_right s l = Some r"
  shows "live s r" and "rank l < rank r" and "live s l"
  using assms(2) linkedD(2) [OF assms(1), of l] by (auto simp: item_right_def live_def split: option.splits)

lemma place_left_ends:
  assumes "gapless s" and "linked rank s" and "pred_option (live s) (it_left it)"
  shows "\<exists>left. place_left s it par = Some left \<and> pred_option (live s) left"
proof (cases "needs_conflict s it")
  case False
  then show ?thesis using assms by (simp add: place_left_def)
next
  case True
  have start: "pred_option (live s) (ytype_start (get_type s par))"
    using linked_start [OF assms(2)] by (cases "ytype_start (get_type s par)") auto
  have mi: "pred_option (live s) (map_item s par k)" for k
    using linked_map_item [OF assms(2)] by (cases "map_item s par k") (auto simp: map_item_def)
  have ir: "pred_option (live s) (item_right s l)" for l
    using item_right_linked(1) [OF assms(2)] by (cases "item_right s l") auto
  have "\<exists>first. (case it_left it of Some l \<Rightarrow> Some (item_right s l)
      | None \<Rightarrow> if HasParentSub it then leftmost (walk_fuel s) s (map_item s par (ParentSub it))
               else Some (ytype_start (get_type s par))) = Some first \<and> pred_option (live s) first"
    using leftmost_fuel [OF assms(1,2) mi [of "ParentSub it"]] start ir by (cases "it_left it") simp_all
  then obtain first where "(case it_left it of Some l \<Rightarrow> Some (item_right s l)
      | None \<Rightarrow> if HasParentSub it then leftmost (walk_fuel s) s (map_item s par (ParentSub it))
               else Some (ytype_start (get_type s par))) = Some first"
    and f: "pred_option (live s) first" by blast
  with conflict_fuel [OF assms f] True show ?thesis
    by (auto simp: place_left_def resolveConflict_def split: option.splits)
qed

subsection \<open>Lemmas: an item is linked in\<close>

text \<open>
  \<open>hooked it s s'\<close>: the only changes to the items of \<open>s\<close> are that the neighbours of \<open>it\<close> now
  point to it, and that items may have been deleted.
\<close>

definition hook_kept :: "item \<Rightarrow> ID \<Rightarrow> item \<Rightarrow> item \<Rightarrow> bool" where
  "hook_kept it j y0 y \<longleftrightarrow> it_parent y = it_parent y0
     \<and> (it_left y = it_left y0 \<or> it_left y = Some (item_ID it) \<and> it_right it = Some j)
     \<and> (it_right y = it_right y0 \<or> it_right y = Some (item_ID it) \<and> it_left it = Some j)"

definition hooked :: "item \<Rightarrow> store \<Rightarrow> store \<Rightarrow> bool" where
  "hooked it s s' \<longleftrightarrow> gapless s' \<and> (\<forall>c. State s' c = State s c) \<and> (\<forall>i. deleted_at s i \<longrightarrow> deleted_at s' i)
     \<and> (\<forall>j. live s' j \<longleftrightarrow> live s j)
     \<and> (\<forall>j y. deref s' j = Some y \<longrightarrow> (\<exists>y0. deref s j = Some y0 \<and> hook_kept it j y0 y))
     \<and> (\<forall>s''. list_all (\<lambda>(t, y). type_linked s'' y) (types s) \<longrightarrow> live s'' (item_ID it) \<longrightarrow>
          list_all (\<lambda>(t, y). type_linked s'' y) (types s'))"

lemma hook_kept_trans: "hook_kept it j a b \<Longrightarrow> hook_kept it j b c \<Longrightarrow> hook_kept it j a c"
  by (auto simp: hook_kept_def)

lemma hooked_refl: "gapless s \<Longrightarrow> hooked it s s"
  by (auto simp: hooked_def hook_kept_def)

lemma hooked_trans:
  assumes "hooked it a b" and "hooked it b c"
  shows "hooked it a c"
proof -
  have "\<exists>y0. deref a j = Some y0 \<and> hook_kept it j y0 y" if "deref c j = Some y" for j y
  proof -
    from assms(2) that obtain y1 where "deref b j = Some y1" "hook_kept it j y1 y"
      unfolding hooked_def by blast
    moreover from assms(1) this(1) obtain y0 where "deref a j = Some y0" "hook_kept it j y0 y1"
      unfolding hooked_def by blast
    ultimately show ?thesis using hook_kept_trans by blast
  qed
  with assms show ?thesis unfolding hooked_def by simp
qed

lemma hooked_upd:
  assumes "gapless s" and "\<And>x. item_ID (f x) = item_ID x" and "\<And>x. Content (f x) = Content x"
    and "\<And>x. it_deleted x \<Longrightarrow> it_deleted (f x)" and "\<And>x. hook_kept it i x (f x)"
  shows "hooked it s (upd_item i f s)"
proof -
  have "live (upd_item i f s) j \<longleftrightarrow> live s j" for j by (simp add: live_def deref_upd assms(2))
  moreover have "\<exists>y0. deref s j = Some y0 \<and> hook_kept it j y0 y" if "deref (upd_item i f s) j = Some y" for j y
    using that assms(5) by (auto simp: deref_upd assms(2) hook_kept_def split: if_splits)
  ultimately show ?thesis
    using gapless_upd [OF assms(1), of f i] deleted_at_upd [of f s _ i] assms(2-4) unfolding hooked_def by simp
qed

lemma hooked_set_type:
  assumes "gapless s"
    and "\<And>s''. list_all (\<lambda>(t, y). type_linked s'' y) (types s) \<Longrightarrow> live s'' (item_ID it) \<Longrightarrow> type_linked s'' y"
  shows "hooked it s (set_type t y s)"
proof -
  have "list_all (\<lambda>(t, y). type_linked s'' y) (types (set_type t y s))"
    if "list_all (\<lambda>(t, y). type_linked s'' y) (types s)" "live s'' (item_ID it)" for s''
    using that assms(2) [OF that] by (simp add: set_type_def list_all_update)
  then show ?thesis using assms(1) by (auto simp: hooked_def hook_kept_def live_def)
qed

lemma types_get_type: "list_all (\<lambda>(t, y). type_linked s' y) (types s) \<Longrightarrow> type_linked s' (get_type s t)"
  by (auto simp: get_type_def list_all_iff type_linked_def newAbstractType_def
      split: option.splits dest!: map_of_SomeD)

lemma hooked_set_map_item:
  assumes "gapless s"
  shows "hooked it s (set_map_item t k (item_ID it) s)"
  unfolding set_map_item_def Let_def
  by (rule hooked_set_type [OF assms])
    (use types_get_type in \<open>auto simp: type_linked_def intro!: list_all_update\<close>)

lemma hooked_deleteItem: "gapless s \<Longrightarrow> hooked it s (deleteItem i s)"
  unfolding deleteItem_def by (rule hooked_upd) (auto simp: hook_kept_def)

lemma hookedD: "hooked it s s' \<Longrightarrow> gapless s'"
  by (simp add: hooked_def)

lemma relink_item_ok:
  assumes "gapless s" and "linked rank s" and "pred_option (live s) (it_left it)"
  shows "\<exists>r s1. relink_item s it par = Some (it\<lparr>it_right := r\<rparr>, s1) \<and> pred_option (live s) r
     \<and> (\<forall>a b. it_left it = Some a \<longrightarrow> r = Some b \<longrightarrow> rank a < rank b) \<and> hooked (it\<lparr>it_right := r\<rparr>) s s1"
proof (cases "it_left it")
  case (Some l)
  let ?r = "item_right s l"
  have "pred_option (live s) ?r" using item_right_linked(1) [OF assms(2)] by (cases ?r) auto
  moreover have "hooked (it\<lparr>it_right := ?r\<rparr>) s (upd_item l (\<lambda>x. x\<lparr>it_right := Some (item_ID it)\<rparr>) s)"
    by (rule hooked_upd [OF assms(1)]) (simp_all add: hook_kept_def Some)
  ultimately show ?thesis
    using Some item_right_linked(2) [OF assms(2)] by (intro exI) (auto simp: relink_item_def)
next
  case None
  show ?thesis
  proof (cases "HasParentSub it")
    case True
    have "pred_option (live s) (map_item s par (ParentSub it))"
      using linked_map_item [OF assms(2)] by (cases "map_item s par (ParentSub it)") (auto simp: map_item_def)
    then obtain r where "leftmost (walk_fuel s) s (map_item s par (ParentSub it)) = Some r" "pred_option (live s) r"
      using leftmost_fuel [OF assms(1,2)] by blast
    then show ?thesis using None True hooked_refl [OF assms(1)]
      by (intro exI [of _ r] exI [of _ s]) (simp add: relink_item_def)
  next
    case False
    let ?y = "get_type s par"
    have "pred_option (live s) (ytype_start ?y)"
      using linked_start [OF assms(2)] by (cases "ytype_start ?y") auto
    moreover have "hooked (it\<lparr>it_right := ytype_start ?y\<rparr>) s (set_type par (?y\<lparr>ytype_start := Some (item_ID it)\<rparr>) s)"
      by (rule hooked_set_type [OF assms(1)]) (use types_get_type in \<open>auto simp: type_linked_def\<close>)
    ultimately show ?thesis using None False
      by (intro exI [of _ "ytype_start ?y"] exI) (auto simp: relink_item_def Let_def)
  qed
qed

lemma link_right_ok:
  assumes "gapless s"
  shows "hooked it s (link_right s it par)"
proof (cases "it_right it")
  case (Some r)
  then show ?thesis
    by (simp add: link_right_def) (rule hooked_upd [OF assms], simp_all add: hook_kept_def)
next
  case None
  note m = hooked_set_map_item [OF assms, of it par "ParentSub it"]
  show ?thesis
  proof (cases "it_left it")
    case None
    with m hooked_refl [OF assms] \<open>it_right it = None\<close> show ?thesis
      by (auto simp: link_right_def Let_def)
  next
    case (Some l)
    from hooked_trans [OF m hooked_deleteItem [OF hookedD [OF m], of it l]] hooked_refl [OF assms]
      Some \<open>it_right it = None\<close> show ?thesis
      by (auto simp: link_right_def Let_def)
  qed
qed

lemma finish_item_ok:
  assumes "gapless s" and "State s (Client (item_ID it)) = Clock (item_ID it)" and "0 < Len (Content it)"
  shows "\<exists>x s1. Append (Item it) s = Inr s1 \<and> hooked it s1 (finish_item s it par)
     \<and> deref (finish_item s it par) (item_ID it) = Some x \<and> it_left x = it_left it \<and> it_right x = it_right it
     \<and> it_parent x = it_parent it"
proof -
  obtain s1 where s1: "Append (Item it) s = Inr s1" using assms(2) by (simp add: Append_def Let_def)
  have g1: "gapless s1" by (rule Append_gapless(1) [OF assms(1) s1]) (simp_all add: assms(3))
  have d1: "deref s1 (item_ID it) = Some it"
    using deref_Append [OF assms(1) s1] assms(3) by simp
  define s2 where "s2 = (case Content it of
      ContentDeleted n \<Rightarrow> upd_item (item_ID it) (\<lambda>x. x\<lparr>it_deleted := True\<rparr>) s1 | _ \<Rightarrow> s1)"
  have h2: "hooked it s1 s2"
    unfolding s2_def by (cases "Content it") (auto intro!: hooked_refl [OF g1] hooked_upd [OF g1] simp: hook_kept_def)
  have d2: "\<exists>x. deref s2 (item_ID it) = Some x \<and> it_left x = it_left it \<and> it_right x = it_right it \<and> it_parent x = it_parent it"
    unfolding s2_def using d1 by (cases "Content it") (simp_all add: deref_upd)
  have f: "finish_item s it par = (if parent_deleted s2 par \<or> HasParentSub it \<and> it_right it \<noteq> None
      then deleteItem (item_ID it) s2 else s2)"
    by (simp only: finish_item_def s2_def s1 append_ignore_def Let_def sum.case)
  have "\<exists>x. deref (finish_item s it par) (item_ID it) = Some x \<and> it_left x = it_left it \<and> it_right x = it_right it
      \<and> it_parent x = it_parent it"
  proof -
    from d2 obtain x where x: "deref s2 (item_ID it) = Some x" "it_left x = it_left it" "it_right x = it_right it"
      "it_parent x = it_parent it" by blast
    let ?x = "if it_deleted x then x else x\<lparr>it_deleted := True\<rparr>"
    have "deref (deleteItem (item_ID it) s2) (item_ID it) = Some ?x" by (simp add: deleteItem_def deref_upd x(1))
    with x show ?thesis unfolding f by (cases "it_deleted x") auto
  qed
  moreover have "hooked it s1 (finish_item s it par)"
    unfolding f using h2 hooked_trans [OF h2 hooked_deleteItem [OF hookedD [OF h2]]] by auto
  ultimately show ?thesis using s1 by blast
qed

text \<open>The pointers of an item that is about to be linked in.\<close>

definition resolved :: "store \<Rightarrow> item \<Rightarrow> bool" where
  "resolved s it \<longleftrightarrow> pred_option (live s) (it_left it)
     \<and> (\<forall>owner. it_parent it = Some (TOwned owner) \<longrightarrow> live s owner)"

lemma deleted_at_Append:
  assumes "Append st s = Inr s'" and "deleted_at s i"
  shows "deleted_at s' i"
  using assms(2) Append_structs(1) [OF assms(1)] by (auto simp: deleted_at_def)

lemma not_live_State: "gapless s \<Longrightarrow> State s (Client i) \<le> Clock i \<Longrightarrow> \<not> live s i"
  using live_struct [of s i] struct_at_own_clock [of s _ "Client i"] covered_iff_State [of s "Client i" "Clock i"]
  by fastforce

lemma place_gc_wf:
  assumes "wf_store s" and "State s (Client i) = Clock i" and "0 < n"
  shows "wf_store (append_ignore (GC i n) s)" and "grows s (append_ignore (GC i n) s)"
    and "State (append_ignore (GC i n) s) c = State s c + (if c = Client i then n else 0)"
proof -
  obtain rank where g: "gapless s" and l: "linked rank s" using assms(1) by (auto simp: wf_store_def)
  obtain s1 where s1: "Append (GC i n) s = Inr s1" using assms(2) by (simp add: Append_def Let_def)
  then have e: "append_ignore (GC i n) s = s1" by (simp add: append_ignore_def)
  have "0 < StructLen (GC i n)" "GC i n \<noteq> Skip j m" for j m using assms(3) by simp_all
  note a = Append_gapless [OF g s1 this]
  have d: "deref s1 j = deref s j" for j using deref_Append [OF g s1] assms(3) by simp
  then have live: "live s1 = live s" by (simp add: live_def fun_eq_iff)
  have "linked rank s1"
    using l Append_structs(3) [OF s1] unfolding linked_def item_linked_def type_linked_def live by (simp add: d)
  with a(1) show "wf_store (append_ignore (GC i n) s)" unfolding e wf_store_def by blast
  show "State (append_ignore (GC i n) s) c = State s c + (if c = Client i then n else 0)"
    unfolding e using a(2) by simp
  show "grows s (append_ignore (GC i n) s)"
    unfolding e grows_def using a(2) deleted_at_Append [OF s1] by (simp add: live_def d)
qed

lemma place_item_wf:
  assumes "wf_store s" and "State s (Client (item_ID it)) = Clock (item_ID it)" and "0 < Len (Content it)"
    and "resolved s it"
  shows "\<exists>s'. place_item s it = Some s' \<and> wf_store s' \<and> grows s s'
     \<and> (\<forall>c. State s' c = State s c + (if c = Client (item_ID it) then Len (Content it) else 0))"
proof (cases "it_parent it")
  case None
  with place_gc_wf [OF assms(1-3)] show ?thesis by (simp add: place_item_def)
next
  case (Some par)
  obtain rank where g: "gapless s" and l: "linked rank s" using assms(1) by (auto simp: wf_store_def)
  obtain left where left: "place_left s it par = Some left" "pred_option (live s) left"
    using place_left_ends [OF g l, of it par] assms(4) by (auto simp: resolved_def)
  let ?it1 = "it\<lparr>it_left := left\<rparr>"
  obtain r s1 where r: "relink_item s ?it1 par = Some (?it1\<lparr>it_right := r\<rparr>, s1)" "pred_option (live s) r"
      "\<And>a b. left = Some a \<Longrightarrow> r = Some b \<Longrightarrow> rank a < rank b" "hooked (?it1\<lparr>it_right := r\<rparr>) s s1"
    using relink_item_ok [OF g l, of ?it1 par] left(2) by auto
  define x where "x = ?it1\<lparr>it_right := r\<rparr>"
  have x: "item_ID x = item_ID it" "Content x = Content it" "it_parent x = Some par"
    by (simp_all add: x_def Some)
  define s2 where "s2 = link_right s1 x par"
  have h: "hooked x s s2"
    unfolding s2_def by (rule hooked_trans [OF r(4) [folded x_def] link_right_ok [OF hookedD [OF r(4)]]])
  have st2: "State s2 c = State s c" for c using h by (simp add: hooked_def)
  obtain y s3 where y: "Append (Item x) s2 = Inr s3" "hooked x s3 (finish_item s2 x par)"
      "deref (finish_item s2 x par) (item_ID x) = Some y" "it_left y = it_left x" "it_right y = it_right x"
      "it_parent y = it_parent x"
    using finish_item_ok [OF hookedD [OF h], of x par] assms(2,3) st2 x by auto
  define s4 where "s4 = finish_item s2 x par"
  note y = y [folded s4_def]
  have res: "place_item s it = Some s4"
    using Some left(1) r(1) by (simp add: place_item_def s4_def s2_def x_def)
  have pos: "0 < StructLen (Item x)" "Item x \<noteq> Skip j m" for j m using assms(3) x by simp_all
  note a3 = Append_gapless [OF hookedD [OF h] y(1) pos]
  have d3: "deref s3 j = (if j = item_ID x then Some x else deref s2 j)" for j
    using deref_Append [OF hookedD [OF h] y(1) pos] by auto
  have st: "State s4 c = State s c + (if c = Client (item_ID it) then Len (Content it) else 0)" for c
    using y(2) a3(2) st2 x by (simp add: hooked_def)
  have new: "\<not> live s (item_ID x)" using not_live_State [OF g] assms(2) x by simp
  have mono: "live s4 j" if "live s j" for j
    using that y(2) h d3 by (auto simp: hooked_def live_def split: if_splits)
  have old: "\<exists>y0. deref s j = Some y0 \<and> hook_kept x j y0 z" if "j \<noteq> item_ID x" "deref s4 j = Some z" for j z
  proof -
    from y(2) that(2) obtain z1 where "deref s3 j = Some z1" "hook_kept x j z1 z" unfolding hooked_def by blast
    moreover from this(1) that(1) d3 have "deref s2 j = Some z1" by simp
    with h obtain z0 where "deref s j = Some z0" "hook_kept x j z0 z1" unfolding hooked_def by blast
    ultimately show ?thesis using hook_kept_trans by blast
  qed
  have live4: "live s4 (item_ID x)" using y(3) by (simp add: live_def)
  have "list_all (\<lambda>(t, y). type_linked s4 y) (types s)"
    using l mono by (auto simp: linked_def list_all_iff intro: type_linked_mono)
  with h live4 have "list_all (\<lambda>(t, y). type_linked s4 y) (types s2)" unfolding hooked_def by blast
  then have "list_all (\<lambda>(t, y). type_linked s4 y) (types s3)" using Append_structs(3) [OF y(1)] by simp
  with y(2) live4 have types: "list_all (\<lambda>(t, y). type_linked s4 y) (types s4)" unfolding hooked_def by blast
  have "\<exists>rank. linked rank s4"
  proof (rule linked_insert [OF l new y(3) _ mono _ _ _ _ _ types])
    fix j z assume "j \<noteq> item_ID x" "deref s4 j = Some z"
    from old [OF this] show "\<exists>y0. deref s j = Some y0 \<and> it_parent z = it_parent y0
        \<and> (it_left z = it_left y0 \<or> it_left z = Some (item_ID x) \<and> it_right y = Some j)
        \<and> (it_right z = it_right y0 \<or> it_right z = Some (item_ID x) \<and> it_left y = Some j)"
      by (simp add: hook_kept_def y)
  qed (use left(2) r(2,3) assms(4) Some in \<open>auto simp: y x_def resolved_def\<close>)
  then have "wf_store s4" using y(2) by (simp add: wf_store_def hooked_def)
  moreover have "deleted_at s4 i" if "deleted_at s i" for i
  proof -
    have "deleted_at s2 i" using h that by (simp add: hooked_def)
    then have "deleted_at s3 i" by (rule deleted_at_Append [OF y(1)])
    with y(2) show ?thesis by (simp add: hooked_def)
  qed
  then have "grows s s4" unfolding grows_def using st mono by simp
  ultimately show ?thesis using res st by blast
qed

subsection \<open>Lemmas: one struct\<close>

definition fresh :: "item \<Rightarrow> bool" where
  "fresh it \<longleftrightarrow> it_left it = None \<and> it_right it = None \<and> it_parent it = None"

lemma wire_item_fresh: "wire_item it \<Longrightarrow> fresh it"
  by (simp add: wire_item_def fresh_def)

lemma wf_set_type:
  assumes "wf_store s" and "\<And>i. ytype_start y = Some i \<Longrightarrow> live s i" and "mapItems y = []"
  shows "wf_store (set_type t y s)" and "same_content s (set_type t y s)"
proof -
  obtain rank where g: "gapless s" and l: "linked rank s" using assms(1) by (auto simp: wf_store_def)
  have live: "live (set_type t y s) = live s" by (simp add: live_def fun_eq_iff)
  have "type_linked s y" using assms(2,3) by (cases "ytype_start y") (auto simp: type_linked_def)
  then have "list_all (\<lambda>(t, y). type_linked s y) (types (set_type t y s))"
    using l by (simp add: linked_def set_type_def list_all_update)
  then have "linked rank (set_type t y s)"
    using l unfolding linked_def item_linked_def type_linked_def live by simp
  with g show "wf_store (set_type t y s)" unfolding wf_store_def by auto
  show "same_content s (set_type t y s)" unfolding same_content_def live by simp
qed

lemma wf_doc_Get: "wf_store s \<Longrightarrow> wf_store (doc_Get name s) \<and> same_content s (doc_Get name s)"
  by (auto simp: doc_Get_def newAbstractType_def intro: wf_set_type split: option.splits)

lemma same_content_live: "same_content s s' \<Longrightarrow> pred_option (live s) p \<Longrightarrow> pred_option (live s') p"
  by (cases p) (auto simp: same_content_def)

lemma parent_live:
  assumes "wf_store s" and "deref s i = Some x" and "it_parent x = Some (TOwned owner)"
  shows "live s owner"
  using assms linkedD(4) by (auto simp: wf_store_def)

lemma parent_same: "same_content s s' \<Longrightarrow> live s i \<Longrightarrow> live s' i"
  by (simp add: same_content_def)

definition kept_item :: "item \<Rightarrow> item \<Rightarrow> bool" where
  "kept_item a b \<longleftrightarrow> item_ID b = item_ID a \<and> Content b = Content a"

lemma resolve_parent_wf:
  assumes "wf_store s" and "fresh it \<or> it_parent it = None" and "pred_option (live s) (it_left it)"
    and "\<And>l owner. left = Some l \<Longrightarrow> it_parent l = Some (TOwned owner) \<Longrightarrow> live s owner"
    and "\<And>r owner. right = Some r \<Longrightarrow> it_parent r = Some (TOwned owner) \<Longrightarrow> live s owner"
    and "resolve_parent s it left right = (it', s')"
  shows "wf_store s'" and "same_content s s'" and "resolved s' it'" and "kept_item it it'"
proof -
  have np: "it_parent it = None" using assms(2) by (auto simp: fresh_def)
  have g: "gapless s" using assms(1) by (simp add: wf_store_def)
  have own: "live s (item_ID x)" if "GetItem s p = Inr x" for p x
    using GetItem_deref [OF g that] by (simp add: live_def)
  have "wf_store s' \<and> same_content s s' \<and> resolved s' it' \<and> kept_item it it'"
  proof (cases "Parent it")
    case None
    then show ?thesis using assms np
      by (auto simp: resolve_parent_def resolved_def kept_item_def split: option.splits)
  next
    case (Some p)
    show ?thesis
    proof (cases p)
      case (PRoot name)
      with Some assms(6) have e: "it' = it\<lparr>it_parent := Some (TRoot name)\<rparr>" "s' = doc_Get name s"
        by (simp_all add: resolve_parent_def)
      note d = wf_doc_Get [OF assms(1), of name]
      with e assms(3) show ?thesis
        by (auto simp: resolved_def kept_item_def same_content_live)
    next
      case (PItem i)
      with Some assms(1,3,6) own show ?thesis
        by (auto simp: resolve_parent_def resolved_def kept_item_def split: sum.splits content.splits)
    qed
  qed
  then show "wf_store s'" "same_content s s'" "resolved s' it'" "kept_item it it'" by blast+
qed

lemma resolve_right_wf:
  assumes "wf_store s" and "it_parent it = None" and "pred_option (live s) (it_left it)"
    and "\<And>l owner. left = Some l \<Longrightarrow> it_parent l = Some (TOwned owner) \<Longrightarrow> live s owner"
    and "resolve_right s it left = (it', s')"
  shows "wf_store s' \<and> same_content s s' \<and> resolved s' it' \<and> kept_item it it'"
proof (cases "RightOrigin it")
  case None
  with assms(5) have "resolve_parent s it left None = (it', s')" by (simp add: resolve_right_def)
  from resolve_parent_wf [OF assms(1) _ assms(3,4) _ this] assms(2) show ?thesis by simp
next
  case (Some r)
  show ?thesis
  proof (cases "GetItemCleanStart s r")
    case (Inl er)
    with Some assms show ?thesis by (auto simp: resolve_right_def resolved_def kept_item_def)
  next
    case (Inr p)
    obtain right s1 where p: "p = (right, s1)" by fastforce
    note c = GetItemCleanStart_wf [OF assms(1) Inr [unfolded p]]
    let ?it = "it\<lparr>it_right := Some (item_ID right)\<rparr>"
    from Some Inr p assms(5) have e: "resolve_parent s1 ?it left (Some right) = (it', s')"
      by (simp add: resolve_right_def)
    have l: "left = Some l \<Longrightarrow> it_parent l = Some (TOwned owner) \<Longrightarrow> live s1 owner" for l owner
      using assms(4) parent_same [OF c(2)] by blast
    have r: "Some right = Some r \<Longrightarrow> it_parent r = Some (TOwned owner) \<Longrightarrow> live s1 owner" for r owner
      using parent_live [OF c(1,3)] by simp
    have "fresh ?it \<or> it_parent ?it = None" "pred_option (live s1) (it_left ?it)"
      using assms(2,3) same_content_live [OF c(2)] by simp_all
    from resolve_parent_wf [OF c(1) this l r e] same_content_trans [OF c(2)] show ?thesis
      by (auto simp: kept_item_def)
  qed
qed

lemma resolve_left_wf:
  assumes "wf_store s" and "fresh it" and "resolve_left s it = (it', s')"
  shows "wf_store s' \<and> same_content s s' \<and> resolved s' it' \<and> kept_item it it'"
proof (cases "Origin it")
  case None
  with assms have "resolve_right s it None = (it', s')" by (simp add: resolve_left_def)
  from resolve_right_wf [OF assms(1) _ _ _ this] assms(2) show ?thesis by (simp add: fresh_def)
next
  case (Some l)
  show ?thesis
  proof (cases "GetItemCleanEnd s l")
    case (Inl er)
    with Some assms show ?thesis by (auto simp: resolve_left_def resolved_def kept_item_def)
  next
    case (Inr p)
    obtain left s1 where p: "p = (left, s1)" by fastforce
    note c = GetItemCleanEnd_wf [OF assms(1) Inr [unfolded p]]
    let ?it = "it\<lparr>it_left := Some (item_ID left), Origin := Some (LastID left)\<rparr>"
    from Some Inr p assms(3) have e: "resolve_right s1 ?it (Some left) = (it', s')"
      by (simp add: resolve_left_def)
    have "it_parent ?it = None" "pred_option (live s1) (it_left ?it)"
      using assms(2) c(3) by (simp_all add: fresh_def live_def)
    from resolve_right_wf [OF c(1) this _ e] parent_live [OF c(1,3)] same_content_trans [OF c(2)] show ?thesis
      by (auto simp: kept_item_def)
  qed
qed

lemma resolved_mono: "resolved s it \<Longrightarrow> same_content s s' \<Longrightarrow> resolved s' it"
  by (auto simp: resolved_def same_content_live parent_same)

lemma integrateItem_wf:
  assumes "wf_store s" and "resolved s it" and "State s (Client (item_ID it)) = Clock (item_ID it) + offset"
    and "offset < Len (Content it)"
  shows "\<exists>s'. integrateItem s it offset = Some s' \<and> wf_store s' \<and> grows s s'"
proof (cases "offset = 0")
  case True
  with assms place_item_wf [OF assms(1) _ _ assms(2)] show ?thesis by (auto simp: integrateItem_def)
next
  case False
  let ?i = "ID (Client (item_ID it)) (Clock (item_ID it) + offset)"
  show ?thesis
  proof (cases "GetItemCleanEnd s (ID (Client (item_ID it)) (Clock (item_ID it) + offset - 1))")
    case (Inl er)
    with False assms(1) show ?thesis by (simp add: integrateItem_def Let_def)
  next
    case (Inr p)
    obtain left s1 where p: "p = (left, s1)" by fastforce
    note c = GetItemCleanEnd_wf [OF assms(1) Inr [unfolded p]]
    let ?it = "it\<lparr>item_ID := ?i, it_left := Some (item_ID left), Origin := Some (LastID left)\<rparr>"
    show ?thesis
    proof (cases "Splice (Content it) offset")
      case (Inl er)
      with False Inr p c(1) same_content_grows [OF c(2)] show ?thesis
        by (simp add: integrateItem_def Let_def)
    next
      case sp: (Inr q)
      obtain head tail where q: "q = (head, tail)" by fastforce
      have "Len tail = Len (Content it) - offset"
        using Splice_Len(2) [of "Content it" offset head tail] sp q assms(4) by simp
      then have "0 < Len (Content (?it\<lparr>Content := tail\<rparr>))" using assms(4) by simp
      moreover have "State s1 (Client (item_ID (?it\<lparr>Content := tail\<rparr>))) = Clock (item_ID (?it\<lparr>Content := tail\<rparr>))"
        using c(2) assms(3) by (simp add: same_content_def)
      moreover have "resolved s1 (?it\<lparr>Content := tail\<rparr>)"
        using resolved_mono [OF assms(2) c(2)] c(3) by (simp add: resolved_def live_def)
      ultimately obtain s' where "place_item s1 (?it\<lparr>Content := tail\<rparr>) = Some s'" "wf_store s'" "grows s1 s'"
        using place_item_wf [OF c(1)] by blast
      moreover from this(3) have "grows s s'" by (rule grows_trans [OF same_content_grows [OF c(2)]])
      ultimately show ?thesis using False Inr p sp q by (simp add: integrateItem_def Let_def)
    qed
  qed
qed

end
