(* ===== verification/Doc.thy ===== *)
theory Doc
  imports Integrate
begin

text \<open>
  The document, \<open>doc.go\<close>: applying an update with its queues per client, the updates and
  deletions that have to wait, the delete set of a document and the encoding of what a peer is
  missing.

  The loop over the queues ends because every round with progress takes a struct off a queue, and
  the loop over the waiting updates because it stops unless fewer structs wait afterwards. The
  lemmas show that applying an update always returns, keeps the document well-formed and never
  loses a clock or a deletion.
\<close>

subsection \<open>State\<close>

record doc =
  doc_ClientID :: client_id
  doc_store :: store
  pending :: "Update list"
  pendingDeletes :: delete_set

definition NewDoc :: "client_id \<Rightarrow> doc" where
  "NewDoc clientID = \<lparr>doc_ClientID = clientID, doc_store = NewStructStore, pending = [],
     pendingDeletes = NewDeleteSet\<rparr>"

definition doc_StateVector :: "doc \<Rightarrow> state_vector" where
  "doc_StateVector d = store_StateVector (doc_store d)"

definition doc_EncodeStateVector :: "doc \<Rightarrow> bytes res" where
  "doc_EncodeStateVector d = EncodeStateVector (store_StateVector (doc_store d))"

definition PendingCount :: "doc \<Rightarrow> nat" where
  "PendingCount d = length (pending d)"

definition Roots :: "doc \<Rightarrow> bytes list" where
  "Roots d = List.map_filter (\<lambda>(t, y). case t of TRoot name \<Rightarrow> Some name | TOwned i \<Rightarrow> None) (types (doc_store d))"

subsection \<open>The queues of an update\<close>

fun is_Skip :: "struct \<Rightarrow> bool" where
  "is_Skip (Skip i n) = True"
| "is_Skip _ = False"

fun drainQueue :: "store \<Rightarrow> struct list \<Rightarrow> bool \<Rightarrow> (store \<times> struct list \<times> bool) option" where
  "drainQueue s [] progress = Some (s, [], progress)"
| "drainQueue s (head # queue) progress =
     (if is_Skip head then drainQueue s queue True
      else (let i = StructID head;
                state = State s (Client i)
            in if state < Clock i then Some (s, head # queue, progress)
               else (let offset = state - Clock i
                     in if StructLen head \<le> offset then drainQueue s queue True
                        else case resolve s head of
                          None \<Rightarrow> Some (s, head # queue, progress)
                        | Some (head', s') \<Rightarrow>
                            (case integrateStruct s' head' offset of
                               None \<Rightarrow> None
                             | Some s'' \<Rightarrow> drainQueue s'' queue True))))"

type_synonym queues = "(client_id \<times> struct list) list"

definition queue_of :: "queues \<Rightarrow> client_id \<Rightarrow> struct list" where
  "queue_of qs client = (case map_of qs client of None \<Rightarrow> [] | Some q \<Rightarrow> q)"

definition enqueue :: "ClientBlock \<Rightarrow> queues \<times> client_id list \<Rightarrow> queues \<times> client_id list" where
  "enqueue block = (\<lambda>(qs, order).
     (AList.update (cbClient block) (queue_of qs (cbClient block) @ Structs block) qs,
      if map_of qs (cbClient block) = None then order @ [cbClient block] else order))"

fun drain_round :: "store \<Rightarrow> queues \<Rightarrow> client_id list \<Rightarrow> bool \<Rightarrow> (store \<times> queues \<times> bool) option" where
  "drain_round s qs [] progress = Some (s, qs, progress)"
| "drain_round s qs (client # order) progress =
     (case drainQueue s (queue_of qs client) progress of
        None \<Rightarrow> None
      | Some (s', queue, progress') \<Rightarrow> drain_round s' (AList.update client queue qs) order progress')"

definition queued :: "queues \<Rightarrow> nat" where
  "queued qs = sum_list (map (\<lambda>(c, q). length q) qs)"

lemma drainQueue_length:
  "drainQueue s q p = Some (s', q', p') \<Longrightarrow> length q' \<le> length q \<and> (p' \<longrightarrow> p \<or> length q' < length q)"
proof (induction q arbitrary: s p)
  case (Cons head queue)
  show ?case using Cons.prems
    by (auto simp: Let_def split: if_splits option.splits prod.splits dest!: Cons.IH)
qed simp

lemma queued_update:
  assumes "length q \<le> length (queue_of qs c)"
  shows "queued (AList.update c q qs) + length (queue_of qs c) = queued qs + length q"
  using assms by (induction qs) (auto simp: queued_def queue_of_def)

lemma drain_round_queued:
  "drain_round s qs order p = Some (s', qs', p') \<Longrightarrow>
     queued qs' \<le> queued qs \<and> (p' \<longrightarrow> p \<or> queued qs' < queued qs)"
proof (induction s qs order p rule: drain_round.induct)
  case (2 s qs client order progress)
  then obtain s1 q p1 where d: "drainQueue s (queue_of qs client) progress = Some (s1, q, p1)"
    and r: "drain_round s1 (AList.update client q qs) order p1 = Some (s', qs', p')"
    by (auto split: option.splits prod.splits)
  note l = drainQueue_length [OF d]
  then have "queued (AList.update client q qs) + length (queue_of qs client) = queued qs + length q"
    by (intro queued_update) simp
  with 2(1) [OF d refl refl r] l show ?case by auto
qed simp

function integrate_loop :: "store \<Rightarrow> queues \<Rightarrow> client_id list \<Rightarrow> (store \<times> queues) option" where
  "integrate_loop s qs order =
     (case drain_round s qs order False of
        None \<Rightarrow> None
      | Some (s', qs', progress) \<Rightarrow> if \<not> progress then Some (s', qs') else integrate_loop s' qs' order)"
  by pat_completeness auto
termination
  by (relation "measure (\<lambda>(s, qs, order). queued qs)") (auto dest!: drain_round_queued)

declare integrate_loop.simps [simp del]

definition rest_blocks :: "queues \<Rightarrow> client_id list \<Rightarrow> ClientBlock list" where
  "rest_blocks qs order =
     List.map_filter (\<lambda>client.
       case queue_of qs client of
         [] \<Rightarrow> None
       | st # q \<Rightarrow> Some \<lparr>cbClient = client, StartClock = Clock (StructID st), Structs = st # q\<rparr>) order"

definition integrate :: "doc \<Rightarrow> Update \<Rightarrow> doc option" where
  "integrate d u =
     (let (qs, order) = fold enqueue (uClients u) ([], [])
      in case integrate_loop (doc_store d) qs order of
           None \<Rightarrow> None
         | Some (s, qs') \<Rightarrow>
             (let rest = rest_blocks qs' order;
                  d = d\<lparr>doc_store := s\<rparr>
              in Some (if rest \<noteq> []
                       then d\<lparr>pending := pending d @ [\<lparr>uClients = rest, Deletes = Some NewDeleteSet\<rparr>]\<rparr>
                       else d)))"

subsection \<open>Deletions\<close>

lemma structIDs_upd [simp]:
  "(\<And>x. item_ID (f x) = item_ID x) \<Longrightarrow>
     map StructID (store_Structs (upd_item i f s) c) = map StructID (store_Structs s c)"
  by (simp add: comp_def)

lemma structIDs_deleteItem:
  "map StructID (store_Structs (deleteItem i s) c) = map StructID (store_Structs s c)"
  by (simp add: deleteItem_def comp_def)

lemma splitItem_IDs:
  assumes "splitItem s it n k = Inr (right, s')"
  shows "map StructID (store_Structs s' c) = (if c = Client (item_ID it)
     then take (k + 1) (map StructID (store_Structs s c)) @ [ID c (Clock (item_ID it) + n)]
       @ drop (k + 1) (map StructID (store_Structs s c))
     else map StructID (store_Structs s c))"
proof -
  obtain head tail where sp: "Splice (Content it) n = Inr (head, tail)" "right = split_right it n tail"
    using splitItem_Inr [OF assms(1)] by blast
  show ?thesis
    using assms sp unfolding splitItem_def
    by (auto simp: Let_def comp_def take_map drop_map split: option.splits if_splits)
qed

lemma delete_loop_measure:
  assumes "map StructID (store_Structs s' client) = map StructID (store_Structs s client)
      \<or> (\<exists>i. to \<le> Clock i \<and> map StructID (store_Structs s' client) =
           take (idx + 1) (map StructID (store_Structs s client)) @ [i]
             @ drop (idx + 1) (map StructID (store_Structs s client)))"
    and "idx < length (store_Structs s client)" and "Clock (StructID (store_Structs s client ! idx)) < to"
  shows "length (filter (\<lambda>i. Clock i < to) (drop (idx + 1) (map StructID (store_Structs s' client))))
     < length (filter (\<lambda>i. Clock i < to) (drop idx (map StructID (store_Structs s client))))"
proof -
  let ?ids = "map StructID (store_Structs s client)"
  have "drop idx ?ids = ?ids ! idx # drop (idx + 1) ?ids" using Cons_nth_drop_Suc [of idx ?ids] assms(2) by simp
  then have "length (filter (\<lambda>i. Clock i < to) (drop idx ?ids)) = Suc (length (filter (\<lambda>i. Clock i < to) (drop (idx + 1) ?ids)))"
    using assms(2,3) by simp
  moreover have "filter (\<lambda>i. Clock i < to) (drop (idx + 1) (map StructID (store_Structs s' client)))
      = filter (\<lambda>i. Clock i < to) (drop (idx + 1) ?ids)"
    using assms(1,2) by (auto simp: min_def)
  ultimately show ?thesis by simp
qed

function delete_loop :: "client_id \<Rightarrow> clock \<Rightarrow> store \<Rightarrow> nat \<Rightarrow> store" where
  "delete_loop client to s idx =
     (let ss = store_Structs s client
      in if length ss \<le> idx then s
         else if to \<le> Clock (StructID (ss ! idx)) then s
         else case ss ! idx of
           Item it \<Rightarrow>
             if it_deleted it then delete_loop client to s (idx + 1)
             else if to < Clock (item_ID it) + Len (Content it)
             then (case splitItem s it (to - Clock (item_ID it)) idx of
                     Inl er \<Rightarrow> delete_loop client to s (idx + 1)
                   | Inr (right, s') \<Rightarrow> delete_loop client to (deleteItem (item_ID it) s') (idx + 1))
             else delete_loop client to (deleteItem (item_ID it) s) (idx + 1)
         | _ \<Rightarrow> delete_loop client to s (idx + 1))"
  by pat_completeness auto
termination
proof (relation "measure (\<lambda>(client, to, s, idx).
    length (filter (\<lambda>i. Clock i < to) (drop idx (map StructID (store_Structs s client)))))", goal_cases)
  case (4 client to s idx ss it p right s')
  then have "Clock (item_ID it) < to" by simp
  then have "map StructID (store_Structs s' client) = map StructID (store_Structs s client)
      \<or> (\<exists>i. to \<le> Clock i \<and> map StructID (store_Structs s' client) =
           take (idx + 1) (map StructID (store_Structs s client)) @ [i]
             @ drop (idx + 1) (map StructID (store_Structs s client)))"
    using splitItem_IDs [OF 4(7) [folded 4(8)], of client] by auto
  from delete_loop_measure [OF this] 4 show ?case
    by (simp add: structIDs_deleteItem del: map_map)
qed (use delete_loop_measure structIDs_deleteItem in fastforce)+

declare delete_loop.simps [simp del]

definition deleteRange :: "store \<Rightarrow> client_id \<Rightarrow> clock \<Rightarrow> clock \<Rightarrow> store" where
  "deleteRange s client from to =
     (if to \<le> from then s
      else (let (s, stop) =
                  (case GetItemCleanStart s (ID client from) of
                     Inr (it, s') \<Rightarrow> (s', False)
                   | Inl er \<Rightarrow> (s, (case store_Get s (ID client from) of Inl er \<Rightarrow> True | Inr st \<Rightarrow> False)))
            in if stop then s
               else case store_find s (ID client from) of
                 Inl er \<Rightarrow> s
               | Inr idx \<Rightarrow> delete_loop client to s idx))"

definition delete_one :: "client_id \<Rightarrow> clock \<Rightarrow> DeleteRange \<Rightarrow> doc \<Rightarrow> doc" where
  "delete_one client state r d =
     (if state \<le> rClock r
      then d\<lparr>pendingDeletes := Add client (rClock r) (rLen r) (pendingDeletes d)\<rparr>
      else (let end = rEnd r;
                d = (if state < end
                     then d\<lparr>pendingDeletes := Add client state (end - state) (pendingDeletes d)\<rparr> else d);
                end = (if state < end then state else end)
            in d\<lparr>doc_store := deleteRange (doc_store d) client (rClock r) end\<rparr>))"

definition applyDeleteSet :: "delete_set option \<Rightarrow> doc \<Rightarrow> doc" where
  "applyDeleteSet ds d =
     (case ds of
        None \<Rightarrow> d
      | Some ds \<Rightarrow>
          fold (\<lambda>(client, ranges) d.
            let state = State (doc_store d) client in fold (delete_one client state) ranges d) ds d)"

subsection \<open>Applying an update\<close>

definition count_structs :: "Update list \<Rightarrow> nat" where
  "count_structs us = sum_list (map (\<lambda>u. sum_list (map (\<lambda>b. length (Structs b)) (uClients u))) us)"

primrec integrate_all :: "Update list \<Rightarrow> doc \<Rightarrow> doc option" where
  "integrate_all [] d = Some d"
| "integrate_all (u # us) d = (case integrate d u of None \<Rightarrow> None | Some d' \<Rightarrow> integrate_all us d')"

function retry_loop :: "doc \<Rightarrow> doc option" where
  "retry_loop d =
     (if pending d = [] then Some d
      else (let before = count_structs (pending d)
            in case integrate_all (pending d) (d\<lparr>pending := []\<rparr>) of
                 None \<Rightarrow> None
               | Some d' \<Rightarrow> if before \<le> count_structs (pending d') then Some d' else retry_loop d'))"
  by pat_completeness auto
termination
  by (relation "measure (\<lambda>d. count_structs (pending d))") auto

declare retry_loop.simps [simp del]

definition retryPending :: "doc \<Rightarrow> doc option" where
  "retryPending d =
     (case retry_loop d of
        None \<Rightarrow> None
      | Some d \<Rightarrow>
          Some (if \<not> IsEmpty (pendingDeletes d)
                then applyDeleteSet (Some (pendingDeletes d)) (d\<lparr>pendingDeletes := NewDeleteSet\<rparr>)
                else d))"

definition ApplyDecodedUpdate :: "doc \<Rightarrow> Update \<Rightarrow> doc option" where
  "ApplyDecodedUpdate d u =
     (case integrate d u of None \<Rightarrow> None | Some d \<Rightarrow> retryPending (applyDeleteSet (Deletes u) d))"

definition ApplyUpdate :: "doc \<Rightarrow> bytes \<Rightarrow> doc res option" where
  "ApplyUpdate d b =
     (case DecodeUpdate b of
        Inl er \<Rightarrow> Some (Inl er)
      | Inr u \<Rightarrow> map_option Inr (ApplyDecodedUpdate d u))"

subsection \<open>What a document tells its peers\<close>

definition doc_DeleteSet :: "doc \<Rightarrow> delete_set" where
  "doc_DeleteSet d =
     fold (\<lambda>(client, ss) ds.
       fold (\<lambda>st ds. if struct_deleted st then Add client (Clock (StructID st)) (StructLen st) ds else ds) ss ds)
       (clients (doc_store d)) NewDeleteSet"

definition deleteSetForUpdate :: "doc \<Rightarrow> delete_set" where
  "deleteSetForUpdate d =
     fold (\<lambda>(client, ranges) ds. fold (\<lambda>r. Add client (rClock r) (rLen r)) ranges ds)
       (pendingDeletes d) (doc_DeleteSet d)"

definition missing_block :: "store \<Rightarrow> state_vector \<Rightarrow> client_id \<Rightarrow> ClientBlock option" where
  "missing_block s sv client =
     (let ss = store_Structs s client
      in if length ss = 0 then None
         else (let clock = sv_Get sv client
               in if State s client \<le> clock then None
                  else (let first = Clock (StructID (ss ! 0));
                            clock = (if clock < first then first else clock)
                        in case store_find s (ID client clock) of
                             Inl er \<Rightarrow> None
                           | Inr idx \<Rightarrow>
                               Some \<lparr>cbClient = client, StartClock = clock, Structs = drop idx ss\<rparr>)))"

definition stateAsUpdate :: "doc \<Rightarrow> state_vector \<Rightarrow> Update" where
  "stateAsUpdate d sv =
     \<lparr>uClients = List.map_filter (missing_block (doc_store d) sv) (store_Clients (doc_store d)),
      Deletes = Some (deleteSetForUpdate d)\<rparr>"

definition EncodeStateAsUpdate :: "doc \<Rightarrow> state_vector \<Rightarrow> bytes res" where
  "EncodeStateAsUpdate d sv = Encode (stateAsUpdate d sv)"

definition EncodeDiff :: "doc \<Rightarrow> bytes \<Rightarrow> bytes res" where
  "EncodeDiff d encodedSV =
     (case DecodeStateVector encodedSV of
        Inl er \<Rightarrow> Inl er
      | Inr sv \<Rightarrow> EncodeStateAsUpdate d sv)"

subsection \<open>The invariant of a document\<close>

fun fresh_struct :: "struct \<Rightarrow> bool" where
  "fresh_struct (Item it) \<longleftrightarrow> fresh it"
| "fresh_struct _ \<longleftrightarrow> True"

definition fresh_update :: "Update \<Rightarrow> bool" where
  "fresh_update u \<longleftrightarrow> list_all (\<lambda>b. list_all fresh_struct (Structs b)) (uClients u)"

definition wf_doc :: "doc \<Rightarrow> bool" where
  "wf_doc d \<longleftrightarrow> wf_store (doc_store d) \<and> list_all fresh_update (pending d) \<and> ds_canonical (pendingDeletes d)"

subsection \<open>Lemmas: deletions\<close>

lemma deleteItem_wf:
  assumes "wf_store s"
  shows "wf_store (deleteItem i s)" and "grows s (deleteItem i s)" and "State (deleteItem i s) c = State s c"
proof -
  obtain rank where g: "gapless s" and l: "linked rank s" using assms by (auto simp: wf_store_def)
  let ?f = "\<lambda>x. if it_deleted x then x else x\<lparr>it_deleted := True\<rparr>"
  have u: "item_ID (?f x) = item_ID x" "Len (Content (?f x)) = Len (Content x)" for x by simp_all
  note gu = gapless_upd [OF g u, of i, folded deleteItem_def]
  have d: "deref (deleteItem i s) j = (if j = i then map_option ?f (deref s j) else deref s j)" for j
    unfolding deleteItem_def by (rule deref_upd) simp
  then have live: "live (deleteItem i s) = live s" by (auto simp: live_def fun_eq_iff)
  have t: "types (deleteItem i s) = types s" by (simp add: deleteItem_def upd_item_def)
  have "linked rank (deleteItem i s)"
    using l unfolding linked_def item_linked_def type_linked_def live t by (auto simp: d split: if_splits)
  with gu(1) show "wf_store (deleteItem i s)" by (auto simp: wf_store_def)
  show "State (deleteItem i s) c = State s c" by (rule gu(2))
  have "deleted_at s j \<Longrightarrow> deleted_at (deleteItem i s) j" for j
    unfolding deleteItem_def by (rule deleted_at_upd) simp_all
  with gu(2) show "grows s (deleteItem i s)" unfolding grows_def live by simp
qed

definition kept :: "store \<Rightarrow> store \<Rightarrow> bool" where
  "kept s s' \<longleftrightarrow> wf_store s' \<and> grows s s' \<and> (\<forall>c. State s' c = State s c)"

lemma kept_refl: "wf_store s \<Longrightarrow> kept s s"
  by (simp add: kept_def)

lemma kept_trans: "kept s t \<Longrightarrow> kept t u \<Longrightarrow> kept s u"
  by (auto simp: kept_def intro: grows_trans)

lemma kept_deleteItem: "wf_store s \<Longrightarrow> kept s (deleteItem i s)"
  by (simp add: kept_def deleteItem_wf)

lemma kept_same: "wf_store s' \<Longrightarrow> same_content s s' \<Longrightarrow> kept s s'"
  by (simp add: kept_def same_content_grows) (simp add: same_content_def)

lemma delete_split:
  assumes "wf_store s" and "idx < length (store_Structs s c)" and "store_Structs s c ! idx = Item it"
    and "Clock (item_ID it) < to" and "to < Clock (item_ID it) + Len (Content it)"
    and "splitItem s it (to - Clock (item_ID it)) idx = Inr (right, s')"
  shows "wf_store s'" and "same_content s s'"
    and "\<exists>head. deref s' (item_ID it) = Some (split_left it head (item_ID right)) \<and> Len head = to - Clock (item_ID it)"
proof -
  have "gapless s" using assms(1) by (simp add: wf_store_def)
  then have "Client (item_ID it) = c" using gapless_structs(4) [of s "Item it" c] nth_mem [OF assms(2)] assms(3) by simp
  note w = split_wf [OF assms(1) assms(2,3) [folded this] _ _ assms(6)]
  show "wf_store s'" "same_content s s'"
    "\<exists>head. deref s' (item_ID it) = Some (split_left it head (item_ID right)) \<and> Len head = to - Clock (item_ID it)"
    using w assms(4,5) by auto
qed

lemma deleted_at_deleteItem:
  assumes g: "gapless s" and d: "deref s i = Some it"
  shows "deleted_at (deleteItem i s) j \<longleftrightarrow>
     deleted_at s j \<or> Client j = Client i \<and> Clock i \<le> Clock j \<and> Clock j < Clock i + Len (Content it)"
proof -
  let ?f = "\<lambda>x. if it_deleted x then x else x\<lparr>it_deleted := True\<rparr>"
  have it: "Item it \<in> set (store_Structs s (Client i))" "item_ID it = i" using d by (simp_all add: deref_iff [OF g])
  have own: "upd_struct i ?f st = (if st = Item it then Item (?f it) else st)"
    if st: "st \<in> set (store_Structs s (Client j))" for st
  proof (cases "StructID st = i")
    case True
    then have "Client j = Client i" using gapless_structs(4) [OF g st] by simp
    with True st have "st = Item it"
      using struct_unique [OF g it(1), of st "Clock i"] struct_at_own_clock [OF g st]
        struct_at_own_clock [OF g it(1)] it(2) by simp
    with it show ?thesis by (simp add: upd_struct_def)
  next
    case False
    with it(2) have "st \<noteq> Item it" by auto
    with upd_struct_other [OF False] show ?thesis by simp
  qed
  have "set (store_Structs (deleteItem i s) (Client j)) = upd_struct i ?f ` set (store_Structs s (Client j))"
    unfolding deleteItem_def upd_structs_homed [OF gapless_homed [OF g]] by simp
  then have "deleted_at (deleteItem i s) j \<longleftrightarrow> (\<exists>st\<in>set (store_Structs s (Client j)).
      struct_covers (upd_struct i ?f st) (Clock j) \<and> struct_deleted (upd_struct i ?f st))"
    by (simp add: deleted_at_def)
  also have "\<dots> \<longleftrightarrow> (\<exists>st\<in>set (store_Structs s (Client j)).
      struct_covers st (Clock j) \<and> (struct_deleted st \<or> st = Item it))"
    using own by (intro bex_cong refl) (simp add: struct_covers_def)
  also have "\<dots> \<longleftrightarrow> deleted_at s j \<or> Item it \<in> set (store_Structs s (Client j)) \<and> struct_covers (Item it) (Clock j)"
    by (auto simp: deleted_at_def)
  also have "Item it \<in> set (store_Structs s (Client j)) \<longleftrightarrow> Client j = Client i"
    using it gapless_structs(4) [OF g, of "Item it" "Client j"] by auto
  finally show ?thesis using it(2) by (auto simp: struct_covers_def)
qed

text \<open>One item of the range is deleted, after a split at the end of the range where it reaches past it.\<close>

definition deletes_to :: "client_id \<Rightarrow> clock \<Rightarrow> store \<Rightarrow> nat \<Rightarrow> store \<Rightarrow> bool" where
  "deletes_to client to s idx s' \<longleftrightarrow> kept s s' \<and> idx < length (store_Structs s' client)
     \<and> StructID (store_Structs s' client ! idx) = StructID (store_Structs s client ! idx)
     \<and> (\<forall>j. deleted_at s' j \<longleftrightarrow> deleted_at s j \<or> Client j = client
          \<and> struct_covers (store_Structs s' client ! idx) (Clock j))
     \<and> Clock (StructID (store_Structs s' client ! idx)) + StructLen (store_Structs s' client ! idx) \<le> to"

lemma deletes_toI:
  assumes w: "wf_store s" and idx: "idx < length (store_Structs s client)"
    and it: "store_Structs s client ! idx = Item it" and to: "Clock (item_ID it) + Len (Content it) \<le> to"
  shows "deletes_to client to s idx (deleteItem (item_ID it) s)"
proof -
  have g: "gapless s" using w by (simp add: wf_store_def)
  have c: "Client (item_ID it) = client" using gapless_structs(4) [OF g, of "Item it" client] nth_mem [OF idx] it by simp
  have d: "deref s (item_ID it) = Some it" using deref_in [OF g, of it client] nth_mem [OF idx] it by simp
  have "store_Structs (deleteItem (item_ID it) s) client ! idx
      = Item (if it_deleted it then it else it\<lparr>it_deleted := True\<rparr>)"
    using c idx it by (simp add: deleteItem_def upd_struct_def)
  moreover have "length (store_Structs (deleteItem (item_ID it) s) client) = length (store_Structs s client)"
    using structIDs_deleteItem [THEN arg_cong [of _ _ length]] by simp
  ultimately show ?thesis
    using kept_deleteItem [OF w, of "item_ID it"] idx c it to deleted_at_deleteItem [OF g d]
    by (auto simp: deletes_to_def struct_covers_def)
qed

lemma deletes_to_split:
  assumes w: "wf_store s" and idx: "idx < length (store_Structs s client)"
    and it: "store_Structs s client ! idx = Item it" and to: "Clock (item_ID it) < to"
    "to < Clock (item_ID it) + Len (Content it)"
    and sp: "splitItem s it (to - Clock (item_ID it)) idx = Inr (right, s')"
  shows "wf_store s'" and "deletes_to client to s idx (deleteItem (item_ID it) s')"
proof -
  have g: "gapless s" using w by (simp add: wf_store_def)
  have c: "Client (item_ID it) = client" using gapless_structs(4) [OF g, of "Item it" client] nth_mem [OF idx] it by simp
  note d = delete_split [OF w idx it to sp]
  show "wf_store s'" by (rule d(1))
  then have g': "gapless s'" by (simp add: wf_store_def)
  obtain head where h: "deref s' (item_ID it) = Some (split_left it head (item_ID right))"
    "Len head = to - Clock (item_ID it)" using d(3) by blast
  let ?it = "split_left it head (item_ID right)"
  have ids: "map StructID (store_Structs s' client) = take (idx + 1) (map StructID (store_Structs s client))
      @ [ID client to] @ drop (idx + 1) (map StructID (store_Structs s client))"
    using splitItem_IDs [OF sp, of client] c to(1) by simp
  have len: "idx < length (store_Structs s' client)" using ids [THEN arg_cong [of _ _ length]] idx by simp
  have "map StructID (store_Structs s' client) ! idx = map StructID (store_Structs s client) ! idx"
    unfolding ids using idx by (simp add: nth_append)
  then have id: "StructID (store_Structs s' client ! idx) = item_ID it" using len idx it by simp
  have mem: "Item ?it \<in> set (store_Structs s' client)" using h(1) c by (simp add: deref_iff [OF g'])
  then have "store_Structs s' client ! idx = Item ?it"
    using struct_unique [OF g' nth_mem [OF len], of "Item ?it" "Clock (item_ID it)"]
      struct_at_own_clock [OF g' nth_mem [OF len]] struct_at_own_clock [OF g' mem] id by simp
  from deletes_toI [OF d(1) len this, of to] h(2) to
  have t: "deletes_to client to s' idx (deleteItem (item_ID it) s')" by simp
  have "deleted_at s' j \<longleftrightarrow> deleted_at s j" for j using d(2) by (simp add: same_content_def)
  with t kept_trans [OF kept_same [OF d(1,2)], of "deleteItem (item_ID it) s'"] id it show "deletes_to client to s idx (deleteItem (item_ID it) s')"
    unfolding deletes_to_def by auto
qed

lemma delete_loop_cases [consumes 1, case_names stop skip del]:
  assumes "wf_store s"
    and "\<And>s idx. wf_store s \<Longrightarrow> length (store_Structs s client) \<le> idx \<or> to \<le> Clock (StructID (store_Structs s client ! idx))
      \<Longrightarrow> P s idx s"
    and "\<And>s idx s'. wf_store s \<Longrightarrow> idx < length (store_Structs s client)
      \<Longrightarrow> Clock (StructID (store_Structs s client ! idx)) < to
      \<Longrightarrow> struct_deleted (store_Structs s client ! idx)
        \<or> (\<exists>it er. store_Structs s client ! idx = Item it \<and> Clock (item_ID it) < to
             \<and> to < Clock (item_ID it) + Len (Content it) \<and> Splice (Content it) (to - Clock (item_ID it)) = Inl er)
      \<Longrightarrow> P s (idx + 1) s' \<Longrightarrow> P s idx s'"
    and "\<And>s idx s1 s'. wf_store s \<Longrightarrow> idx < length (store_Structs s client) \<Longrightarrow> deletes_to client to s idx s1
      \<Longrightarrow> Clock (StructID (store_Structs s client ! idx)) < to \<Longrightarrow> P s1 (idx + 1) s' \<Longrightarrow> P s idx s'"
  shows "P s idx (delete_loop client to s idx)"
  using assms(1)
proof (induction client\<equiv>client to\<equiv>to s idx rule: delete_loop.induct)
  case (1 s idx)
  let ?ss = "store_Structs s client"
  note loop = delete_loop.simps [of client to s idx, unfolded Let_def]
  show ?case
  proof (cases "length ?ss \<le> idx \<or> to \<le> Clock (StructID (?ss ! idx))")
    case True
    then have "delete_loop client to s idx = s" by (auto simp: loop)
    with assms(2) [OF 1(7) True] show ?thesis by simp
  next
    case False
    note skipped = assms(3) [OF 1(7), of idx]
    show ?thesis
    proof (cases "?ss ! idx")
      case (Item it)
      consider (skip) "it_deleted it" | (whole) "\<not> it_deleted it" "Clock (item_ID it) + Len (Content it) \<le> to"
        | (part) "\<not> it_deleted it" "to < Clock (item_ID it) + Len (Content it)" by linarith
      then show ?thesis
      proof cases
        case skip
        then have "delete_loop client to s idx = delete_loop client to s (idx + 1)" using False Item by (simp add: loop)
        moreover have "P s (idx + 1) (delete_loop client to s (idx + 1))" using 1(1) [OF refl _ _ Item skip 1(7)] False by simp
        moreover have "struct_deleted (?ss ! idx)" using Item skip by simp
        ultimately show ?thesis using skipped [OF _ _ disjI1] False by simp
      next
        case whole
        then have d: "deletes_to client to s idx (deleteItem (item_ID it) s)"
          using deletes_toI [OF 1(7) _ Item] False by simp
        have "delete_loop client to s idx = delete_loop client to (deleteItem (item_ID it) s) (idx + 1)"
          using whole False Item by (simp add: loop)
        moreover have "P (deleteItem (item_ID it) s) (idx + 1) (delete_loop client to (deleteItem (item_ID it) s) (idx + 1))"
          using 1(4) [OF refl _ _ Item whole(1)] deleteItem_wf(1) [OF 1(7)] whole(2) False by simp
        ultimately show ?thesis using assms(4) [OF 1(7) _ d] False by simp
      next
        case part
        have b: "idx < length ?ss" "Clock (item_ID it) < to" using False Item by auto
        show ?thesis
        proof (cases "splitItem s it (to - Clock (item_ID it)) idx")
          case (Inl er)
          then have "Splice (Content it) (to - Clock (item_ID it)) = Inl er"
            by (auto simp: splitItem_def Let_def split: sum.splits option.splits if_splits)
          then have "\<exists>it er. ?ss ! idx = Item it \<and> Clock (item_ID it) < to \<and> to < Clock (item_ID it) + Len (Content it)
              \<and> Splice (Content it) (to - Clock (item_ID it)) = Inl er" using Item part b by blast
          moreover have "delete_loop client to s idx = delete_loop client to s (idx + 1)"
            using Inl part False Item by (simp add: loop)
          moreover have "P s (idx + 1) (delete_loop client to s (idx + 1))"
            using 1(2) [OF refl _ _ Item part(1) part(2) Inl 1(7)] False by simp
          ultimately show ?thesis using skipped [OF b(1) _ disjI2] b(2) Item by simp
        next
          case (Inr p)
          obtain right s' where p: "p = (right, s')" by fastforce
          note d = deletes_to_split [OF 1(7) b(1) Item b(2) part(2) Inr [unfolded p]]
          have "delete_loop client to s idx = delete_loop client to (deleteItem (item_ID it) s') (idx + 1)"
            using Inr p part False Item by (simp add: loop)
          moreover have "P (deleteItem (item_ID it) s') (idx + 1) (delete_loop client to (deleteItem (item_ID it) s') (idx + 1))"
            using 1(3) [OF refl _ _ Item part(1) part(2) Inr p [symmetric] deleteItem_wf(1) [OF d(1)]] False by simp
          ultimately show ?thesis using assms(4) [OF 1(7) b(1) d(2)] False by simp
        qed
      qed
    next
      case (GC i n)
      have "delete_loop client to s idx = delete_loop client to s (idx + 1)" using False GC by (simp add: loop)
      moreover have "P s (idx + 1) (delete_loop client to s (idx + 1))" using 1(5) [OF refl _ _ GC 1(7)] False by simp
      ultimately show ?thesis using skipped [OF _ _ disjI1] False GC by simp
    next
      case (Skip i n)
      have "gapless s" using 1(7) by (simp add: wf_store_def)
      then show ?thesis using gapless_structs(3) [of s "?ss ! idx" client i n] nth_mem [of idx ?ss] Skip False by auto
    qed
  qed
qed

lemma delete_loop_kept: "wf_store s \<Longrightarrow> kept s (delete_loop client to s idx)"
proof (induction rule: delete_loop_cases)
  case (del s idx s1 s')
  then show ?case using kept_trans [of s s1 s'] by (simp add: deletes_to_def)
qed (simp_all add: kept_refl)

lemma deleteRange_kept:
  assumes "wf_store s"
  shows "kept s (deleteRange s client from to)"
proof (cases "GetItemCleanStart s (ID client from)")
  case (Inl er)
  with assms show ?thesis
    by (auto simp: deleteRange_def Let_def kept_refl delete_loop_kept split: sum.splits)
next
  case (Inr p)
  obtain it s' where p: "p = (it, s')" by fastforce
  note w = GetItemCleanStart_wf [OF assms Inr [unfolded p]]
  note k = kept_same [OF w(1,2)]
  from Inr p kept_refl [OF assms] k kept_trans [OF k delete_loop_kept [OF w(1)]] show ?thesis
    by (auto simp: deleteRange_def Let_def split: sum.splits)
qed

definition struct_start :: "store \<Rightarrow> client_id \<Rightarrow> nat \<Rightarrow> clock" where
  "struct_start s client idx = structs_len (take idx (store_Structs s client))"

definition stuck_at :: "store \<Rightarrow> client_id \<Rightarrow> clock \<Rightarrow> clock \<Rightarrow> bool" where
  "stuck_at s client to k \<longleftrightarrow> (\<exists>it er. Item it \<in> set (store_Structs s client) \<and> struct_covers (Item it) k
     \<and> Clock (item_ID it) < to \<and> to < Clock (item_ID it) + Len (Content it)
     \<and> Splice (Content it) (to - Clock (item_ID it)) = Inl er)"

lemma struct_start_nth:
  assumes "wf_store s" and "idx < length (store_Structs s client)"
  shows "Clock (StructID (store_Structs s client ! idx)) = struct_start s client idx"
    and "struct_start s client (idx + 1) = struct_start s client idx + StructLen (store_Structs s client ! idx)"
proof -
  have g: "gapless s" using assms(1) by (simp add: wf_store_def)
  show "Clock (StructID (store_Structs s client ! idx)) = struct_start s client idx"
    using struct_clock [OF g assms(2)] by (simp add: struct_start_def)
  show "struct_start s client (idx + 1) = struct_start s client idx + StructLen (store_Structs s client ! idx)"
    using assms(2) by (simp add: struct_start_def take_Suc_conv_app_nth)
qed

lemma struct_start_covers:
  assumes "wf_store s" and "idx < length (store_Structs s client)"
  shows "struct_covers (store_Structs s client ! idx) k \<longleftrightarrow>
    struct_start s client idx \<le> k \<and> k < struct_start s client (idx + 1)"
  using struct_start_nth [OF assms] by (simp add: struct_covers_def)

lemma struct_start_end: "wf_store s \<Longrightarrow> length (store_Structs s client) \<le> idx \<Longrightarrow> struct_start s client idx = State s client"
  by (simp add: struct_start_def State_len wf_store_def)

lemma deletes_to_start:
  assumes "wf_store s" and "idx < length (store_Structs s client)" and "deletes_to client to s idx s1"
  shows "wf_store s1" and "struct_start s1 client idx = struct_start s client idx"
    and "struct_start s1 client (idx + 1) \<le> to" and "State s1 client = State s client" and "grows s s1"
    and "deleted_at s1 j \<longleftrightarrow> deleted_at s j \<or> Client j = client \<and> struct_start s client idx \<le> Clock j
      \<and> Clock j < struct_start s1 client (idx + 1)"
proof -
  note d = assms(3) [unfolded deletes_to_def kept_def]
  then show w: "wf_store s1" "State s1 client = State s client" "grows s s1" by simp_all
  have l: "idx < length (store_Structs s1 client)" using d by simp
  show e: "struct_start s1 client idx = struct_start s client idx"
    using struct_start_nth(1) [OF w(1) l] struct_start_nth(1) [OF assms(1,2)] d by simp
  have "Clock (StructID (store_Structs s1 client ! idx)) + StructLen (store_Structs s1 client ! idx) \<le> to"
    using d by blast
  with struct_start_nth [OF w(1) l] show "struct_start s1 client (idx + 1) \<le> to" by simp
  show "deleted_at s1 j \<longleftrightarrow> deleted_at s j \<or> Client j = client \<and> struct_start s client idx \<le> Clock j
      \<and> Clock j < struct_start s1 client (idx + 1)"
    using struct_start_covers [OF w(1) l] d e by simp
qed

lemma delete_loop_only:
  "wf_store s \<Longrightarrow> deleted_at (delete_loop client to s idx) j \<longrightarrow>
     deleted_at s j \<or> Client j = client \<and> struct_start s client idx \<le> Clock j \<and> Clock j < to"
proof (induction rule: delete_loop_cases [where client = client and to = to and P = "\<lambda>s idx s'. deleted_at s' j \<longrightarrow>
     deleted_at s j \<or> Client j = client \<and> struct_start s client idx \<le> Clock j \<and> Clock j < to"])
  case (skip s idx s')
  then show ?case using struct_start_nth [OF skip(1,2)] by auto
next
  case (del s idx s1 s')
  note t = deletes_to_start [OF del(1-3)]
  have "struct_start s1 client idx \<le> struct_start s1 client (idx + 1)"
    using struct_start_nth(2) [OF t(1), of idx client] del(3) by (simp add: deletes_to_def)
  with del(5) t(6) [of j] t(2,3) show ?case by auto
qed simp

lemma delete_loop_all:
  "wf_store s \<Longrightarrow> kept s (delete_loop client to s idx)
     \<and> (to \<le> struct_start s client idx \<longrightarrow> delete_loop client to s idx = s) \<and>
     (\<forall>k. struct_start s client idx \<le> k \<longrightarrow> k < to \<longrightarrow> k < State s client \<longrightarrow>
        deleted_at (delete_loop client to s idx) (ID client k) \<or> stuck_at (delete_loop client to s idx) client to k)"
proof (induction rule: delete_loop_cases [where client = client and to = to and P = "\<lambda>s idx s'. kept s s'
     \<and> (to \<le> struct_start s client idx \<longrightarrow> s' = s) \<and> (\<forall>k. struct_start s client idx \<le> k \<longrightarrow> k < to \<longrightarrow>
        k < State s client \<longrightarrow> deleted_at s' (ID client k) \<or> stuck_at s' client to k)"])
  case (stop s idx)
  then show ?case using struct_start_end [OF stop(1), of client idx] struct_start_nth(1) [OF stop(1), of idx client]
    by (cases "length (store_Structs s client) \<le> idx") (auto simp: kept_refl)
next
  case (skip s idx s')
  note st = struct_start_nth [OF skip(1,2)]
  have "deleted_at s' (ID client k) \<or> stuck_at s' client to k"
    if k: "struct_start s client idx \<le> k" "k < to" "k < State s client" for k
  proof (cases "struct_start s client (idx + 1) \<le> k")
    case True
    with skip(5) k show ?thesis by blast
  next
    case False
    with k have c: "struct_covers (store_Structs s client ! idx) k" by (simp add: struct_start_covers [OF skip(1,2)])
    from skip(4) show ?thesis
    proof
      assume "struct_deleted (store_Structs s client ! idx)"
      then have "deleted_at s (ID client k)" using c nth_mem [OF skip(2)] by (auto simp: deleted_at_def)
      then show ?thesis using skip(5) by (simp add: kept_def grows_def)
    next
      assume "\<exists>it er. store_Structs s client ! idx = Item it \<and> Clock (item_ID it) < to
        \<and> to < Clock (item_ID it) + Len (Content it) \<and> Splice (Content it) (to - Clock (item_ID it)) = Inl er"
      then obtain it er where it: "store_Structs s client ! idx = Item it" "Clock (item_ID it) < to"
        "to < Clock (item_ID it) + Len (Content it)" "Splice (Content it) (to - Clock (item_ID it)) = Inl er" by blast
      then have "s' = s" using skip(5) st by simp
      moreover have "Item it \<in> set (store_Structs s client)" using nth_mem [OF skip(2)] it(1) by simp
      ultimately show ?thesis using it c by (auto simp: stuck_at_def)
    qed
  qed
  with st skip(3,5) show ?case by simp
next
  case (del s idx s1 s')
  note t = deletes_to_start [OF del(1-3)]
  have "deleted_at s' (ID client k) \<or> stuck_at s' client to k"
    if k: "struct_start s client idx \<le> k" "k < to" "k < State s client" for k
  proof (cases "struct_start s1 client (idx + 1) \<le> k")
    case True
    with del(5) k t(4) show ?thesis by auto
  next
    case False
    with k have "deleted_at s1 (ID client k)" by (simp add: t(6))
    then show ?thesis using del(5) by (simp add: kept_def grows_def)
  qed
  moreover have "kept s s'" using del(3,5) kept_trans [of s s1 s'] by (simp add: deletes_to_def)
  ultimately show ?case using del(4) struct_start_nth(1) [OF del(1,2)] by simp
qed

lemma find_start:
  assumes "wf_store s" and "store_find s (ID client k) = Inr idx"
  shows "struct_start s client idx \<le> k" and "k < struct_start s client (idx + 1)"
    and "idx < length (store_Structs s client)"
proof -
  have g: "gapless s" using assms(1) by (simp add: wf_store_def)
  have f: "idx < length (store_Structs s client)" "struct_covers (store_Structs s client ! idx) k"
    using assms(2) by (simp_all add: store_find_iff [OF g])
  with struct_start_covers [OF assms(1) f(1)] show "struct_start s client idx \<le> k" "k < struct_start s client (idx + 1)"
    "idx < length (store_Structs s client)" by simp_all
qed

lemma clean_start_fails:
  assumes "wf_store s" and "GetItemCleanStart s i = Inl er" and "store_find s i = Inr k"
  shows "struct_deleted (store_Structs s (Client i) ! k) \<or> er = ErrSplitSurrogate"
proof (cases "store_Structs s (Client i) ! k")
  case (Item it)
  note f = find_item [OF assms(1,3) Item]
  from assms(2,3) Item have "Clock i - Clock (item_ID it) \<noteq> 0" "Splice (Content it) (Clock i - Clock (item_ID it)) = Inl er"
    by (auto simp: GetItemCleanStart_def splitItem_def Let_def split: sum.splits option.splits if_splits)
  with Splice_cases [of "Content it" "Clock i - Clock (item_ID it)"] f(2,3) show ?thesis by auto
qed (use assms gapless_structs(3) in \<open>auto simp: wf_store_def store_find_iff dest: nth_mem\<close>)

lemma clean_start_start:
  assumes "wf_store s" and "GetItemCleanStart s (ID client k) = Inr (it, s')" and "store_find s' (ID client k) = Inr idx"
  shows "struct_start s' client idx = k"
proof -
  note w = GetItemCleanStart_wf [OF assms(1,2)]
  have g: "gapless s'" using w(1) by (simp add: wf_store_def)
  have it: "Item it \<in> set (store_Structs s' client)" using w(3,4) by (simp add: deref_iff [OF g])
  have f: "idx < length (store_Structs s' client)" "struct_covers (store_Structs s' client ! idx) k"
    using assms(3) by (simp_all add: store_find_iff [OF g])
  have "store_Structs s' client ! idx = Item it"
    using struct_unique [OF g nth_mem [OF f(1)] it f(2)] struct_at_own_clock [OF g it] w(4) by simp
  with struct_start_nth(1) [OF w(1) f(1)] w(4) show ?thesis by simp
qed

lemma deleteRange_runs:
  assumes "wf_store s" and "from < to" and "from < State s client"
  obtains s1 idx where "deleteRange s client from to = delete_loop client to s1 idx" and "wf_store s1" and "same_content s s1"
    and "store_find s1 (ID client from) = Inr idx"
    and "struct_start s1 client idx = from \<or> struct_deleted (store_Structs s1 client ! idx)
      \<or> GetItemCleanStart s (ID client from) = Inl ErrSplitSurrogate"
proof (cases "GetItemCleanStart s (ID client from)")
  case (Inl er)
  have g: "gapless s" using assms(1) by (simp add: wf_store_def)
  obtain idx where idx: "store_find s (ID client from) = Inr idx"
    using store_find_State [OF g, of "ID client from"] assms(3) by auto
  then have "\<exists>st. store_Get s (ID client from) = Inr st" by (simp add: store_Get_def)
  with Inl idx assms(2) have "deleteRange s client from to = delete_loop client to s idx"
    by (auto simp: deleteRange_def Let_def)
  with that [OF _ assms(1) _ idx] clean_start_fails [OF assms(1) Inl idx] Inl show ?thesis by auto
next
  case (Inr p)
  obtain it s1 where p: "p = (it, s1)" by fastforce
  note w = GetItemCleanStart_wf [OF assms(1) Inr [unfolded p]]
  have g: "gapless s1" using w(1) by (simp add: wf_store_def)
  obtain idx where idx: "store_find s1 (ID client from) = Inr idx"
    using store_find_State [OF g, of "ID client from"] assms(3) w(2) by (auto simp: same_content_def)
  with Inr p assms(2) have "deleteRange s client from to = delete_loop client to s1 idx"
    by (auto simp: deleteRange_def Let_def)
  with that [OF _ w(1,2) idx] clean_start_start [OF assms(1) Inr [unfolded p] idx] show ?thesis by blast
qed

lemma deleteRange_all:
  assumes "wf_store s" and "from \<le> k" and "k < to" and "k < State s client"
  shows "deleted_at (deleteRange s client from to) (ID client k) \<or> stuck_at (deleteRange s client from to) client to k"
proof -
  have "from < to" "from < State s client" using assms by linarith+
  from deleteRange_runs [OF assms(1) this] obtain s1 idx
    where r: "deleteRange s client from to = delete_loop client to s1 idx" "wf_store s1" "same_content s s1"
      "store_find s1 (ID client from) = Inr idx" by blast
  from delete_loop_all [OF r(2), of client to idx] find_start(1) [OF r(2,4)] assms r(1,3) show ?thesis
    by (simp add: same_content_def)
qed

lemma deleteRange_only:
  assumes "wf_store s" and "GetItemCleanStart s (ID client from) \<noteq> Inl ErrSplitSurrogate"
    and "deleted_at (deleteRange s client from to) j" and "\<not> deleted_at s j"
  shows "Client j = client \<and> from \<le> Clock j \<and> Clock j < to"
proof (cases "from < to \<and> from < State s client")
  case True
  then obtain s1 idx where r: "deleteRange s client from to = delete_loop client to s1 idx" "wf_store s1" "same_content s s1"
      "store_find s1 (ID client from) = Inr idx"
      "struct_start s1 client idx = from \<or> struct_deleted (store_Structs s1 client ! idx)"
    using deleteRange_runs [OF assms(1), of "from" to client] assms(2) by blast
  note f = find_start [OF r(2,4)]
  have "\<not> deleted_at s1 j" using r(3) assms(4) by (simp add: same_content_def)
  with delete_loop_only [OF r(2), of client to idx j] assms(3) r(1)
  have j: "Client j = client" "struct_start s1 client idx \<le> Clock j" "Clock j < to" by auto
  have "from \<le> Clock j"
  proof (rule ccontr)
    assume "\<not> from \<le> Clock j"
    then have "struct_covers (store_Structs s1 client ! idx) (Clock j)" "struct_start s1 client idx \<noteq> from"
      using struct_start_covers [OF r(2) f(3)] f j by simp_all
    then have "deleted_at s1 j" using r(5) nth_mem [OF f(3)] j(1) by (auto simp: deleted_at_def)
    with \<open>\<not> deleted_at s1 j\<close> show False by simp
  qed
  with j show ?thesis by simp
next
  case False
  have g: "gapless s" using assms(1) by (simp add: wf_store_def)
  have "store_find s (ID client from) = Inl er \<Longrightarrow> store_Get s (ID client from) = Inl er
    \<and> GetItemCleanStart s (ID client from) = Inl er" for er
    by (simp add: store_Get_def GetItemCleanStart_def)
  moreover have "\<exists>er. store_find s (ID client from) = Inl er" if "\<not> from < State s client"
    using store_find_State [OF g, of "ID client from"] that by (cases "store_find s (ID client from)") auto
  ultimately have "deleteRange s client from to = s" using False by (auto simp: deleteRange_def Let_def)
  with assms(3,4) show ?thesis by simp
qed

subsection \<open>Lemmas: every operation on a document returns and keeps it well-formed\<close>

lemma integrateStruct_ok:
  assumes "wf_store s" and "fresh_struct st" and "\<not> is_Skip st" and "resolve s st = Some (st', s')"
    and "State s (Client (StructID st)) = Clock (StructID st) + offset" and "offset < StructLen st"
  shows "\<exists>s''. integrateStruct s' st' offset = Some s'' \<and> wf_store s'' \<and> grows s s''"
proof (cases st)
  case (Item it)
  then obtain it' where r: "resolve_left s it = (it', s')" "st' = Item it'"
    using assms(4) by (auto simp: resolve_item_def split: if_splits)
  have "fresh it" using assms(2) Item by simp
  from resolve_left_wf [OF assms(1) this r(1)]
  have w: "wf_store s'" "same_content s s'" "resolved s' it'" "kept_item it it'" by blast+
  have "State s' (Client (item_ID it')) = Clock (item_ID it') + offset" "offset < Len (Content it')"
    using w(2,4) assms(5,6) Item by (simp_all add: same_content_def kept_item_def)
  from integrateItem_wf [OF w(1,3) this] r(2) grows_trans [OF same_content_grows [OF w(2)]] show ?thesis by auto
next
  case (GC i n)
  let ?i = "ID (Client i) (Clock i + offset)"
  from GC assms(4) have "integrateStruct s' st' offset = Some (append_ignore (GC ?i (n - offset)) s)"
    by (cases i) (auto simp: Let_def)
  moreover have "State s (Client ?i) = Clock ?i" "0 < n - offset" using assms(5,6) GC by simp_all
  ultimately show ?thesis using place_gc_wf(1,2) [OF assms(1), of ?i "n - offset"] by simp
qed (use assms(3) in simp)

lemma drainQueue_ok:
  "wf_store s \<Longrightarrow> list_all fresh_struct q \<Longrightarrow>
     \<exists>s' q' p'. drainQueue s q p = Some (s', q', p') \<and> wf_store s' \<and> grows s s' \<and> list_all fresh_struct q'"
proof (induction s q p rule: drainQueue.induct)
  case (2 s head queue p)
  let ?i = "StructID head"
  let ?offset = "State s (Client ?i) - Clock ?i"
  have q: "fresh_struct head" "list_all fresh_struct queue" using 2(5) by simp_all
  consider (skip) "is_Skip head" | (gap) "\<not> is_Skip head" "State s (Client ?i) < Clock ?i"
    | (old) "\<not> is_Skip head" "Clock ?i \<le> State s (Client ?i)" "StructLen head \<le> ?offset"
    | (wait) "\<not> is_Skip head" "Clock ?i \<le> State s (Client ?i)" "?offset < StructLen head" "resolve s head = None"
    | (go) st' s' where "\<not> is_Skip head" "Clock ?i \<le> State s (Client ?i)" "?offset < StructLen head" "resolve s head = Some (st', s')"
    by (cases "resolve s head") fastforce+
  then show ?case
  proof cases
    case skip
    with 2(1) [OF skip 2(4) q(2)] show ?thesis by simp
  next
    case gap
    with 2(4,5) show ?thesis by (simp add: Let_def)
  next
    case old
    with 2(2) [OF old(1) refl refl _ refl _ 2(4) q(2)] show ?thesis by (simp add: Let_def)
  next
    case wait
    with 2(4,5) show ?thesis by (simp add: Let_def)
  next
    case go
    obtain s'' where i: "integrateStruct s' st' ?offset = Some s''" "wf_store s''" "grows s s''"
      using integrateStruct_ok [OF 2(4) q(1) go(1,4), of ?offset] go(2,3) by auto
    from 2(3) [OF go(1) refl refl _ refl _ go(4) refl i(1) i(2) q(2)] go i grows_trans [OF i(3)] show ?thesis
      by (auto simp: Let_def)
  qed
qed simp

definition fresh_queues :: "queues \<Rightarrow> bool" where
  "fresh_queues qs \<longleftrightarrow> (\<forall>c. list_all fresh_struct (queue_of qs c))"

lemma queue_of_update: "queue_of (AList.update c q qs) c' = (if c' = c then q else queue_of qs c')"
  by (simp add: queue_of_def AList.update_conv')

lemma fresh_queues_update: "fresh_queues qs \<Longrightarrow> list_all fresh_struct q \<Longrightarrow> fresh_queues (AList.update c q qs)"
  by (simp add: fresh_queues_def queue_of_update)

lemma drain_round_ok:
  "wf_store s \<Longrightarrow> fresh_queues qs \<Longrightarrow>
     \<exists>s' qs' p'. drain_round s qs order p = Some (s', qs', p') \<and> wf_store s' \<and> grows s s' \<and> fresh_queues qs'"
proof (induction s qs order p rule: drain_round.induct)
  case (2 s qs client order p)
  have "list_all fresh_struct (queue_of qs client)" using 2(3) by (simp add: fresh_queues_def)
  from drainQueue_ok [OF 2(2) this, of p] obtain s1 q p1 where
    d: "drainQueue s (queue_of qs client) p = Some (s1, q, p1)" "wf_store s1" "grows s s1" "list_all fresh_struct q" by blast
  from 2(1) [OF d(1) refl refl d(2) fresh_queues_update [OF 2(3) d(4)]] d grows_trans [OF d(3)] show ?case by auto
qed simp

lemma integrate_loop_ok:
  "wf_store s \<Longrightarrow> fresh_queues qs \<Longrightarrow>
     \<exists>s' qs'. integrate_loop s qs order = Some (s', qs') \<and> wf_store s' \<and> grows s s' \<and> fresh_queues qs'"
proof (induction s qs order rule: integrate_loop.induct)
  case (1 s qs order)
  from drain_round_ok [OF 1(2,3), of order False] obtain s1 qs1 p where
    d: "drain_round s qs order False = Some (s1, qs1, p)" "wf_store s1" "grows s s1" "fresh_queues qs1" by blast
  show ?case
  proof (cases p)
    case True
    with 1(1) [OF d(1) refl refl _ d(2,4)] d grows_trans [OF d(3)] show ?thesis
      by (auto simp: integrate_loop.simps [of s])
  next
    case False
    with d show ?thesis by (auto simp: integrate_loop.simps [of s])
  qed
qed

lemma fresh_enqueue:
  assumes "list_all (\<lambda>b. list_all fresh_struct (Structs b)) bs" and "fresh_queues (fst q)"
  shows "fresh_queues (fst (fold enqueue bs q))"
  using assms
proof (induction bs arbitrary: q)
  case (Cons b bs)
  have "fresh_queues (fst (enqueue b q))" using Cons.prems
    by (auto simp: enqueue_def split: prod.splits intro!: fresh_queues_update) (simp_all add: fresh_queues_def)
  with Cons show ?case by simp
qed simp

lemma rest_blocks_queue: "b \<in> set (rest_blocks qs order) \<Longrightarrow> Structs b = queue_of qs (cbClient b)"
  by (induction order) (auto simp: rest_blocks_def map_filter_simps split: list.splits option.splits)

lemma fresh_rest: "fresh_queues qs \<Longrightarrow> fresh_update \<lparr>uClients = rest_blocks qs order, Deletes = ds\<rparr>"
  unfolding fresh_update_def fresh_queues_def by (auto simp: list_all_iff [of _ "rest_blocks qs order"] rest_blocks_queue)

lemma integrate_ok:
  assumes "wf_doc d" and "fresh_update u"
  shows "\<exists>d'. integrate d u = Some d' \<and> wf_doc d' \<and> grows (doc_store d) (doc_store d')"
proof -
  obtain qs order where q: "fold enqueue (uClients u) ([], []) = (qs, order)" by fastforce
  have "fresh_queues (fst (([], []) :: queues \<times> client_id list))" by (simp add: fresh_queues_def queue_of_def)
  with fresh_enqueue [of "uClients u" "([], [])"] assms(2) q have "fresh_queues qs"
    by (simp add: fresh_update_def)
  with integrate_loop_ok [of "doc_store d" qs order] assms(1) obtain s qs' where
    "integrate_loop (doc_store d) qs order = Some (s, qs')" "wf_store s" "grows (doc_store d) s" "fresh_queues qs'"
    by (auto simp: wf_doc_def)
  with q assms(1) show ?thesis by (simp add: integrate_def wf_doc_def Let_def fresh_rest)
qed

text \<open>
  The contract of an operation on a document: it returns, and the document stays well-formed and
  only grows.
\<close>

locale doc_op =
  fixes pre :: "'x \<Rightarrow> bool"
    and step :: "'x \<Rightarrow> doc \<Rightarrow> doc option"
  assumes step: "pre x \<Longrightarrow> wf_doc d \<Longrightarrow>
    \<exists>d'. step x d = Some d' \<and> wf_doc d' \<and> grows (doc_store d) (doc_store d')"
begin

primrec steps :: "'x list \<Rightarrow> doc \<Rightarrow> doc option" where
  "steps [] d = Some d"
| "steps (x # xs) d = (case step x d of None \<Rightarrow> None | Some d' \<Rightarrow> steps xs d')"

lemma steps_ok:
  "list_all pre xs \<Longrightarrow> wf_doc d \<Longrightarrow>
     \<exists>d'. steps xs d = Some d' \<and> wf_doc d' \<and> grows (doc_store d) (doc_store d')"
proof (induction xs arbitrary: d)
  case (Cons x xs)
  then obtain d1 where d1: "step x d = Some d1" "wf_doc d1" "grows (doc_store d) (doc_store d1)"
    using step [of x d] by auto
  from Cons.IH [OF _ d1(2)] Cons.prems obtain d2 where "steps xs d1 = Some d2" "wf_doc d2"
    "grows (doc_store d1) (doc_store d2)" by auto
  with d1 show ?case using grows_trans by auto
qed simp

end

interpretation held: doc_op fresh_update "\<lambda>u d. integrate d u"
  by unfold_locales (rule integrate_ok)

lemma integrate_all_steps: "integrate_all us d = held.steps us d"
  by (induction us arbitrary: d) (simp_all cong: option.case_cong)

lemma wf_doc_pending [simp]:
  "wf_doc (d\<lparr>pending := us\<rparr>) \<longleftrightarrow> wf_store (doc_store d) \<and> list_all fresh_update us \<and> ds_canonical (pendingDeletes d)"
  "wf_doc (d\<lparr>pendingDeletes := ds\<rparr>) \<longleftrightarrow> wf_store (doc_store d) \<and> list_all fresh_update (pending d) \<and> ds_canonical ds"
  "wf_doc (d\<lparr>doc_store := s\<rparr>) \<longleftrightarrow> wf_store s \<and> list_all fresh_update (pending d) \<and> ds_canonical (pendingDeletes d)"
  by (simp_all add: wf_doc_def)

lemma retry_loop_ok:
  "wf_doc d \<Longrightarrow> \<exists>d'. retry_loop d = Some d' \<and> wf_doc d' \<and> grows (doc_store d) (doc_store d')"
proof (induction d rule: retry_loop.induct)
  case (1 d)
  show ?case
  proof (cases "pending d = []")
    case True
    with 1(2) show ?thesis by (simp add: retry_loop.simps)
  next
    case False
    have "list_all fresh_update (pending d)" "wf_doc (d\<lparr>pending := []\<rparr>)" using 1(2) by (simp_all add: wf_doc_def)
    from held.steps_ok [OF this] obtain d1 where d1: "integrate_all (pending d) (d\<lparr>pending := []\<rparr>) = Some d1"
      "wf_doc d1" "grows (doc_store d) (doc_store d1)" by (auto simp: integrate_all_steps)
    from 1(1) [OF False refl d1(1) _ d1(2)] False d1 grows_trans [OF d1(3)] show ?thesis
      by (auto simp: retry_loop.simps [of d] Let_def)
  qed
qed

lemma delete_one_ok:
  assumes "wf_doc d"
  shows "wf_doc (delete_one client state r d)" and "grows (doc_store d) (doc_store (delete_one client state r d))"
    and "State (doc_store (delete_one client state r d)) c = State (doc_store d) c"
proof -
  have "kept (doc_store d) (deleteRange (doc_store d) client a b)" for a b
    using assms deleteRange_kept by (simp add: wf_doc_def)
  then show "wf_doc (delete_one client state r d)" "grows (doc_store d) (doc_store (delete_one client state r d))"
    "State (doc_store (delete_one client state r d)) c = State (doc_store d) c"
    using assms by (auto simp: delete_one_def Let_def wf_doc_def kept_def ds_canonical_Add)
qed

interpretation deletion: doc_op "\<lambda>_. True" "\<lambda>(client, state, r) d. Some (delete_one client state r d)"
  by unfold_locales (auto simp: delete_one_ok)

lemma fold_delete_one: "deletion.steps (map (\<lambda>r. (client, state, r)) rs) d = Some (fold (delete_one client state) rs d)"
  by (induction rs arbitrary: d) simp_all

lemma fold_delete_one_ok:
  assumes "wf_doc d"
  shows "wf_doc (fold (delete_one client state) rs d)"
    and "grows (doc_store d) (doc_store (fold (delete_one client state) rs d))"
  using deletion.steps_ok [OF _ assms, of "map (\<lambda>r. (client, state, r)) rs"]
  by (simp_all add: fold_delete_one list_all_iff)

interpretation deletions: doc_op "\<lambda>_. True"
  "\<lambda>(client, ranges) d. Some (fold (delete_one client (State (doc_store d) client)) ranges d)"
  by unfold_locales (auto simp: fold_delete_one_ok)

lemma applyDeleteSet_steps: "deletions.steps ds d = Some (applyDeleteSet (Some ds) d)"
  by (induction ds arbitrary: d) (auto simp: applyDeleteSet_def Let_def)

lemma applyDeleteSet_ok:
  assumes "wf_doc d"
  shows "wf_doc (applyDeleteSet ds d)" and "grows (doc_store d) (doc_store (applyDeleteSet ds d))"
proof -
  have "wf_doc (applyDeleteSet ds d) \<and> grows (doc_store d) (doc_store (applyDeleteSet ds d))"
  proof (cases ds)
    case (Some rs)
    then show ?thesis using deletions.steps_ok [OF _ assms, of rs] by (simp add: applyDeleteSet_steps list_all_iff)
  qed (use assms in \<open>simp add: applyDeleteSet_def\<close>)
  then show "wf_doc (applyDeleteSet ds d)" "grows (doc_store d) (doc_store (applyDeleteSet ds d))" by blast+
qed

lemma retryPending_ok:
  assumes "wf_doc d"
  shows "\<exists>d'. retryPending d = Some d' \<and> wf_doc d' \<and> grows (doc_store d) (doc_store d')"
proof -
  obtain d1 where d1: "retry_loop d = Some d1" "wf_doc d1" "grows (doc_store d) (doc_store d1)"
    using retry_loop_ok [OF assms] by blast
  let ?d = "d1\<lparr>pendingDeletes := NewDeleteSet\<rparr>"
  have "wf_doc ?d" using d1(2) by (simp add: wf_doc_def deletes.inv_new)
  from applyDeleteSet_ok [OF this, of "Some (pendingDeletes d1)"] d1 grows_trans [OF d1(3)] show ?thesis
    by (auto simp: retryPending_def)
qed

lemma ApplyDecodedUpdate_ok:
  assumes "fresh_update u" and "wf_doc d"
  shows "\<exists>d'. ApplyDecodedUpdate d u = Some d' \<and> wf_doc d' \<and> grows (doc_store d) (doc_store d')"
proof -
  obtain d1 where d1: "integrate d u = Some d1" "wf_doc d1" "grows (doc_store d) (doc_store d1)"
    using integrate_ok [OF assms(2,1)] by blast
  note d2 = applyDeleteSet_ok [OF d1(2), of "Deletes u"]
  from retryPending_ok [OF d2(1)] d1 grows_trans [OF grows_trans [OF d1(3) d2(2)]] show ?thesis
    by (auto simp: ApplyDecodedUpdate_def)
qed

interpretation applied: doc_op fresh_update "\<lambda>u d. ApplyDecodedUpdate d u"
  by unfold_locales (rule ApplyDecodedUpdate_ok)

lemma DecodeUpdate_fresh:
  assumes "DecodeUpdate b = Inr u"
  shows "fresh_update u"
proof -
  have f: "fresh_struct st" if "\<forall>it. st = Item it \<longrightarrow> wire_item it" for st
    using that wire_item_fresh by (cases st) auto
  show ?thesis using DecodeUpdate_read [OF assms] f
    by (auto simp: update_read_def block_read_def fresh_update_def list_all_iff)
qed

lemma ApplyUpdate_ok:
  assumes "wf_doc d"
  shows "(\<exists>er. DecodeUpdate b = Inl er \<and> ApplyUpdate d b = Some (Inl er))
     \<or> (\<exists>u d'. DecodeUpdate b = Inr u \<and> ApplyUpdate d b = Some (Inr d') \<and> wf_doc d' \<and> grows (doc_store d) (doc_store d'))"
proof (cases "DecodeUpdate b")
  case (Inr u)
  from ApplyDecodedUpdate_ok [OF DecodeUpdate_fresh [OF Inr] assms] Inr show ?thesis
    by (auto simp: ApplyUpdate_def)
qed (simp add: ApplyUpdate_def)

text \<open>The documents a server can hold: a new one, and one after any update at all, well-formed or not.\<close>

inductive reachable_doc :: "client_id \<Rightarrow> doc \<Rightarrow> bool" for client where
  new: "reachable_doc client (NewDoc client)"
| upd: "reachable_doc client d \<Longrightarrow> ApplyUpdate d b = Some (Inr d') \<Longrightarrow> reachable_doc client d'"

lemma wf_NewDoc: "wf_doc (NewDoc client)"
proof -
  have "gapless NewStructStore" by (simp add: gapless_def NewStructStore_def)
  moreover have "linked (\<lambda>_. 0) NewStructStore"
    by (simp add: linked_def NewStructStore_def deref_def store_Structs_def)
  ultimately show ?thesis by (auto simp: wf_doc_def NewDoc_def wf_store_def deletes.inv_new)
qed

lemma reachable_wf: "reachable_doc client d \<Longrightarrow> wf_doc d"
proof (induction rule: reachable_doc.induct)
  case (upd d b d')
  then show ?case using ApplyUpdate_ok [of d b] by auto
qed (rule wf_NewDoc)

subsection \<open>Lemmas: what a document tells its peers\<close>

definition deleted_triples :: "store \<Rightarrow> (client_id \<times> clock \<times> nat) list" where
  "deleted_triples s = concat (map (\<lambda>(c, ss).
     map (\<lambda>st. (c, Clock (StructID st), StructLen st)) (filter struct_deleted ss)) (clients s))"

definition range_triples :: "delete_set \<Rightarrow> (client_id \<times> clock \<times> nat) list" where
  "range_triples ds = concat (map (\<lambda>(c, rs). map (\<lambda>r. (c, rClock r, rLen r)) rs) ds)"

lemma doc_DeleteSet_fold: "doc_DeleteSet d = fold (\<lambda>(c, k, n). Add c k n) (deleted_triples (doc_store d)) NewDeleteSet"
proof -
  have inner: "fold (\<lambda>st ds. if struct_deleted st then Add c (Clock (StructID st)) (StructLen st) ds else ds) ss ds
      = fold (\<lambda>(c, k, n). Add c k n) (map (\<lambda>st. (c, Clock (StructID st), StructLen st)) (filter struct_deleted ss)) ds"
    for c ss ds by (induction ss arbitrary: ds) simp_all
  have "fold (\<lambda>(c, ss) ds. fold (\<lambda>st ds. if struct_deleted st then Add c (Clock (StructID st)) (StructLen st) ds else ds) ss ds) cs ds
      = fold (\<lambda>(c, k, n). Add c k n) (concat (map (\<lambda>(c, ss).
          map (\<lambda>st. (c, Clock (StructID st), StructLen st)) (filter struct_deleted ss)) cs)) ds" for cs ds
    by (induction cs arbitrary: ds) (auto simp: inner)
  then show ?thesis by (simp add: doc_DeleteSet_def deleted_triples_def)
qed

lemma deleteSetForUpdate_fold:
  "deleteSetForUpdate d = fold (\<lambda>(c, k, n). Add c k n) (range_triples (pendingDeletes d)) (doc_DeleteSet d)"
proof -
  have inner: "fold (\<lambda>r. Add c (rClock r) (rLen r)) rs ds
      = fold (\<lambda>(c, k, n). Add c k n) (map (\<lambda>r. (c, rClock r, rLen r)) rs) ds"
    for c rs ds by (induction rs arbitrary: ds) simp_all
  have "fold (\<lambda>(c, rs) ds. fold (\<lambda>r. Add c (rClock r) (rLen r)) rs ds) cs ds
      = fold (\<lambda>(c, k, n). Add c k n) (range_triples cs) ds" for cs ds
    by (induction cs arbitrary: ds) (auto simp: inner range_triples_def)
  then show ?thesis by (simp add: deleteSetForUpdate_def)
qed

lemma map_of_store: "distinct (map fst (clients s)) \<Longrightarrow> (c, ss) \<in> set (clients s) \<Longrightarrow> store_Structs s c = ss"
  by (simp add: store_Structs_def)

lemma doc_DeleteSet_iff:
  assumes "wf_doc d"
  shows "ds_canonical (doc_DeleteSet d)" and "IsDeleted (doc_DeleteSet d) i \<longleftrightarrow> deleted_at (doc_store d) i"
proof -
  let ?s = "doc_store d"
  have dist: "distinct (map fst (clients ?s))" using assms by (simp add: wf_doc_def wf_store_def gapless_alt)
  show "ds_canonical (doc_DeleteSet d)" unfolding doc_DeleteSet_fold by (rule deletes.inv_fold [OF deletes.inv_new])
  have "IsDeleted (doc_DeleteSet d) i \<longleftrightarrow>
      (\<exists>(c, k, n)\<in>set (deleted_triples ?s). Client i = c \<and> k \<le> Clock i \<and> Clock i < k + n)"
    unfolding doc_DeleteSet_fold using deletes.mem_fold [OF deletes.inv_new] deletes.mem_new by blast
  also have "\<dots> \<longleftrightarrow> (\<exists>ss. (Client i, ss) \<in> set (clients ?s) \<and> (\<exists>st\<in>set ss. struct_deleted st \<and> struct_covers st (Clock i)))"
    by (fastforce simp: deleted_triples_def struct_covers_def)
  also have "\<dots> \<longleftrightarrow> deleted_at ?s i"
  proof
    assume "\<exists>ss. (Client i, ss) \<in> set (clients ?s) \<and> (\<exists>st\<in>set ss. struct_deleted st \<and> struct_covers st (Clock i))"
    then show "deleted_at ?s i" using map_of_store [OF dist] by (auto simp: deleted_at_def)
  next
    assume "deleted_at ?s i"
    then obtain st where "st \<in> set (store_Structs ?s (Client i))" "struct_deleted st" "struct_covers st (Clock i)"
      by (auto simp: deleted_at_def)
    then show "\<exists>ss. (Client i, ss) \<in> set (clients ?s) \<and> (\<exists>st\<in>set ss. struct_deleted st \<and> struct_covers st (Clock i))"
      by (cases "map_of (clients ?s) (Client i)") (auto simp: store_Structs_def dest: map_of_SomeD)
  qed
  finally show "IsDeleted (doc_DeleteSet d) i \<longleftrightarrow> deleted_at ?s i" .
qed

lemma range_triples_mem:
  assumes "ds_canonical ds"
  shows "(\<exists>(c, k, n)\<in>set (range_triples ds). Client i = c \<and> k \<le> Clock i \<and> Clock i < k + n) \<longleftrightarrow> IsDeleted ds i"
proof -
  have dist: "distinct (map fst ds)" using assms by (simp add: ds_canonical_def)
  have "(\<exists>(c, k, n)\<in>set (range_triples ds). Client i = c \<and> k \<le> Clock i \<and> Clock i < k + n)
      \<longleftrightarrow> (\<exists>rs. (Client i, rs) \<in> set ds \<and> (\<exists>r\<in>set rs. rClock r \<le> Clock i \<and> Clock i < rEnd r))"
    by (fastforce simp: range_triples_def rEnd_def)
  also have "\<dots> \<longleftrightarrow> Clock i \<in> covers (ds_ranges ds (Client i))"
  proof (cases "map_of ds (Client i)")
    case None
    then have "(Client i, rs) \<notin> set ds" for rs using dist by auto
    with None show ?thesis by (simp add: ds_ranges_def covers_def)
  next
    case (Some rs)
    then have "(Client i, rs') \<in> set ds \<longleftrightarrow> rs' = rs" for rs'
      using map_of_is_SomeI [OF dist] map_of_SomeD by fastforce
    with Some show ?thesis by (simp add: ds_ranges_def covers_def)
  qed
  finally show ?thesis by (simp add: IsDeleted_covers ds_canonical_ranges assms)
qed

lemma deleteSetForUpdate_iff:
  assumes "wf_doc d"
  shows "ds_canonical (deleteSetForUpdate d)"
    and "IsDeleted (deleteSetForUpdate d) i \<longleftrightarrow> deleted_at (doc_store d) i \<or> IsDeleted (pendingDeletes d) i"
proof -
  note c = doc_DeleteSet_iff [OF assms]
  have p: "ds_canonical (pendingDeletes d)" using assms by (simp add: wf_doc_def)
  show "ds_canonical (deleteSetForUpdate d)" unfolding deleteSetForUpdate_fold by (rule deletes.inv_fold [OF c(1)])
  show "IsDeleted (deleteSetForUpdate d) i \<longleftrightarrow> deleted_at (doc_store d) i \<or> IsDeleted (pendingDeletes d) i"
    unfolding deleteSetForUpdate_fold deletes.mem_fold [OF c(1)] c(2) range_triples_mem [OF p] ..
qed

lemma missing_block_some:
  assumes "wf_store s" and "sv_Get sv c < State s c"
  obtains idx where "missing_block s sv c = Some \<lparr>cbClient = c, StartClock = sv_Get sv c, Structs = drop idx (store_Structs s c)\<rparr>"
    and "store_find s (ID c (sv_Get sv c)) = Inr idx"
proof -
  have g: "gapless s" using assms(1) by (simp add: wf_store_def)
  have ne: "store_Structs s c \<noteq> []" using assms(2) by (auto simp: State_def)
  obtain idx where idx: "store_find s (ID c (sv_Get sv c)) = Inr idx"
    using store_find_State [OF g, of "ID c (sv_Get sv c)"] assms(2) by auto
  have "Clock (StructID (store_Structs s c ! 0)) = 0" using struct_clock [OF g, of 0 c] ne by simp
  with that [OF _ idx] idx ne assms(2) show ?thesis by (auto simp: missing_block_def Let_def)
qed

lemma missing_block_none: "State s c \<le> sv_Get sv c \<Longrightarrow> missing_block s sv c = None"
  by (simp add: missing_block_def Let_def)

lemma missing_block_client: "missing_block s sv c = Some b \<Longrightarrow> cbClient b = c"
  by (auto simp: missing_block_def Let_def split: if_splits sum.splits)

lemma stateAsUpdate_block:
  assumes "wf_doc d"
  shows "b \<in> set (uClients (stateAsUpdate d sv)) \<longleftrightarrow> missing_block (doc_store d) sv (cbClient b) = Some b"
proof
  assume "b \<in> set (uClients (stateAsUpdate d sv))"
  then show "missing_block (doc_store d) sv (cbClient b) = Some b"
    by (auto simp: stateAsUpdate_def List.map_filter_def missing_block_client)
next
  assume b: "missing_block (doc_store d) sv (cbClient b) = Some b"
  then have "store_Structs (doc_store d) (cbClient b) \<noteq> []" by (auto simp: missing_block_def Let_def)
  then have "cbClient b \<in> set (store_Clients (doc_store d))"
    by (force simp: store_Clients_def clientsDescending_def store_Structs_def dest: map_of_SomeD split: option.splits)
  with b show "b \<in> set (uClients (stateAsUpdate d sv))"
    by (auto simp: stateAsUpdate_def List.map_filter_def intro!: image_eqI [of _ _ "cbClient b"])
qed

end
