(* ===== verification/Views.thy ===== *)
theory Views
  imports Doc "HOL-Library.List_Lexorder"
begin

text \<open>
  What the server reads out of a document: the text and map views (\<open>ytext.go\<close>, \<open>ymap.go\<close>),
  the subdocuments it references (\<open>subdoc.go\<close>) and the memory it is charged for
  (\<open>memory.go\<close>).

  A view of a sequence walks the items along their right pointers; \<open>walk_items\<close> is that loop with
  fuel, and \<open>walk_total\<close> shows that \<open>walk_fuel\<close> is enough on every well-formed store. Go sorts
  strings by their bytes, which is the lexicographic order on lists of bytes.

  In \<open>memory.go\<close> the sizes of the fixed parts are those of a 64-bit platform. The capacity that the
  runtime reserved for a slice is not visible in its contents: \<open>capacity\<close> (of a byte slice) and
  \<open>backing\<close> (of a slice of structs) are parameters, and the lemmas use only that a capacity is at
  least the length.
\<close>

subsection \<open>Walking a sequence\<close>

fun walk_items :: "nat \<Rightarrow> store \<Rightarrow> ID option \<Rightarrow> item list option" where
  "walk_items 0 s p = None"
| "walk_items (Suc n) s None = Some []"
| "walk_items (Suc n) s (Some i) =
     (case deref s i of
        None \<Rightarrow> None
      | Some x \<Rightarrow> map_option (Cons x) (walk_items n s (it_right x)))"

definition sequence :: "store \<Rightarrow> typeref \<Rightarrow> item list option" where
  "sequence s t = walk_items (walk_fuel s) s (ytype_start (get_type s t))"

subsection \<open>Text\<close>

definition doc_Text :: "bytes \<Rightarrow> doc \<Rightarrow> doc" where
  "doc_Text name d =
     (let s = doc_Get name (doc_store d);
          t = get_type s (TRoot name)
      in d\<lparr>doc_store := (if ytype_ref t = typeRefUnknown
                          then set_type (TRoot name) (t\<lparr>ytype_ref := TypeRefText\<rparr>) s else s)\<rparr>)"

fun any_text :: "any \<Rightarrow> bytes" where
  "any_text (AString s) = s"
| "any_text _ = []"

definition item_text :: "item \<Rightarrow> bytes" where
  "item_text it =
     (if it_deleted it then []
      else case Content it of
        ContentString s \<Rightarrow> s
      | ContentAny vs \<Rightarrow> concat (map any_text vs)
      | _ \<Rightarrow> [])"

definition Text_String :: "store \<Rightarrow> typeref \<Rightarrow> bytes option" where
  "Text_String s t = map_option (\<lambda>its. concat (map item_text its)) (sequence s t)"

definition Text_Len :: "store \<Rightarrow> typeref \<Rightarrow> nat option" where
  "Text_Len s t =
     map_option (\<lambda>its. sum_list (map (\<lambda>it. if item_Countable it then Len (Content it) else 0) its)) (sequence s t)"

subsection \<open>Maps\<close>

datatype map_value =
    VAny any
  | VJSON bytes
  | VType typeref
  | VBinary bytes
  | VDoc bytes any
  | VString bytes

definition doc_Map :: "bytes \<Rightarrow> doc \<Rightarrow> doc" where
  "doc_Map name d =
     (let s = doc_Get name (doc_store d);
          t = get_type s (TRoot name)
      in d\<lparr>doc_store := (if ytype_ref t = typeRefUnknown
                          then set_type (TRoot name) (t\<lparr>ytype_ref := TypeRefMap\<rparr>) s else s)\<rparr>)"

definition live_key :: "store \<Rightarrow> ID \<Rightarrow> bool" where
  "live_key s i = (case deref s i of None \<Rightarrow> False | Some it \<Rightarrow> \<not> it_deleted it)"

definition Map_Keys :: "store \<Rightarrow> typeref \<Rightarrow> bytes list" where
  "Map_Keys s t = sort (map fst (filter (\<lambda>(key, i). live_key s i) (mapItems (get_type s t))))"

definition Map_Get :: "store \<Rightarrow> typeref \<Rightarrow> bytes \<Rightarrow> map_value option" where
  "Map_Get s t key =
     (case map_item s t key of
        None \<Rightarrow> None
      | Some i \<Rightarrow>
          (case deref s i of
             None \<Rightarrow> None
           | Some it \<Rightarrow>
               if it_deleted it then None
               else case Content it of
                 ContentAny vs \<Rightarrow> if length vs = 0 then None else Some (VAny (vs ! (length vs - 1)))
               | ContentType r n \<Rightarrow> Some (VType (TOwned i))
               | ContentJSON vs \<Rightarrow> if length vs = 0 then None else Some (VJSON (vs ! (length vs - 1)))
               | ContentBinary b \<Rightarrow> Some (VBinary b)
               | ContentDoc g opts \<Rightarrow> Some (VDoc g opts)
               | ContentString b \<Rightarrow> Some (VString b)
               | _ \<Rightarrow> None))"

definition Map_Len :: "store \<Rightarrow> typeref \<Rightarrow> nat" where
  "Map_Len s t = length (Map_Keys s t)"

subsection \<open>Subdocuments\<close>

fun subdoc_guid :: "struct \<Rightarrow> bytes option" where
  "subdoc_guid (Item it) =
     (if it_deleted it then None else case Content it of ContentDoc g opts \<Rightarrow> Some g | _ \<Rightarrow> None)"
| "subdoc_guid _ = None"

definition Subdocs :: "doc \<Rightarrow> bytes list" where
  "Subdocs d =
     (let seen = fold (\<lambda>client seen.
            fold (\<lambda>st seen. case subdoc_guid st of None \<Rightarrow> seen | Some g \<Rightarrow> List.insert g seen)
              (store_Structs (doc_store d) client) seen)
            (store_Clients (doc_store d)) []
      in sort seen)"

subsection \<open>Memory\<close>

definition itemSize :: nat where "itemSize = 112"
definition gcSize :: nat where "gcSize = 24"
definition idSize :: nat where "idSize = 16"
definition parentSize :: nat where "parentSize = 40"
definition ifaceSize :: nat where "ifaceSize = 16"
definition sliceHeader :: nat where "sliceHeader = 24"
definition mapEntry :: nat where "mapEntry = 32"
definition typeSize :: nat where "typeSize = 64"

fun anyBytes :: "(bytes \<Rightarrow> nat) \<Rightarrow> any \<Rightarrow> nat" where
  "anyBytes capacity ANull = ifaceSize"
| "anyBytes capacity (AString s) = ifaceSize + length s"
| "anyBytes capacity (ABytes b) = ifaceSize + capacity b"
| "anyBytes capacity (AArray vs) = ifaceSize + sum_list (map (anyBytes capacity) vs)"
| "anyBytes capacity (AMap fs) =
     ifaceSize + sum_list (map (\<lambda>(key, v). length key + mapEntry + anyBytes capacity v) fs)"
| "anyBytes capacity _ = ifaceSize"

definition typeHeaderBytes :: "bytes \<Rightarrow> bytes list \<Rightarrow> nat" where
  "typeHeaderBytes name keys = typeSize + length name + sum_list (map (\<lambda>key. length key + mapEntry) keys)"

fun contentBytes :: "(bytes \<Rightarrow> nat) \<Rightarrow> bytes list \<Rightarrow> content \<Rightarrow> nat" where
  "contentBytes capacity keys (ContentDeleted n) = 8"
| "contentBytes capacity keys (ContentString s) = 16 + length s"
| "contentBytes capacity keys (ContentBinary b) = 24 + capacity b"
| "contentBytes capacity keys (ContentEmbed j) = 16 + length j"
| "contentBytes capacity keys (ContentFormat k v) = 32 + (length k + length v)"
| "contentBytes capacity keys (ContentJSON vs) = 24 + sum_list (map (\<lambda>s. 16 + length s) vs)"
| "contentBytes capacity keys (ContentAny vs) = 24 + sum_list (map (anyBytes capacity) vs)"
| "contentBytes capacity keys (ContentType r name) = 8 + typeHeaderBytes name keys"
| "contentBytes capacity keys (ContentDoc g opts) = 32 + length g"

definition parent_name :: "ParentInfo \<Rightarrow> bytes" where
  "parent_name p = (case p of PRoot name \<Rightarrow> name | PItem i \<Rightarrow> [])"

fun structBytes :: "(bytes \<Rightarrow> nat) \<Rightarrow> (ID \<Rightarrow> bytes list) \<Rightarrow> struct \<Rightarrow> nat" where
  "structBytes capacity keys (Item it) =
     itemSize
     + (case Origin it of None \<Rightarrow> 0 | Some i \<Rightarrow> idSize)
     + (case RightOrigin it of None \<Rightarrow> 0 | Some i \<Rightarrow> idSize)
     + (case Parent it of None \<Rightarrow> 0 | Some p \<Rightarrow> parentSize + length (parent_name p))
     + length (ParentSub it)
     + contentBytes capacity (keys (item_ID it)) (Content it)"
| "structBytes capacity keys (GC i n) = gcSize"
| "structBytes capacity keys (Skip i n) = ifaceSize"

definition updateBytes :: "(bytes \<Rightarrow> nat) \<Rightarrow> (struct list \<Rightarrow> nat) \<Rightarrow> Update \<Rightarrow> nat" where
  "updateBytes capacity backing u =
     sum_list (map (\<lambda>block. backing (Structs block) * ifaceSize
       + sum_list (map (structBytes capacity (\<lambda>_. [])) (Structs block))) (uClients u))"

record Usage =
  u_Structs :: nat
  u_Clients :: nat
  u_Bytes :: nat
  u_Pending :: nat

definition doc_Usage :: "(bytes \<Rightarrow> nat) \<Rightarrow> (struct list \<Rightarrow> nat) \<Rightarrow> doc \<Rightarrow> Usage" where
  "doc_Usage capacity backing d =
     (let s = doc_store d;
          keys = (\<lambda>i. map fst (mapItems (get_type s (TOwned i))))
      in \<lparr>u_Structs = sum_list (map (\<lambda>(c, ss). length ss) (clients s)),
          u_Clients = length (clients s),
          u_Bytes = length (clients s) * (mapEntry + sliceHeader)
            + sum_list (map (\<lambda>(c, ss). backing ss * ifaceSize + sum_list (map (structBytes capacity keys) ss)) (clients s))
            + sum_list (map (updateBytes capacity backing) (pending d)),
          u_Pending = length (pending d)\<rparr>)"

subsection \<open>Lemmas: views of sequences\<close>

lemma walk_ends:
  assumes g: "gapless s" and l: "linked rank s"
  shows "live s i \<Longrightarrow> card {j. live s j \<and> rank i \<le> rank j} < n \<Longrightarrow> \<exists>its. walk_items n s (Some i) = Some its"
proof (induction n arbitrary: i)
  case (Suc n)
  then obtain x where x: "deref s i = Some x" by (auto simp: live_def)
  have pos: "0 < n"
  proof (rule ccontr)
    assume "\<not> 0 < n"
    then have "card {j. live s j \<and> rank i \<le> rank j} = 0" using Suc.prems(2) by simp
    moreover have "finite {j. live s j \<and> rank i \<le> rank j}" by (rule finite_subset [OF _ live_card(1) [OF g]]) auto
    ultimately show False using Suc.prems(1) by (auto simp: card_eq_0_iff)
  qed
  show ?case
  proof (cases "it_right x")
    case None
    with x pos show ?thesis by (cases n) auto
  next
    case (Some a)
    with linkedD(2) [OF l x] have a: "live s a" "rank i < rank a" by auto
    have "card {j. live s j \<and> rank a \<le> rank j} < card {j. live s j \<and> rank i \<le> rank j}"
      by (rule card_shrink [OF live_card(1) [OF g] Suc.prems(1)]) (use a in auto)
    with Suc.IH [OF a(1)] Suc.prems(2) x Some show ?thesis by auto
  qed
qed simp

lemma walk_total:
  assumes "wf_store s"
  shows "\<exists>its. sequence s t = Some its"
proof -
  obtain rank where g: "gapless s" and l: "linked rank s" using assms by (auto simp: wf_store_def)
  show ?thesis
  proof (cases "ytype_start (get_type s t)")
    case None
    then show ?thesis by (simp add: sequence_def walk_fuel_def)
  next
    case (Some i)
    have "card {j. live s j \<and> rank i \<le> rank j} \<le> card {j. live s j}"
      by (rule card_mono [OF live_card(1) [OF g]]) auto
    then have "card {j. live s j \<and> rank i \<le> rank j} < walk_fuel s" using live_card(2) [OF g] by simp
    with walk_ends [OF g l linked_start [OF l Some]] Some show ?thesis by (simp add: sequence_def)
  qed
qed

text \<open>Naming the kind of a root type changes nothing but that name.\<close>

lemma wf_set_ref:
  assumes "wf_store s"
  shows "wf_store (set_type t ((get_type s t)\<lparr>ytype_ref := r\<rparr>) s)"
    and "same_content s (set_type t ((get_type s t)\<lparr>ytype_ref := r\<rparr>) s)"
proof -
  let ?s = "set_type t ((get_type s t)\<lparr>ytype_ref := r\<rparr>) s"
  obtain rank where g: "gapless s" and l: "linked rank s" using assms by (auto simp: wf_store_def)
  have live: "live ?s = live s" by (simp add: live_def fun_eq_iff)
  have "type_linked s (get_type s t)" using l types_get_type by (simp add: linked_def)
  then have "type_linked s ((get_type s t)\<lparr>ytype_ref := r\<rparr>)" by (simp add: type_linked_def)
  then have "list_all (\<lambda>(t, y). type_linked s y) (types ?s)"
    using l by (simp add: linked_def set_type_def list_all_update)
  then have "linked rank ?s" using l unfolding linked_def item_linked_def type_linked_def live by simp
  with g show "wf_store ?s" unfolding wf_store_def by auto
  show "same_content s ?s" unfolding same_content_def live by simp
qed

lemma wf_view:
  assumes "wf_doc d"
  shows "wf_doc (doc_Text name d) \<and> same_content (doc_store d) (doc_store (doc_Text name d))"
    and "wf_doc (doc_Map name d) \<and> same_content (doc_store d) (doc_store (doc_Map name d))"
proof -
  have w: "wf_store (doc_Get name (doc_store d))" "same_content (doc_store d) (doc_Get name (doc_store d))"
    using assms wf_doc_Get by (auto simp: wf_doc_def)
  note r = wf_set_ref [OF w(1)]
  show "wf_doc (doc_Text name d) \<and> same_content (doc_store d) (doc_store (doc_Text name d))"
    "wf_doc (doc_Map name d) \<and> same_content (doc_store d) (doc_store (doc_Map name d))"
    using assms w r same_content_trans [OF w(2) r(2)] by (auto simp: doc_Text_def doc_Map_def Let_def wf_doc_def)
qed

subsection \<open>Lemmas: subdocuments\<close>

definition references :: "doc \<Rightarrow> bytes \<Rightarrow> bool" where
  "references d g \<longleftrightarrow> (\<exists>client it opts. Item it \<in> set (store_Structs (doc_store d) client)
     \<and> \<not> it_deleted it \<and> Content it = ContentDoc g opts)"

lemma subdoc_guid_iff: "subdoc_guid st = Some g \<longleftrightarrow> (\<exists>it opts. st = Item it \<and> \<not> it_deleted it \<and> Content it = ContentDoc g opts)"
  by (cases st) (auto split: content.splits)

lemma Subdocs_iff:
  shows "set (Subdocs d) = {g. references d g}" and "sorted (Subdocs d)" and "distinct (Subdocs d)"
proof -
  let ?s = "doc_store d"
  let ?add = "\<lambda>st seen. case subdoc_guid st of None \<Rightarrow> seen | Some g \<Rightarrow> List.insert g seen"
  have inner: "set (fold ?add ss seen) = set seen \<union> {g. \<exists>st\<in>set ss. subdoc_guid st = Some g}
      \<and> (distinct seen \<longrightarrow> distinct (fold ?add ss seen))" for ss seen
    by (induction ss arbitrary: seen) (auto split: option.splits)
  let ?step = "\<lambda>client seen. fold ?add (store_Structs ?s client) seen"
  have outer: "set (fold ?step cs seen) = set seen \<union> {g. \<exists>c\<in>set cs. \<exists>st\<in>set (store_Structs ?s c). subdoc_guid st = Some g}
      \<and> (distinct seen \<longrightarrow> distinct (fold ?step cs seen))" for cs seen
  proof (induction cs arbitrary: seen)
    case (Cons c cs)
    show ?case using Cons.IH [of "?step c seen"] inner [of "store_Structs ?s c" seen] by auto
  qed simp
  have clients: "c \<in> set (store_Clients ?s)" if "st \<in> set (store_Structs ?s c)" for c st
    using that by (cases "map_of (clients ?s) c")
      (auto simp: store_Clients_def clientsDescending_def store_Structs_def intro: rev_image_eqI dest!: map_of_SomeD)
  show "sorted (Subdocs d)" by (simp add: Subdocs_def Let_def)
  show "distinct (Subdocs d)" using outer [of "store_Clients ?s" "[]"] by (simp add: Subdocs_def Let_def)
  show "set (Subdocs d) = {g. references d g}"
    using outer [of "store_Clients ?s" "[]"] clients
    by (auto simp: Subdocs_def Let_def references_def subdoc_guid_iff)
qed

subsection \<open>Lemmas: memory\<close>

lemma Usage_floor:
  assumes "\<And>ss. length ss \<le> backing ss"
  shows "2 * ifaceSize * u_Structs (doc_Usage capacity backing d) \<le> u_Bytes (doc_Usage capacity backing d)"
proof -
  have one: "ifaceSize \<le> structBytes capacity keys st" for keys st
    by (cases st) (auto simp: itemSize_def gcSize_def ifaceSize_def)
  have "ifaceSize * length ss \<le> sum_list (map (structBytes capacity keys) ss)" for ss keys
    by (induction ss) (auto intro: add_mono simp: one)
  moreover have "ifaceSize * length ss \<le> backing ss * ifaceSize" for ss
    using mult_le_mono1 [OF assms [of ss], of ifaceSize] by (simp add: mult.commute)
  ultimately have each: "2 * ifaceSize * length ss \<le> backing ss * ifaceSize + sum_list (map (structBytes capacity keys) ss)"
    for ss keys by (metis add_mono mult_2 mult.assoc)
  have "2 * ifaceSize * sum_list (map (\<lambda>(c, ss). length ss) cs)
      \<le> sum_list (map (\<lambda>(c, ss). backing ss * ifaceSize + sum_list (map (structBytes capacity keys) ss)) cs)" for cs keys
    by (induction cs) (auto simp: distrib_left intro: add_mono each)
  note all = this [of "clients (doc_store d)" "\<lambda>i. map fst (mapItems (get_type (doc_store d) (TOwned i)))"]
  show ?thesis
    unfolding doc_Usage_def Let_def Usage.simps by (rule trans_le_add1, rule trans_le_add2, rule all)
qed

end
