(* ===== verification/Document_Properties.thy ===== *)
theory Document_Properties
  imports Views "HOL-Library.Code_Target_Nat"
begin

text \<open>
  What a document promises, for every document that updates can produce: \<open>reachable_doc\<close> is
  \<open>NewDoc\<close> followed by any sequence of updates, well-formed or not, from any peer. The walks
  over an item list carry fuel in the model; the equations here let them run on an instance.
\<close>

subsection \<open>Running the walks\<close>

lemma leftmost_code [code]:
  "leftmost n s p =
     (if n = 0 then None
      else case p of
        None \<Rightarrow> Some None
      | Some i \<Rightarrow>
          (case deref s i of
             None \<Rightarrow> None
           | Some x \<Rightarrow> (case it_left x of None \<Rightarrow> Some (Some i) | Some l \<Rightarrow> leftmost (n - 1) s (Some l))))"
  by (cases n; cases p) (simp_all split: option.split)

lemma conflict_loop_code [code]:
  "conflict_loop n s it left p conflicting before =
     (if n = 0 then None
      else case p of
        None \<Rightarrow> Some left
      | Some i \<Rightarrow>
          (if it_right it = Some i then Some left
           else case deref s i of
             None \<Rightarrow> None
           | Some x \<Rightarrow>
               (let before = i # before;
                    conflicting = i # conflicting
                in if sameID (Origin it) (Origin x)
                   then (if Client (item_ID x) < Client (item_ID it)
                         then conflict_loop (n - 1) s it (Some i) (it_right x) [] before
                         else if sameID (RightOrigin it) (RightOrigin x) then Some left
                         else conflict_loop (n - 1) s it left (it_right x) conflicting before)
                   else (case Origin x of
                           None \<Rightarrow> Some left
                         | Some orig \<Rightarrow>
                             if in_ids (itemAt s orig) before
                             then (if \<not> in_ids (itemAt s orig) conflicting
                                   then conflict_loop (n - 1) s it (Some i) (it_right x) [] before
                                   else conflict_loop (n - 1) s it left (it_right x) conflicting before)
                             else Some left))))"
  by (cases n; cases p) (simp_all add: Let_def split: option.split)

lemma walk_items_code [code]:
  "walk_items n s p =
     (if n = 0 then None
      else case p of
        None \<Rightarrow> Some []
      | Some i \<Rightarrow>
          (case deref s i of
             None \<Rightarrow> None
           | Some x \<Rightarrow> map_option (Cons x) (walk_items (n - 1) s (it_right x))))"
  by (cases n; cases p) (simp_all split: option.split)

subsection \<open>Instances\<close>

text \<open>One client inserts two characters into a text.\<close>

definition sample_bytes :: bytes where
  "sample_bytes = [1, 1, 7, 0, 4, 1, 1, 116, 2, 104, 105, 0]"

definition applied_to :: "doc \<Rightarrow> bytes \<Rightarrow> doc" where
  "applied_to d b = (case ApplyUpdate d b of Some (Inr d') \<Rightarrow> d' | _ \<Rightarrow> d)"

definition sample_doc :: doc where
  "sample_doc = applied_to (NewDoc 0) sample_bytes"

lemma reachable_applied:
  assumes "reachable_doc c d" shows "reachable_doc c (applied_to d b)"
  using assms reachable_doc.upd [OF assms, of b] by (auto simp: applied_to_def split: option.splits sum.splits)

lemma reachable_sample: "reachable_doc 0 sample_doc"
  unfolding sample_doc_def by (rule reachable_applied [OF reachable_doc.new])

subsection \<open>Applying updates\<close>

text \<open>
  C1. Applying an update always ends, whatever the bytes: either they do not decode, and that error is
  returned, or a document is returned that is again reachable, in which no clock has gone back, no
  deletion has been undone and no item has disappeared. The conflict resolution inside walks linked
  items, so that it ends at all is part of the statement.
\<close>

theorem apply_update_total:
  assumes "reachable_doc c d"
  shows "\<exists>r. ApplyUpdate d b = Some r
    \<and> (case r of Inl er \<Rightarrow> DecodeUpdate b = Inl er
       | Inr d' \<Rightarrow> reachable_doc c d' \<and> grows (doc_store d) (doc_store d'))"
  using ApplyUpdate_ok [OF reachable_wf [OF assms], of b] reachable_doc.upd [OF assms, of b] by fastforce

theorem apply_update_total_witness:
  "\<exists>r. ApplyUpdate sample_doc [9, 9] = Some r
    \<and> (case r of Inl er \<Rightarrow> DecodeUpdate [9, 9] = Inl er
       | Inr d' \<Rightarrow> reachable_doc 0 d' \<and> grows (doc_store sample_doc) (doc_store d'))"
  by (rule apply_update_total [OF reachable_sample])

text \<open>
  C2. In every reachable document each clock below a client's state belongs to exactly one struct and
  no struct reaches beyond it, and the links between items are acyclic: an order of the items exists
  in which every left neighbour comes before and every right neighbour after, all of them present.
\<close>

theorem store_well_formed:
  assumes "reachable_doc c d"
  shows "(\<forall>client k. (\<exists>!st. st \<in> set (store_Structs (doc_store d) client) \<and> struct_covers st k)
        \<longleftrightarrow> k < State (doc_store d) client)
     \<and> (\<exists>rank. linked rank (doc_store d))"
proof -
  have g: "gapless (doc_store d)" and l: "\<exists>rank. linked rank (doc_store d)"
    using reachable_wf [OF assms] by (auto simp: wf_doc_def wf_store_def)
  show ?thesis
    using l covered_iff_State [OF g] struct_unique [OF g] by metis
qed

theorem store_well_formed_witness:
  "State (doc_store sample_doc) 7 = 2
   \<and> (\<exists>!st. st \<in> set (store_Structs (doc_store sample_doc) 7) \<and> struct_covers st 1)"
proof -
  have s: "State (doc_store sample_doc) 7 = 2" by code_simp
  with store_well_formed [OF reachable_sample] show ?thesis by simp
qed

text \<open>
  C24. The binary search of the store finds a struct exactly when one covers the clock, and it is that
  one: it agrees with looking at every struct.
\<close>

theorem find_is_search:
  assumes "reachable_doc c d"
  shows "(\<forall>k. store_find (doc_store d) i = Inr k \<longleftrightarrow>
      k < length (store_Structs (doc_store d) (Client i))
      \<and> struct_covers (store_Structs (doc_store d) (Client i) ! k) (Clock i))
    \<and> (Clock i < State (doc_store d) (Client i) \<longleftrightarrow> (\<exists>k. store_find (doc_store d) i = Inr k))"
proof -
  have g: "gapless (doc_store d)" using reachable_wf [OF assms] by (simp add: wf_doc_def wf_store_def)
  show ?thesis
    unfolding store_find_iff [OF g] covered_iff_State [OF g, symmetric] by (metis in_set_conv_nth)
qed

lemma find_sample: "\<exists>k. store_find (doc_store sample_doc) (ID 7 1) = Inr k"
proof -
  have "(case store_find (doc_store sample_doc) (ID 7 1) of Inr k \<Rightarrow> True | Inl er \<Rightarrow> False)" by code_simp
  then show ?thesis by (auto split: sum.splits)
qed

theorem find_is_search_witness: "\<exists>k. store_find (doc_store sample_doc) (ID 7 1) = Inr k"
proof -
  have s: "State (doc_store sample_doc) 7 = 2" by code_simp
  then have "Clock (ID 7 1) < State (doc_store sample_doc) (Client (ID 7 1))" by simp
  then show ?thesis using find_is_search [OF reachable_sample, of "ID 7 1"] by blast
qed



subsection \<open>Deletions\<close>

text \<open>
  C5. Deleting a range of clocks deletes every clock of it the document has, and nothing else. Two
  exceptions are part of the statement: an item that cannot be split at the end of the range is left
  alone, and the second part does not hold when the start of the range is inside a surrogate pair.
\<close>

theorem delete_range_exact:
  assumes "reachable_doc c d"
  shows "(\<forall>k. from \<le> k \<and> k < to \<and> k < State (doc_store d) client \<longrightarrow>
      deleted_at (deleteRange (doc_store d) client from to) (ID client k)
      \<or> stuck_at (deleteRange (doc_store d) client from to) client to k)
    \<and> (GetItemCleanStart (doc_store d) (ID client from) \<noteq> Inl ErrSplitSurrogate \<longrightarrow>
      (\<forall>j. deleted_at (deleteRange (doc_store d) client from to) j \<longrightarrow>
      deleted_at (doc_store d) j \<or> Client j = client \<and> from \<le> Clock j \<and> Clock j < to))"
proof -
  have "wf_store (doc_store d)" using reachable_wf [OF assms] by (simp add: wf_doc_def)
  then show ?thesis using deleteRange_all deleteRange_only by metis
qed

theorem delete_range_exact_witness:
  "\<not> deleted_at (doc_store sample_doc) (ID 7 0)
   \<and> (deleted_at (deleteRange (doc_store sample_doc) 7 0 1) (ID 7 0)
      \<or> stuck_at (deleteRange (doc_store sample_doc) 7 0 1) 7 1 0)
   \<and> \<not> deleted_at (deleteRange (doc_store sample_doc) 7 0 1) (ID 7 1)"
proof -
  have "State (doc_store sample_doc) 7 = 2" "\<not> deleted_at (doc_store sample_doc) (ID 7 0)"
    "\<not> deleted_at (doc_store sample_doc) (ID 7 1)"
    "(case GetItemCleanStart (doc_store sample_doc) (ID 7 0) of Inl er \<Rightarrow> False | Inr r \<Rightarrow> True)"
    by code_simp+
  then show ?thesis
    using delete_range_exact [OF reachable_sample, of 0 1 7] by (auto split: sum.splits)
qed

text \<open>
  A range that starts on the second half of a surrogate pair deletes the whole item in front of it,
  the first half included.
\<close>

definition emoji_bytes :: bytes where
  "emoji_bytes = [1, 1, 7, 0, 4, 1, 1, 116, 4, 0xf0, 0x9f, 0x98, 0x80, 0]"

lemma delete_half_pair:
  "\<not> deleted_at (doc_store (applied_to (NewDoc 0) emoji_bytes)) (ID 7 0)
   \<and> deleted_at (doc_store (applied_to (applied_to (NewDoc 0) emoji_bytes) [0, 1, 7, 1, 1, 1])) (ID 7 0)"
  by code_simp

text \<open>
  C7. The delete set a document sends is canonical and names exactly the clocks that are deleted in its
  store and those whose deletion it still holds back.
\<close>

theorem delete_set_sent:
  assumes "reachable_doc c d"
  shows "ds_canonical (deleteSetForUpdate d)
    \<and> (\<forall>i. IsDeleted (deleteSetForUpdate d) i \<longleftrightarrow> deleted_at (doc_store d) i \<or> IsDeleted (pendingDeletes d) i)"
  using deleteSetForUpdate_iff [OF reachable_wf [OF assms]] by blast

theorem delete_set_sent_witness:
  "IsDeleted (deleteSetForUpdate (applied_to sample_doc [0, 1, 7, 1, 1, 1])) (ID 7 1)"
proof -
  have "deleted_at (doc_store (applied_to sample_doc [0, 1, 7, 1, 1, 1])) (ID 7 1)" by code_simp
  then show ?thesis using delete_set_sent [OF reachable_applied [OF reachable_sample]] by blast
qed

text \<open>
  C6. A peer with a state vector is sent, for each client, exactly what it is missing: a block for a
  client if and only if the peer's clock is behind, starting at the peer's clock, with the structs
  from the one that covers that clock to the last.
\<close>

theorem diff_is_what_is_missing:
  assumes "reachable_doc c d"
  shows "b \<in> set (uClients (stateAsUpdate d sv)) \<longleftrightarrow>
     sv_Get sv (cbClient b) < State (doc_store d) (cbClient b) \<and> StartClock b = sv_Get sv (cbClient b)
     \<and> (\<exists>idx. store_find (doc_store d) (ID (cbClient b) (sv_Get sv (cbClient b))) = Inr idx
          \<and> Structs b = drop idx (store_Structs (doc_store d) (cbClient b)))"
proof -
  have w: "wf_store (doc_store d)" using reachable_wf [OF assms] by (simp add: wf_doc_def)
  show ?thesis
  proof (cases "sv_Get sv (cbClient b) < State (doc_store d) (cbClient b)")
    case True
    obtain idx where "missing_block (doc_store d) sv (cbClient b) = Some \<lparr>cbClient = cbClient b,
        StartClock = sv_Get sv (cbClient b), Structs = drop idx (store_Structs (doc_store d) (cbClient b))\<rparr>"
      "store_find (doc_store d) (ID (cbClient b) (sv_Get sv (cbClient b))) = Inr idx"
      by (rule missing_block_some [OF w True])
    then show ?thesis
      using True stateAsUpdate_block [OF reachable_wf [OF assms], of b sv] by (cases b) auto
  next
    case False
    then show ?thesis
      using stateAsUpdate_block [OF reachable_wf [OF assms], of b sv]
        missing_block_none [of "doc_store d" "cbClient b" sv] by simp
  qed
qed

theorem diff_is_what_is_missing_witness:
  "\<exists>b \<in> set (uClients (stateAsUpdate sample_doc [(7, 1)])). cbClient b = 7 \<and> StartClock b = 1"
proof -
  have s: "State (doc_store sample_doc) 7 = 2" by code_simp
  obtain idx where "store_find (doc_store sample_doc) (ID 7 1) = Inr idx"
    using find_sample by blast
  with s show ?thesis
    using diff_is_what_is_missing [OF reachable_sample,
        of "\<lparr>cbClient = 7, StartClock = 1, Structs = drop idx (store_Structs (doc_store sample_doc) 7)\<rparr>" "[(7, 1)]"]
    by (force simp: sv_Get_def)
qed

subsection \<open>Reading\<close>

text \<open>
  C26. Walking the items of any type of a reachable document reaches the end of the list, so reading a
  text or a map returns.
\<close>

theorem walk_returns:
  assumes "reachable_doc c d"
  shows "\<exists>its. sequence (doc_store d) t = Some its"
  using walk_total reachable_wf [OF assms] by (simp add: wf_doc_def)

theorem walk_returns_witness: "\<exists>its. sequence (doc_store sample_doc) (TRoot (str ''t'')) = Some its"
  by (rule walk_returns [OF reachable_sample])

text \<open>
  The subdocuments of a document are listed once each, in order, and are exactly those that a
  present item refers to.
\<close>

theorem subdocs_exact:
  "set (Subdocs d) = {g. references d g} \<and> sorted (Subdocs d) \<and> distinct (Subdocs d)"
  using Subdocs_iff by blast

subsection \<open>Edits that are lost\<close>





end
