(* ===== verification/Awareness.thy ===== *)
theory Awareness
  imports Messages
begin

text \<open>
  The presence of the clients of a document, \<open>protocol/awareness.go\<close>: the last state every client
  published, with the clocks that tell a new state from a replayed one.

  \<open>time.Time\<close> is a number of nanoseconds. An update is applied entry by entry while it is read,
  so an error half way keeps what was applied before it: \<open>ApplyUpdate\<close> returns the tracker, the
  clients that changed and the error, if any. The entries are a map in the code; the list that
  stands for it is one of its iteration orders, which matters only for ties in \<open>forgetOldest\<close>.

  The lemmas: the number of states, of remembered clocks and the size of a state stay within the
  limits whatever clients send; clocks never go back and a replay changes nothing; the greeting of
  a joining connection carries exactly the states that are present.
\<close>

subsection \<open>State\<close>

definition NullState :: bytes where
  "NullState = str ''null''"

definition forgetAfter :: int where
  "forgetAfter = 600000000000"

record Limits =
  MaxState :: int
  MaxClients :: int

definition DefaultMaxState :: int where
  "DefaultMaxState = 4096"

definition DefaultMaxClients :: int where
  "DefaultMaxClients = 1024"

definition maxState :: "Limits \<Rightarrow> int" where
  "maxState l = (if MaxState l = 0 then DefaultMaxState else MaxState l)"

definition maxClients :: "Limits \<Rightarrow> int" where
  "maxClients l = (if MaxClients l = 0 then DefaultMaxClients else MaxClients l)"

record aentry =
  a_clock :: nat
  a_state :: bytes
  a_present :: bool
  lastUpdated :: int

definition no_entry :: aentry where
  "no_entry = \<lparr>a_clock = 0, a_state = [], a_present = False, lastUpdated = 0\<rparr>"

record Awareness =
  entries :: "(nat \<times> aentry) list"
  limits :: Limits
  present :: int

definition NewAwarenessWithLimits :: "Limits \<Rightarrow> Awareness" where
  "NewAwarenessWithLimits l = \<lparr>entries = [], limits = l, present = 0\<rparr>"

definition NewAwareness :: Awareness where
  "NewAwareness = NewAwarenessWithLimits \<lparr>MaxState = 0, MaxClients = 0\<rparr>"

definition aw_Entries :: "Awareness \<Rightarrow> nat" where
  "aw_Entries a = length (entries a)"

definition aw_Len :: "Awareness \<Rightarrow> nat" where
  "aw_Len a = length (filter (\<lambda>(i, e). a_present e) (entries a))"

definition aw_Clients :: "Awareness \<Rightarrow> nat list" where
  "aw_Clients a = sort (map fst (filter (\<lambda>(i, e). a_present e) (entries a)))"

definition aw_entry :: "Awareness \<Rightarrow> nat \<Rightarrow> aentry" where
  "aw_entry a client = (case map_of (entries a) client of None \<Rightarrow> no_entry | Some e \<Rightarrow> e)"

definition aw_State :: "Awareness \<Rightarrow> nat \<Rightarrow> bytes option" where
  "aw_State a client =
     (case map_of (entries a) client of
        None \<Rightarrow> None
      | Some e \<Rightarrow> if \<not> a_present e then None else Some (a_state e))"

subsection \<open>Forgetting\<close>

definition older :: "nat \<times> aentry \<Rightarrow> (nat \<times> int) option \<Rightarrow> (nat \<times> int) option" where
  "older p found =
     (if a_present (snd p) then found
      else case found of
        None \<Rightarrow> Some (fst p, lastUpdated (snd p))
      | Some (oldest, at) \<Rightarrow> if lastUpdated (snd p) < at then Some (fst p, lastUpdated (snd p)) else found)"

definition oldest_removed :: "(nat \<times> aentry) list \<Rightarrow> (nat \<times> int) option" where
  "oldest_removed es = fold older es None"

lemma oldest_removed_in:
  assumes "oldest_removed es = Some (i, t)"
  shows "\<exists>e. (i, e) \<in> set es \<and> \<not> a_present e"
proof -
  have "fold older es acc = Some (i, t) \<Longrightarrow> acc = Some (i, t) \<or> (\<exists>e. (i, e) \<in> set es \<and> \<not> a_present e)" for acc
  proof (induction es arbitrary: acc)
    case (Cons x es)
    from Cons.IH [of "older x acc"] Cons.prems show ?case
      by (cases x) (auto simp: older_def split: if_splits option.splits prod.splits)
  qed simp
  with assms show ?thesis unfolding oldest_removed_def by blast
qed

function forgetOldest :: "int \<Rightarrow> (nat \<times> aentry) list \<Rightarrow> (nat \<times> aentry) list" where
  "forgetOldest limit es =
     (if limit \<le> int (length es)
      then (case oldest_removed es of
              None \<Rightarrow> es
            | Some (oldest, at) \<Rightarrow> forgetOldest limit (AList.delete oldest es))
      else es)"
  by pat_completeness auto
termination
proof (relation "measure (\<lambda>(limit, es). length es)", goal_cases)
  case (2 limit es p oldest at)
  then obtain e where "(oldest, e) \<in> set es" using oldest_removed_in by blast
  then show ?case by (auto simp: AList.delete_eq intro: length_filter_less)
qed simp

declare forgetOldest.simps [simp del]

subsection \<open>Applying an update\<close>

definition accepts :: "aentry \<Rightarrow> nat \<Rightarrow> bool \<Rightarrow> bool" where
  "accepts e clock isNull \<longleftrightarrow> a_clock e < clock \<or> a_clock e = clock \<and> isNull \<and> a_present e"

definition apply_entry :: "int \<Rightarrow> nat \<Rightarrow> nat \<Rightarrow> bytes \<Rightarrow> Awareness \<Rightarrow> (bool \<times> Awareness) res" where
  "apply_entry now client clock state a =
     (if MaxSafeInteger < client \<or> MaxSafeInteger < clock then Inl ErrAwarenessClockOutOfRange
      else (let known = (map_of (entries a) client \<noteq> None);
                e = aw_entry a client;
                isNull = (state = NullState);
                ms = maxState (limits a);
                mc = maxClients (limits a)
            in if \<not> isNull \<and> 0 < ms \<and> ms < int (length state)
               then Inl (ErrStateTooLarge (length state) (nat ms))
               else if \<not> isNull \<and> 0 < mc \<and> (\<not> known \<or> \<not> a_present e) \<and> mc \<le> present a
               then Inl (ErrTooManyClients (nat (present a)))
               else if \<not> accepts e clock isNull then Inr (False, a)
               else (let es = (if \<not> known \<and> 0 < mc then forgetOldest (2 * mc) (entries a) else entries a);
                         p = (if a_present e \<noteq> (\<not> isNull)
                              then (if isNull then present a - 1 else present a + 1) else present a);
                         e = \<lparr>a_clock = clock, a_state = (if isNull then [] else state),
                              a_present = (\<not> isNull), lastUpdated = now\<rparr>
                     in Inr (True, a\<lparr>entries := AList.update client e es, present := p\<rparr>))))"

primrec apply_entries ::
  "nat \<Rightarrow> int \<Rightarrow> decoder \<Rightarrow> Awareness \<Rightarrow> nat list \<Rightarrow> Awareness \<times> nat list \<times> err option" where
  "apply_entries 0 now d a changed = (a, changed, if \<not> Done d then Some ErrTrailingBytes else None)"
| "apply_entries (Suc n) now d a changed =
     (case ReadVarUint d of
        Inl er \<Rightarrow> (a, changed, Some er)
      | Inr (client, d) \<Rightarrow>
        (case ReadVarUint d of
           Inl er \<Rightarrow> (a, changed, Some er)
         | Inr (clock, d) \<Rightarrow>
           (case ReadVarString d of
              Inl er \<Rightarrow> (a, changed, Some er)
            | Inr (state, d) \<Rightarrow>
              (case apply_entry now client clock state a of
                 Inl er \<Rightarrow> (a, changed, Some er)
               | Inr (accepted, a') \<Rightarrow>
                   apply_entries n now d a' (if accepted then changed @ [client] else changed)))))"

definition aw_ApplyUpdate :: "bytes \<Rightarrow> int \<Rightarrow> Awareness \<Rightarrow> Awareness \<times> nat list \<times> err option" where
  "aw_ApplyUpdate payload now a =
     (case ReadVarUint (NewDecoder payload) of
        Inl er \<Rightarrow> (a, [], Some er)
      | Inr (n, d) \<Rightarrow>
          if Remaining d < n then (a, [], Some ErrUnexpectedEOF)
          else apply_entries n now d a [])"

subsection \<open>Encoding and removing\<close>

definition write_entry :: "Awareness \<Rightarrow> nat \<Rightarrow> encoder \<Rightarrow> encoder" where
  "write_entry a i e =
     (let ent = aw_entry a i
      in WriteVarString (if a_present ent then a_state ent else NullState)
           (WriteVarUint (a_clock ent) (WriteVarUint i e)))"

definition aw_Encode :: "Awareness \<Rightarrow> nat list \<Rightarrow> bytes res" where
  "aw_Encode a clients = finish (fold (write_entry a) clients (WriteVarUint (length clients) NewEncoder))"

definition EncodeAll :: "Awareness \<Rightarrow> bytes res" where
  "EncodeAll a = aw_Encode a (aw_Clients a)"

definition remove_one :: "int \<Rightarrow> nat \<Rightarrow> Awareness \<Rightarrow> Awareness" where
  "remove_one now i a =
     (let e = aw_entry a i;
          p = (if a_present e then present a - 1 else present a)
      in a\<lparr>entries := AList.update i (e\<lparr>a_present := False, a_state := [], lastUpdated := now\<rparr>) (entries a),
           present := p\<rparr>)"

definition aw_remove :: "nat list \<Rightarrow> int \<Rightarrow> Awareness \<Rightarrow> Awareness \<times> (nat list \<times> bytes) res" where
  "aw_remove clients now a =
     (let a = fold (remove_one now) clients a
      in (a, case aw_Encode a clients of Inl er \<Rightarrow> Inl er | Inr payload \<Rightarrow> Inr (clients, payload)))"

definition Sweep :: "int \<Rightarrow> int \<Rightarrow> Awareness \<Rightarrow> Awareness \<times> (nat list \<times> bytes) res" where
  "Sweep now ttl a =
     (let stale = map fst (filter (\<lambda>(i, e). a_present e \<and> ttl \<le> now - lastUpdated e) (entries a));
          a = a\<lparr>entries := filter (\<lambda>(i, e). a_present e \<or> \<not> forgetAfter \<le> now - lastUpdated e) (entries a)\<rparr>
      in if length stale = 0 then (a, Inr ([], []))
         else aw_remove (sort stale) now a)"

definition RemoveClients :: "nat list \<Rightarrow> int \<Rightarrow> Awareness \<Rightarrow> Awareness \<times> (nat list \<times> bytes) res" where
  "RemoveClients clients now a =
     (let gone = filter (\<lambda>i. case map_of (entries a) i of None \<Rightarrow> False | Some e \<Rightarrow> a_present e) clients
      in if length gone = 0 then (a, Inr ([], []))
         else aw_remove gone now a)"

subsection \<open>The invariant\<close>

fun entry_ok :: "Limits \<Rightarrow> nat \<times> aentry \<Rightarrow> bool" where
  "entry_ok l (i, e) \<longleftrightarrow> i \<le> MaxSafeInteger \<and> a_clock e \<le> MaxSafeInteger
     \<and> (a_present e \<longrightarrow> 0 < a_clock e \<and> a_state e \<noteq> NullState
          \<and> (0 < maxState l \<longrightarrow> int (length (a_state e)) \<le> maxState l))"

definition aware_ok :: "Awareness \<Rightarrow> bool" where
  "aware_ok a \<longleftrightarrow> distinct (map fst (entries a)) \<and> list_all (entry_ok (limits a)) (entries a)
     \<and> present a = int (aw_Len a)
     \<and> (0 < maxClients (limits a) \<longrightarrow>
          int (aw_Len a) \<le> maxClients (limits a) \<and> int (aw_Entries a) \<le> 2 * maxClients (limits a))"

subsection \<open>Lemmas: the invariant\<close>

definition is_present :: "nat \<times> aentry \<Rightarrow> bool" where
  "is_present p = a_present (snd p)"

lemma aw_Len_alt: "aw_Len a = length (filter is_present (entries a))"
  by (simp add: aw_Len_def is_present_def [abs_def] case_prod_beta')

lemma length_filter_update:
  assumes "distinct (map fst es)"
  shows "int (length (filter is_present (AList.update i e es)))
     = int (length (filter is_present es))
       - (case map_of es i of None \<Rightarrow> 0 | Some x \<Rightarrow> if a_present x then 1 else 0)
       + (if a_present e then 1 else 0)"
  using assms by (induction es) (auto simp: is_present_def split: option.splits)

lemma oldest_removed_none:
  assumes "oldest_removed es = None" and "p \<in> set es"
  shows "is_present p"
proof -
  have some: "fold older es (Some q) \<noteq> None" for es q
    by (induction es arbitrary: q) (auto simp: older_def split: prod.splits)
  have "fold older es None = None \<Longrightarrow> p \<in> set es \<Longrightarrow> is_present p"
  proof (induction es)
    case (Cons x es)
    then have "older x None = None" using some by (cases "older x None") auto
    then have "is_present x" by (auto simp: older_def is_present_def split: if_splits)
    with Cons \<open>older x None = None\<close> show ?case by auto
  qed simp
  with assms show ?thesis by (simp add: oldest_removed_def)
qed

lemma delete_present:
  assumes "distinct (map fst es)" and "(i, e) \<in> set es" and "\<not> a_present e"
  shows "filter is_present (AList.delete i es) = filter is_present es"
proof -
  have "fst p \<noteq> i" if "p \<in> set es" "is_present p" for p
    using that assms eq_key_imp_eq_value [OF assms(1), of i "snd p" e] by (cases p) (auto simp: is_present_def)
  then show ?thesis by (auto simp: AList.delete_eq simp del: split_paired_All intro!: filter_cong) blast
qed

lemma forgetOldest_spec:
  "distinct (map fst es) \<Longrightarrow>
     distinct (map fst (forgetOldest limit es)) \<and> set (forgetOldest limit es) \<subseteq> set es
     \<and> filter is_present (forgetOldest limit es) = filter is_present es
     \<and> (int (length (forgetOldest limit es)) < limit \<or> forgetOldest limit es = filter is_present es)"
proof (induction limit es rule: forgetOldest.induct)
  case (1 limit es)
  show ?case
  proof (cases "limit \<le> int (length es)")
    case True
    show ?thesis
    proof (cases "oldest_removed es")
      case None
      then have "is_present p" if "p \<in> set es" for p using oldest_removed_none that by blast
      then have "filter is_present es = es" by simp
      with True None 1 show ?thesis by (simp add: forgetOldest.simps [of limit es])
    next
      case (Some p)
      obtain i t where p: "p = (i, t)" by fastforce
      then obtain e where e: "(i, e) \<in> set es" "\<not> a_present e" using oldest_removed_in Some by blast
      have "filter is_present (AList.delete i es) = filter is_present es"
        using delete_present [OF 1(2) e] .
      moreover have "set (AList.delete i es) \<subseteq> set es" by (auto simp: AList.delete_eq)
      moreover have "distinct (map fst (AList.delete i es))" using 1(2) by (simp add: AList.distinct_delete)
      ultimately show ?thesis using 1(1) [OF True Some p [symmetric]] True Some p
        by (auto simp: forgetOldest.simps [of limit es])
    qed
  next
    case False
    with 1 show ?thesis by (simp add: forgetOldest.simps [of limit es])
  qed
qed

lemma aw_entry_present: "distinct (map fst (entries a)) \<Longrightarrow> a_present (aw_entry a i) \<Longrightarrow> (i, aw_entry a i) \<in> set (entries a)"
  by (auto simp: aw_entry_def no_entry_def dest: map_of_SomeD split: option.splits)

lemma aware_new: "aware_ok (NewAwarenessWithLimits l)"
  by (auto simp: aware_ok_def NewAwarenessWithLimits_def aw_Len_def aw_Entries_def)

lemma aware_update:
  assumes ok: "aware_ok a" and "entry_ok (limits a) (i, e)"
    and es: "distinct (map fst es)" "set es \<subseteq> set (entries a)" "filter is_present es = filter is_present (entries a)"
    and mo: "map_of es i = map_of (entries a) i"
    and p: "p = present a - (if a_present (aw_entry a i) then 1 else 0) + (if a_present e then 1 else 0)"
    and cap: "0 < maxClients (limits a) \<Longrightarrow> a_present e \<Longrightarrow> \<not> a_present (aw_entry a i) \<Longrightarrow> present a < maxClients (limits a)"
    and room: "0 < maxClients (limits a) \<Longrightarrow> map_of (entries a) i = None \<Longrightarrow> int (length es) < 2 * maxClients (limits a)"
  shows "aware_ok (a\<lparr>entries := AList.update i e es, present := p\<rparr>)"
proof -
  let ?a = "a\<lparr>entries := AList.update i e es, present := p\<rparr>"
  have "list_all (entry_ok (limits a)) es" using ok es(2) by (auto simp: aware_ok_def list_all_iff)
  then have "list_all (entry_ok (limits a)) (AList.update i e es)"
    using assms(2) by (rule list_all_update)
  moreover have "int (aw_Len ?a) = p"
    using length_filter_update [OF es(1), of i e] ok
    by (auto simp: aw_Len_alt es(3) p mo aware_ok_def aw_entry_def no_entry_def split: option.splits)
  moreover have "int (aw_Len ?a) \<le> maxClients (limits a)" if "0 < maxClients (limits a)"
    using calculation(2) p cap [OF that] ok that by (auto simp: aware_ok_def split: if_splits)
  moreover have "int (aw_Entries ?a) \<le> 2 * maxClients (limits a)" if "0 < maxClients (limits a)"
  proof -
    have "length es \<le> length (entries a)"
      using card_mono [OF finite_set es(2)] es(1) card_length [of "entries a"]
      by (metis distinct_card distinct_map order_trans)
    then show ?thesis
    using room [OF that] ok that by (auto simp: aware_ok_def aw_Entries_def length_update mo)
  qed
  ultimately show ?thesis using es(1) by (auto simp: aware_ok_def AList.distinct_update)
qed

lemma map_of_subset:
  "distinct (map fst es) \<Longrightarrow> set es \<subseteq> set m \<Longrightarrow> map_of m i = None \<Longrightarrow> map_of es i = None"
  by (force simp: map_of_eq_None_iff)

definition room_for :: "Awareness \<Rightarrow> nat \<Rightarrow> (nat \<times> aentry) list" where
  "room_for a client =
     (if map_of (entries a) client = None \<and> 0 < maxClients (limits a)
      then forgetOldest (2 * maxClients (limits a)) (entries a) else entries a)"

definition new_entry :: "int \<Rightarrow> nat \<Rightarrow> bytes \<Rightarrow> aentry" where
  "new_entry now clock state =
     \<lparr>a_clock = clock, a_state = (if state = NullState then [] else state), a_present = (state \<noteq> NullState), lastUpdated = now\<rparr>"

lemma apply_entry_cases:
  assumes "apply_entry now client clock state a = Inr (accepted, a')"
  shows "accepted \<longleftrightarrow> accepts (aw_entry a client) clock (state = NullState)"
    and "\<not> accepted \<Longrightarrow> a' = a"
    and "accepted \<Longrightarrow> a' = a\<lparr>entries := AList.update client (new_entry now clock state) (room_for a client),
      present := present a - (if a_present (aw_entry a client) then 1 else 0) + (if state \<noteq> NullState then 1 else 0)\<rparr>"
    and "client \<le> MaxSafeInteger" and "clock \<le> MaxSafeInteger"
    and "state \<noteq> NullState \<Longrightarrow> 0 < maxState (limits a) \<Longrightarrow> int (length state) \<le> maxState (limits a)"
    and "state \<noteq> NullState \<Longrightarrow> 0 < maxClients (limits a) \<Longrightarrow> \<not> a_present (aw_entry a client) \<Longrightarrow> present a < maxClients (limits a)"
  using assms by (auto simp: apply_entry_def Let_def room_for_def new_entry_def split: if_splits)

lemma room_for_spec:
  assumes "aware_ok a"
  shows "distinct (map fst (room_for a i))" and "set (room_for a i) \<subseteq> set (entries a)"
    and "filter is_present (room_for a i) = filter is_present (entries a)"
    and "map_of (room_for a i) i = map_of (entries a) i"
    and "0 < maxClients (limits a) \<Longrightarrow> map_of (entries a) i = None \<Longrightarrow> int (length (room_for a i)) < 2 * maxClients (limits a)"
proof -
  have dist: "distinct (map fst (entries a))" using assms by (simp add: aware_ok_def)
  note f = forgetOldest_spec [OF dist, of "2 * maxClients (limits a)"]
  show es: "distinct (map fst (room_for a i))" "set (room_for a i) \<subseteq> set (entries a)"
    "filter is_present (room_for a i) = filter is_present (entries a)"
    using f dist by (simp_all add: room_for_def)
  show "map_of (room_for a i) i = map_of (entries a) i"
    using map_of_subset [OF es(1,2)] by (auto simp: room_for_def)
  show "int (length (room_for a i)) < 2 * maxClients (limits a)"
    if "0 < maxClients (limits a)" "map_of (entries a) i = None"
  proof -
    have "int (length (filter is_present (entries a))) \<le> maxClients (limits a)"
      using assms that(1) by (simp add: aware_ok_def aw_Len_alt)
    with f that show ?thesis by (auto simp: room_for_def)
  qed
qed

lemma apply_entry_ok:
  assumes ok: "aware_ok a" and r: "apply_entry now client clock state a = Inr (accepted, a')"
  shows "aware_ok a'"
proof (cases accepted)
  case True
  note c = apply_entry_cases [OF r]
  have "0 < clock" if "state \<noteq> NullState" using True c(1) that by (auto simp: accepts_def)
  then have e: "entry_ok (limits a) (client, new_entry now clock state)" using c(4-6) by (simp add: new_entry_def)
  have "a_present (new_entry now clock state) \<longleftrightarrow> state \<noteq> NullState" by (simp add: new_entry_def)
  with c(7) show ?thesis
    unfolding c(3) [OF True] by (intro aware_update [OF ok e room_for_spec(1-4) [OF ok] _ _ room_for_spec(5) [OF ok]]) auto
qed (use ok apply_entry_cases(2) [OF r] in simp)

lemma apply_entries_ok:
  "aware_ok a \<Longrightarrow> aware_ok (fst (apply_entries n now d a changed))"
proof (induction n arbitrary: d a changed)
  case (Suc n)
  show ?case
    using Suc by (auto split: sum.splits prod.splits dest: apply_entry_ok)
qed simp

lemma aware_ok_ApplyUpdate: "aware_ok a \<Longrightarrow> aware_ok (fst (aw_ApplyUpdate payload now a))"
  by (auto simp: aw_ApplyUpdate_def apply_entries_ok split: sum.splits)

lemma aware_ok_remove_one:
  assumes "aware_ok a" and "map_of (entries a) i \<noteq> None"
  shows "aware_ok (remove_one now i a)"
proof -
  let ?e = "(aw_entry a i)\<lparr>a_present := False, a_state := [], lastUpdated := now\<rparr>"
  obtain e where e: "map_of (entries a) i = Some e" "(i, e) \<in> set (entries a)" using assms(2) by (auto dest: map_of_SomeD)
  then have "entry_ok (limits a) (i, e)" using assms(1) by (auto simp: aware_ok_def list_all_iff)
  then have "entry_ok (limits a) (i, ?e)" using e by (simp add: aw_entry_def)
  from aware_update [OF assms(1) this, of "entries a" "present a - (if a_present (aw_entry a i) then 1 else 0)"] assms
  show ?thesis by (auto simp: remove_one_def Let_def aware_ok_def)
qed

lemma remove_one_known: "map_of (entries a) j \<noteq> None \<Longrightarrow> map_of (entries (remove_one now i a)) j \<noteq> None"
  by (simp add: remove_one_def Let_def AList.update_conv')

lemma aware_ok_remove:
  assumes "aware_ok a" and "\<forall>i\<in>set is. map_of (entries a) i \<noteq> None"
  shows "aware_ok (fst (aw_remove is now a))"
proof -
  have "aware_ok (fold (remove_one now) is a)"
    using assms
  proof (induction "is" arbitrary: a)
    case (Cons i "is")
    have "aware_ok (remove_one now i a)" using Cons.prems by (simp add: aware_ok_remove_one)
    moreover have "\<forall>j\<in>set is. map_of (entries (remove_one now i a)) j \<noteq> None"
      using Cons.prems(2) remove_one_known [of a] by simp
    ultimately show ?case using Cons.IH by simp
  qed simp
  then show ?thesis by (simp add: aw_remove_def Let_def)
qed

lemma aware_ok_RemoveClients: "aware_ok a \<Longrightarrow> aware_ok (fst (RemoveClients is now a))"
  unfolding RemoveClients_def Let_def
  by (auto intro!: aware_ok_remove split: option.splits)

lemma aware_ok_filter:
  assumes "aware_ok a" and "\<And>p. is_present p \<Longrightarrow> P p"
  shows "aware_ok (a\<lparr>entries := filter P (entries a)\<rparr>)"
proof -
  have "filter is_present (filter P (entries a)) = filter is_present (entries a)"
    using assms(2) by (auto intro!: filter_cong)
  moreover have "int (length (filter P (entries a))) \<le> k" if "int (length (entries a)) \<le> k" for k
    using length_filter_le [of P "entries a"] that by linarith
  ultimately show ?thesis
    using assms(1) by (auto simp: aware_ok_def aw_Len_alt aw_Entries_def list_all_iff distinct_map_filter)
qed

lemma aware_ok_Sweep:
  assumes "aware_ok a"
  shows "aware_ok (fst (Sweep now ttl a))"
proof -
  let ?P = "\<lambda>(i, e). a_present e \<or> \<not> forgetAfter \<le> now - lastUpdated e"
  let ?a = "a\<lparr>entries := filter ?P (entries a)\<rparr>"
  let ?stale = "map fst (filter (\<lambda>(i, e). a_present e \<and> ttl \<le> now - lastUpdated e) (entries a))"
  have ok: "aware_ok ?a" by (rule aware_ok_filter [OF assms]) (auto simp: is_present_def)
  have "map_of (entries ?a) i \<noteq> None" if "i \<in> set ?stale" for i
  proof -
    from that obtain e where "(i, e) \<in> set (entries a)" "a_present e" by auto
    then have "(i, e) \<in> set (entries ?a)" by simp
    then show ?thesis by (metis weak_map_of_SomeI option.distinct(1))
  qed
  then have "\<forall>i\<in>set (sort ?stale). map_of (entries ?a) i \<noteq> None" by simp
  from aware_ok_remove [OF ok this, of now] ok show ?thesis
    by (cases "length ?stale = 0") (simp_all only: Sweep_def Let_def if_True if_False fst_conv simp_thms)
qed

interpretation awareness: keeps aware_ok "\<lambda>_. True"
  "\<lambda>ev a. case ev of
     Inl (payload, now) \<Rightarrow> fst (aw_ApplyUpdate payload now a)
   | Inr (Inl (now, ttl)) \<Rightarrow> fst (Sweep now ttl a)
   | Inr (Inr (clients, now)) \<Rightarrow> fst (RemoveClients clients now a)"
  by unfold_locales
    (auto simp: aware_ok_ApplyUpdate aware_ok_Sweep aware_ok_RemoveClients split: sum.splits)

subsection \<open>Lemmas: one entry\<close>

lemma forgetOldest_State:
  assumes "distinct (map fst es)" and "map_of es i = Some e" and "a_present e"
  shows "map_of (forgetOldest limit es) i = Some e"
proof -
  note f = forgetOldest_spec [OF assms(1), of limit]
  have "(i, e) \<in> set (filter is_present es)" using assms by (auto simp: is_present_def dest: map_of_SomeD)
  then have "(i, e) \<in> set (forgetOldest limit es)" using f by (metis filter_is_subset subsetD)
  with f show ?thesis by simp
qed

lemma forgetOldest_absent:
  assumes "distinct (map fst es)" and "map_of (forgetOldest limit es) i = Some e"
  shows "map_of es i = Some e"
  using forgetOldest_spec [OF assms(1), of limit] assms map_of_SomeD [OF assms(2)] by auto

lemma room_for_State:
  assumes "aware_ok a"
  shows "aw_State (a\<lparr>entries := room_for a i\<rparr>) j = aw_State a j"
proof -
  have dist: "distinct (map fst (entries a))" using assms by (simp add: aware_ok_def)
  show ?thesis
    using forgetOldest_State [OF dist, of j _ "2 * maxClients (limits a)"]
      forgetOldest_absent [OF dist, of "2 * maxClients (limits a)" j]
    by (cases "map_of (entries a) j"; cases "map_of (forgetOldest (2 * maxClients (limits a)) (entries a)) j")
      (auto simp: room_for_def aw_State_def)
qed

lemma apply_entry_State:
  assumes ok: "aware_ok a" and r: "apply_entry now client clock state a = Inr (accepted, a')"
  shows "aw_State a' client = (if accepted then (if state = NullState then None else Some state) else aw_State a client)"
    and "j \<noteq> client \<Longrightarrow> aw_State a' j = aw_State a j"
proof -
  note c = apply_entry_cases [OF r]
  show "aw_State a' client = (if accepted then (if state = NullState then None else Some state) else aw_State a client)"
    using c(2,3) by (auto simp: aw_State_def AList.update_conv' new_entry_def)
  show "aw_State a' j = aw_State a j" if "j \<noteq> client"
    using c(2,3) room_for_State [OF ok, of client j] that
    by (cases accepted) (auto simp: aw_State_def AList.update_conv')
qed

lemma apply_entry_replay:
  assumes "apply_entry now client clock state a = Inr (accepted, a')"
  shows "apply_entry later client clock state a' = Inr (False, a')"
proof (cases accepted)
  case False
  with assms apply_entry_cases(1,2) [OF assms] show ?thesis
    by (auto simp: apply_entry_def Let_def split: if_splits)
next
  case True
  note c = apply_entry_cases [OF assms]
  have e: "map_of (entries a') client = Some (new_entry now clock state)" and l: "limits a' = limits a"
    unfolding c(3) [OF True] by (simp_all add: AList.update_conv')
  have "aw_entry a' client = new_entry now clock state" by (simp add: aw_entry_def e)
  moreover have "\<not> accepts (new_entry now clock state) clock (state = NullState)" by (simp add: accepts_def new_entry_def)
  moreover have "state \<noteq> NullState \<Longrightarrow> a_present (new_entry now clock state)" by (simp add: new_entry_def)
  ultimately show ?thesis using c(4-6) e l by (auto simp: apply_entry_def Let_def)
qed

subsection \<open>Lemmas: the greeting\<close>

type_synonym published = "nat \<times> nat \<times> bytes"

primrec apply_list :: "int \<Rightarrow> published list \<Rightarrow> Awareness \<Rightarrow> nat list \<Rightarrow> Awareness \<times> nat list \<times> err option" where
  "apply_list now [] a changed = (a, changed, None)"
| "apply_list now (p # ps) a changed =
     (case apply_entry now (fst p) (fst (snd p)) (snd (snd p)) a of
        Inl er \<Rightarrow> (a, changed, Some er)
      | Inr (accepted, a') \<Rightarrow> apply_list now ps a' (if accepted then changed @ [fst p] else changed))"

definition published_ok :: "published \<Rightarrow> bool" where
  "published_ok p \<longleftrightarrow> fst p \<le> MaxSafeInteger \<and> fst (snd p) \<le> MaxSafeInteger \<and> length (snd (snd p)) \<le> MaxSafeInteger"

definition published_bytes :: "published \<Rightarrow> bytes" where
  "published_bytes p = writeVarUint_loop (fst p) [] @ writeVarUint_loop (fst (snd p)) []
     @ (writeVarUint_loop (length (snd (snd p))) [] @ snd (snd p))"

lemma apply_entries_list:
  "list_all published_ok ps \<Longrightarrow> unread d = concat (map published_bytes ps) \<Longrightarrow>
     apply_entries (length ps) now d a changed = apply_list now ps a changed"
proof (induction ps arbitrary: d a changed)
  case Nil
  then show ?case by (simp add: Done_unread)
next
  case (Cons p ps)
  obtain c k st where p: "p = (c, k, st)" by (metis prod_cases3)
  have ok: "c \<le> MaxSafeInteger" "k \<le> MaxSafeInteger" "length st \<le> MaxSafeInteger"
    using Cons.prems(1) p by (simp_all add: published_ok_def)
  let ?rest = "concat (map published_bytes ps)"
  have u: "unread d = writeVarUint_loop c [] @ (writeVarUint_loop k []
      @ ((writeVarUint_loop (length st) [] @ st) @ ?rest))"
    using Cons.prems(2) p by (simp add: published_bytes_def [of "(c, k, st)"])
  from parses_ReadVarUint [OF ok(1)] u obtain d1 where d1: "ReadVarUint d = Inr (c, d1)"
    "unread d1 = writeVarUint_loop k [] @ ((writeVarUint_loop (length st) [] @ st) @ ?rest)" by (rule parsesE)
  from parses_ReadVarUint [OF ok(2)] d1(2) obtain d2 where d2: "ReadVarUint d1 = Inr (k, d2)"
    "unread d2 = (writeVarUint_loop (length st) [] @ st) @ ?rest" by (rule parsesE)
  from parses_ReadVarString [OF ok(3)] d2(2) obtain d3 where d3: "ReadVarString d2 = Inr (st, d3)"
    "unread d3 = ?rest" by (rule parsesE)
  show ?case using Cons.IH [OF _ d3(2)] Cons.prems(1) d1(1) d2(1) d3(1) p
    by (auto split: sum.splits prod.splits)
qed

definition published :: "Awareness \<Rightarrow> nat \<Rightarrow> published" where
  "published a i = (let e = aw_entry a i in (i, a_clock e, if a_present e then a_state e else NullState))"

lemma aw_Encode_published:
  assumes "list_all (\<lambda>i. published_ok (published a i)) is" and "length is \<le> MaxSafeInteger"
  shows "aw_Encode a is = Inr (writeVarUint_loop (length is) [] @ concat (map (\<lambda>i. published_bytes (published a i)) is))"
proof -
  have one: "emits (write_entry a i) (published_bytes (published a i))" if "published_ok (published a i)" for i
    using that emits_seq [OF emits_WriteVarUint emits_seq [OF emits_WriteVarUint emits_WriteVarString],
        of i "a_clock (aw_entry a i)" "snd (snd (published a i))"]
    by (simp add: write_entry_def [abs_def] published_bytes_def published_def published_ok_def Let_def)
  have "emits (fold (write_entry a) is) (concat (map (\<lambda>i. published_bytes (published a i)) is))"
    by (rule emits_fold) (use assms(1) one in \<open>auto simp: list_all_iff\<close>)
  from emits_seq [OF emits_WriteVarUint [OF assms(2)] this] show ?thesis
    unfolding aw_Encode_def by (rule finish_emits)
qed

lemma ApplyUpdate_published:
  assumes "list_all published_ok ps" and "length ps \<le> MaxSafeInteger"
  shows "aw_ApplyUpdate (writeVarUint_loop (length ps) [] @ concat (map published_bytes ps)) now a = apply_list now ps a []"
proof -
  let ?bs = "concat (map published_bytes ps)"
  from parses_ReadVarUint [OF assms(2)] obtain d where d: "ReadVarUint (NewDecoder (writeVarUint_loop (length ps) [] @ ?bs)) = Inr (length ps, d)"
    "unread d = ?bs" by (rule parsesE [where d = "NewDecoder (writeVarUint_loop (length ps) [] @ ?bs)"]) simp
  have "1 \<le> length (published_bytes p)" for p by (simp add: published_bytes_def Suc_le_eq)
  then have "length ps \<le> length ?bs" 
  proof (induction ps)
    case (Cons p ps)
    then show ?case using add_mono [of 1 "length (published_bytes p)"] by simp
  qed simp
  with d apply_entries_list [OF assms(1) d(2)] show ?thesis by (simp add: aw_ApplyUpdate_def Remaining_unread)
qed

definition acceptable :: "Limits \<Rightarrow> published \<Rightarrow> bool" where
  "acceptable l p \<longleftrightarrow> published_ok p \<and> 0 < fst (snd p) \<and> snd (snd p) \<noteq> NullState
     \<and> (0 < maxState l \<longrightarrow> int (length (snd (snd p))) \<le> maxState l)"

lemma apply_entry_acceptable:
  assumes "aware_ok b" and "acceptable (limits b) p" and "map_of (entries b) (fst p) = None"
    and "0 < maxClients (limits b) \<longrightarrow> present b < maxClients (limits b)"
  shows "\<exists>b'. apply_entry now (fst p) (fst (snd p)) (snd (snd p)) b = Inr (True, b')
     \<and> limits b' = limits b \<and> present b' = present b + 1 \<and> set (map fst (entries b')) \<subseteq> insert (fst p) (set (map fst (entries b)))"
proof -
  have e: "aw_entry b (fst p) = no_entry" using assms(3) by (simp add: aw_entry_def)
  with assms(2-4) obtain b' where b': "apply_entry now (fst p) (fst (snd p)) (snd (snd p)) b = Inr (True, b')"
    by (auto simp: apply_entry_def Let_def accepts_def no_entry_def acceptable_def published_ok_def)
  note c = apply_entry_cases(3) [OF b' TrueI]
  have "set (map fst (entries b')) \<subseteq> insert (fst p) (set (map fst (entries b)))"
    using room_for_spec(2) [OF assms(1), of "fst p"] unfolding c by (auto simp: AList.dom_update)
  with b' assms(2) show ?thesis unfolding c by (simp add: e no_entry_def acceptable_def)
qed

lemma apply_list_acceptable:
  assumes "aware_ok b" and "list_all (acceptable (limits b)) ps" and "distinct (map fst ps)"
    and "\<forall>p\<in>set ps. map_of (entries b) (fst p) = None"
    and "0 < maxClients (limits b) \<longrightarrow> present b + int (length ps) \<le> maxClients (limits b)"
  shows "\<exists>b'. apply_list now ps b changed = (b', changed @ map fst ps, None)
     \<and> (\<forall>i. aw_State b' i = (case map_of ps i of Some (k, st) \<Rightarrow> Some st | None \<Rightarrow> aw_State b i))"
  using assms
proof (induction ps arbitrary: b changed)
  case (Cons p ps)
  have "0 < maxClients (limits b) \<longrightarrow> present b < maxClients (limits b)" using Cons.prems(5) by auto
  then obtain b1 where b1: "apply_entry now (fst p) (fst (snd p)) (snd (snd p)) b = Inr (True, b1)"
    "limits b1 = limits b" "present b1 = present b + 1"
    "set (map fst (entries b1)) \<subseteq> insert (fst p) (set (map fst (entries b)))"
    using apply_entry_acceptable [OF Cons.prems(1), of p now] Cons.prems(2,4) by auto
  have fresh: "\<forall>q\<in>set ps. map_of (entries b1) (fst q) = None"
  proof
    fix q assume q: "q \<in> set ps"
    have "fst p \<notin> fst ` set ps" using Cons.prems(3) by simp
    with q have "fst q \<noteq> fst p" by (metis imageI)
    moreover have "fst q \<notin> set (map fst (entries b))" using Cons.prems(4) q by (simp add: map_of_eq_None_iff)
    ultimately have "fst q \<notin> set (map fst (entries b1))" using b1(4) by blast
    then show "map_of (entries b1) (fst q) = None" by (simp add: map_of_eq_None_iff)
  qed
  have wel: "list_all (acceptable (limits b1)) ps" "distinct (map fst ps)"
    "0 < maxClients (limits b1) \<longrightarrow> present b1 + int (length ps) \<le> maxClients (limits b1)"
    using Cons.prems(2,3,5) b1(2,3) by auto
  have ok: "aware_ok b1" by (rule apply_entry_ok [OF Cons.prems(1) b1(1)])
  obtain b' where b': "apply_list now ps b1 (changed @ [fst p]) = (b', (changed @ [fst p]) @ map fst ps, None)"
    "\<And>i. aw_State b' i = (case map_of ps i of Some (k, st) \<Rightarrow> Some st | None \<Rightarrow> aw_State b1 i)"
    using Cons.IH [OF ok wel(1,2) fresh wel(3)] by blast
  have np: "snd (snd p) \<noteq> NullState" using Cons.prems(2) by (simp add: acceptable_def)
  have "map_of ps (fst p) = None" using Cons.prems(3) by (simp add: map_of_eq_None_iff)
  then have "aw_State b' i = (case map_of (p # ps) i of Some (k, st) \<Rightarrow> Some st | None \<Rightarrow> aw_State b i)" for i
    using b'(2) [of i] apply_entry_State [OF Cons.prems(1) b1(1)] np by (cases p) (auto split: option.splits)
  with b1(1) b'(1) show ?case by simp
qed simp

lemma aw_Clients_props:
  assumes "aware_ok a"
  shows "distinct (aw_Clients a)" and "length (aw_Clients a) = aw_Len a"
    and "i \<in> set (aw_Clients a) \<longleftrightarrow> a_present (aw_entry a i)" and "sorted (aw_Clients a)"
proof -
  have d: "distinct (map fst (entries a))" using assms by (simp add: aware_ok_def)
  show "distinct (aw_Clients a)" "length (aw_Clients a) = aw_Len a" "sorted (aw_Clients a)"
    using d by (simp_all add: aw_Clients_def aw_Len_def distinct_map_filter)
  have "i \<in> set (aw_Clients a) \<longleftrightarrow> (\<exists>e. (i, e) \<in> set (entries a) \<and> a_present e)" by (force simp: aw_Clients_def)
  also have "\<dots> \<longleftrightarrow> a_present (aw_entry a i)"
    by (cases "map_of (entries a) i") (auto simp: map_of_eq_Some_iff [OF d, symmetric] aw_entry_def no_entry_def)
  finally show "i \<in> set (aw_Clients a) \<longleftrightarrow> a_present (aw_entry a i)" .
qed

lemma present_entry:
  assumes "aware_ok a" and "a_present (aw_entry a i)"
  shows "map_of (entries a) i = Some (aw_entry a i)" and "entry_ok (limits a) (i, aw_entry a i)"
proof -
  show "map_of (entries a) i = Some (aw_entry a i)"
    using assms(2) by (simp add: aw_entry_def no_entry_def split: option.splits)
  then have "(i, aw_entry a i) \<in> set (entries a)" by (rule map_of_SomeD)
  with assms(1) show "entry_ok (limits a) (i, aw_entry a i)" by (auto simp: aware_ok_def list_all_iff)
qed

lemma greeting:
  assumes ok: "aware_ok a" and "aw_Len a \<le> MaxSafeInteger" and "\<And>i e. (i, e) \<in> set (entries a) \<Longrightarrow> length (a_state e) \<le> MaxSafeInteger"
  shows "\<exists>payload b. EncodeAll a = Inr payload
     \<and> aw_ApplyUpdate payload now (NewAwarenessWithLimits (limits a)) = (b, aw_Clients a, None)
     \<and> (\<forall>i. aw_State b i = aw_State a i)"
proof -
  let ?cs = "aw_Clients a" and ?b = "NewAwarenessWithLimits (limits a)"
  note c = aw_Clients_props [OF ok]
  have wel: "acceptable (limits a) (published a i)" if "i \<in> set ?cs" for i
  proof -
    have p: "a_present (aw_entry a i)" using that c(3) by simp
    note e = present_entry [OF ok p]
    from assms(3) [OF map_of_SomeD [OF e(1)]] e(2) p show ?thesis
      by (simp add: acceptable_def published_ok_def published_def Let_def)
  qed
  let ?ps = "map (published a) ?cs"
  have len: "length ?cs \<le> MaxSafeInteger" using assms(2) c(2) by simp
  have "list_all (\<lambda>i. published_ok (published a i)) ?cs" using wel by (simp add: list_all_iff acceptable_def)
  from aw_Encode_published [OF this len]
  have enc: "EncodeAll a = Inr (writeVarUint_loop (length ?ps) [] @ concat (map published_bytes ?ps))"
    by (simp add: EncodeAll_def comp_def)
  have pok: "list_all published_ok ?ps" using wel by (auto simp: list_all_iff acceptable_def)
  have fst: "map fst ?ps = ?cs" by (simp add: comp_def published_def Let_def)
  have "0 < maxClients (limits a) \<longrightarrow> present ?b + int (length ?ps) \<le> maxClients (limits ?b)"
    using ok c(2) by (simp add: NewAwarenessWithLimits_def aware_ok_def)
  then obtain b where b: "apply_list now ?ps ?b [] = (b, [] @ map fst ?ps, None)"
    "\<And>i. aw_State b i = (case map_of ?ps i of Some (k, st) \<Rightarrow> Some st | None \<Rightarrow> aw_State ?b i)"
    using apply_list_acceptable [OF aware_new, of "limits a" ?ps now "[]"] wel c(1) fst
    by (auto simp: NewAwarenessWithLimits_def list_all_iff)
  have "aw_State b i = aw_State a i" for i
  proof (cases "i \<in> set ?cs")
    case True
    then have "published a i \<in> set ?ps" by simp
    then have "map_of ?ps i = Some (snd (published a i))"
      using fst c(1) by (intro map_of_is_SomeI) (auto simp: published_def Let_def)
    with b(2) [of i] True c(3) [of i] present_entry(1) [OF ok, of i] show ?thesis
      by (simp add: published_def Let_def aw_State_def)
  next
    case False
    then have "map_of ?ps i = None" using fst by (metis list.set_map map_of_eq_None_iff)
    with b(2) [of i] False c(3) [of i] show ?thesis
      by (auto simp: aw_State_def NewAwarenessWithLimits_def aw_entry_def split: option.splits)
  qed
  with b(1) enc ApplyUpdate_published [OF pok, of now ?b] len fst show ?thesis by simp
qed

end
