(* ===== verification/Cluster.thy ===== *)
theory Cluster
  imports Messages
begin

text \<open>
  Traffic between the replicas that hold the same document, \<open>cluster/envelope.go\<close>,
  \<open>cluster/bus.go\<close> and \<open>cluster/memory.go\<close>.

  \<open>Kind\<close> is a named \<open>uint64\<close> in the code, so a value outside the three constants can be built but
  not decoded. The in-process bus keeps, per room, the list of its subscriptions; a subscription is
  known by a number, the identity of the object in the code, and publishing returns the deliveries
  that it makes, in their order.
\<close>

subsection \<open>Envelopes\<close>

abbreviation (input) KindUpdate :: nat where "KindUpdate \<equiv> 0"
abbreviation (input) KindAwareness :: nat where "KindAwareness \<equiv> 1"
abbreviation (input) KindStateVector :: nat where "KindStateVector \<equiv> 2"
abbreviation (input) envelopeVersion :: nat where "envelopeVersion \<equiv> 0"

record Envelope =
  env_Origin :: nat
  env_Kind :: nat
  Payload :: bytes

definition env_write :: "Envelope \<Rightarrow> encoder \<Rightarrow> encoder" where
  "env_write env e =
     WriteVarUint8Array (Payload env) (WriteVarUint (env_Kind env) (WriteVarUint (env_Origin env)
       (WriteVarUint envelopeVersion e)))"

definition env_Encode :: "Envelope \<Rightarrow> bytes res" where
  "env_Encode env = finish (env_write env NewEncoder)"

definition readEnvelope :: "Envelope reader" where
  "readEnvelope = rbind ReadVarUint (\<lambda>version.
     if version \<noteq> envelopeVersion then rfail (ErrVersion version)
     else rbind ReadVarUint (\<lambda>origin.
       if MaxSafeInteger < origin then rfail (ErrOriginOutOfRange origin)
       else rbind ReadVarUint (\<lambda>kind.
         if kind \<noteq> KindUpdate \<and> kind \<noteq> KindAwareness \<and> kind \<noteq> KindStateVector then rfail (ErrKind kind)
         else rbind ReadVarUint8Array (\<lambda>payload.
           rreturn \<lparr>env_Origin = origin, env_Kind = kind, Payload = payload\<rparr>))))"

definition env_Decode :: "bytes \<Rightarrow> Envelope res" where
  "env_Decode b =
     (case readEnvelope (NewDecoder b) of
        Inl er \<Rightarrow> Inl er
      | Inr (env, d) \<Rightarrow> if \<not> Done d then Inl ErrTrailingBytes else Inr env)"

subsection \<open>Node ids\<close>

text \<open>The eight random bytes are the argument.\<close>

definition NewNodeID :: "64 word \<Rightarrow> nat" where
  "NewNodeID random = (let i = unat (random AND word_of_nat MaxSafeInteger) in if i = 0 then 1 else i)"

subsection \<open>The in-process bus\<close>

record Memory =
  mem_subs :: "(bytes \<times> nat list) list"
  mem_closed :: bool
  mem_next :: nat

datatype bus_error = BusClosed | BusErr err

definition NewMemory :: Memory where
  "NewMemory = \<lparr>mem_subs = [], mem_closed = False, mem_next = 0\<rparr>"

definition subs_of :: "Memory \<Rightarrow> bytes \<Rightarrow> nat list" where
  "subs_of m room = (case map_of (mem_subs m) room of None \<Rightarrow> [] | Some ss \<Rightarrow> ss)"

definition mem_Publish :: "Memory \<Rightarrow> bytes \<Rightarrow> Envelope \<Rightarrow> bus_error + (nat \<times> Envelope) list" where
  "mem_Publish m room env =
     (if mem_closed m then Inl BusClosed
      else (let subs = subs_of m room
            in case env_Encode env of
                 Inl er \<Rightarrow> Inl (BusErr er)
               | Inr raw \<Rightarrow>
                   (case env_Decode raw of
                      Inl er \<Rightarrow> Inl (BusErr er)
                    | Inr decoded \<Rightarrow> Inr (map (\<lambda>sub. (sub, decoded)) subs))))"

definition mem_Subscribe :: "bytes \<Rightarrow> Memory \<Rightarrow> bus_error + nat \<times> Memory" where
  "mem_Subscribe room m =
     (if mem_closed m then Inl BusClosed
      else (let sub = mem_next m
            in Inr (sub, m\<lparr>mem_subs := AList.update room (subs_of m room @ [sub]) (mem_subs m), mem_next := sub + 1\<rparr>)))"

definition sub_Close :: "bytes \<Rightarrow> nat \<Rightarrow> Memory \<Rightarrow> Memory" where
  "sub_Close room sub m =
     (let subs = subs_of m room;
          m = (if sub \<in> set subs then m\<lparr>mem_subs := AList.update room (remove1 sub subs) (mem_subs m)\<rparr> else m)
      in if length (subs_of m room) = 0 then m\<lparr>mem_subs := AList.delete room (mem_subs m)\<rparr> else m)"

definition mem_Close :: "Memory \<Rightarrow> Memory" where
  "mem_Close m = m\<lparr>mem_closed := True\<rparr>"

subsection \<open>Lemmas: envelopes\<close>

definition env_ok :: "Envelope \<Rightarrow> bool" where
  "env_ok env \<longleftrightarrow> env_Origin env \<le> MaxSafeInteger \<and> env_Kind env \<le> KindStateVector
     \<and> length (Payload env) \<le> MaxSafeInteger"

interpretation wire_envelope: codec env_write readEnvelope env_ok
proof (rule codecI [where b = "\<lambda>env. writeVarUint_loop 0 [] @ (writeVarUint_loop (env_Origin env) []
    @ (writeVarUint_loop (env_Kind env) [] @ (writeVarUint_loop (length (Payload env)) [] @ Payload env)))"])
  fix env assume "env_ok env"
  then have ok: "env_Origin env \<le> MaxSafeInteger" "env_Kind env \<le> 2" "length (Payload env) \<le> MaxSafeInteger"
    by (simp_all add: env_ok_def)
  have kind: "env_Kind env \<le> MaxSafeInteger" using ok(2) by (simp add: MaxSafeInteger_def)
  let ?bs = "writeVarUint_loop 0 [] @ (writeVarUint_loop (env_Origin env) []
    @ (writeVarUint_loop (env_Kind env) [] @ (writeVarUint_loop (length (Payload env)) [] @ Payload env)))"
  show "emits (env_write env) ?bs"
    unfolding env_write_def
    using emits_seq [OF emits_small [of 0] emits_seq [OF emits_WriteVarUint [OF ok(1)]
          emits_seq [OF emits_WriteVarUint [OF kind] emits_WriteVarUint8Array [OF ok(3)]]]] by simp
  have p: "parses (rbind ReadVarUint8Array (\<lambda>payload.
      rreturn \<lparr>env_Origin = env_Origin env, env_Kind = env_Kind env, Payload = payload\<rparr>))
      (writeVarUint_loop (length (Payload env)) [] @ Payload env) env"
    by (rule parses_bind_return [OF parses_ReadVarUint8Array [OF ok(3)]]) simp
  have kinds: "\<not> (env_Kind env \<noteq> KindUpdate \<and> env_Kind env \<noteq> KindAwareness \<and> env_Kind env \<noteq> KindStateVector)"
    using ok(2) by linarith
  show "parses readEnvelope ?bs env"
    unfolding readEnvelope_def
    apply (rule parses_tag, simp)
    apply (simp only: simp_thms if_False)
    apply (rule parses_bind [OF parses_ReadVarUint [OF ok(1)]])
    apply (simp only: not_less [THEN iffD2, OF ok(1)] if_False)
    apply (rule parses_bind [OF parses_ReadVarUint [OF kind]])
    apply (simp only: kinds if_False)
    apply (rule p)
    done
qed simp

lemma env_roundtrip:
  assumes "env_ok env"
  shows "\<exists>raw. env_Encode env = Inr raw \<and> env_Decode raw = Inr env"
proof -
  let ?raw = "out (env_write env)"
  have "env_Encode env = Inr ?raw"
    unfolding env_Encode_def by (rule finish_emits [OF wire_envelope.emits_out [OF assms]])
  moreover from wire_envelope.parses_out [OF assms] obtain d where
    "readEnvelope (NewDecoder ?raw) = Inr (env, d)" "unread d = []"
    by (rule parsesE [where d = "NewDecoder ?raw" and rest = "[]"]) simp
  ultimately show ?thesis by (simp add: env_Decode_def Done_unread)
qed

lemma sound_cond: "(c \<Longrightarrow> sound r P) \<Longrightarrow> (\<not> c \<Longrightarrow> sound q P) \<Longrightarrow> sound (if c then r else q) P"
  by simp

lemma sound_readEnvelope:
  "sound readEnvelope (\<lambda>env k. env_Origin env \<le> MaxSafeInteger \<and> env_Kind env \<le> KindStateVector \<and> length (Payload env) < k)"
  unfolding readEnvelope_def
  by (rule sound_bind [OF sound_ReadVarUint], rule sound_cond, rule sound_fail,
      rule sound_bind [OF sound_ReadVarUint], rule sound_cond, rule sound_fail,
      rule sound_bind [OF sound_ReadVarUint], rule sound_cond, rule sound_fail,
      rule sound_bind [OF sound_ReadVarUint8Array], rule sound_return) auto

text \<open>Whatever a peer sends, an envelope that was accepted can be written out again.\<close>

lemma env_Decode_ok:
  assumes "env_Decode b = Inr env" and "length b \<le> MaxSafeInteger"
  shows "env_ok env"
proof -
  obtain d where r: "readEnvelope (NewDecoder b) = Inr (env, d)"
    using assms(1) by (auto simp: env_Decode_def split: sum.splits prod.splits if_splits)
  have "within (NewDecoder b)" by (simp add: within_def NewDecoder_def)
  note s = soundD [OF sound_readEnvelope this r]
  then have "pos d \<le> length b" by (simp add: within_def NewDecoder_def)
  with s(4) assms(2) show ?thesis by (simp add: env_ok_def NewDecoder_def)
qed

lemma NewNodeID_range: "0 < NewNodeID r \<and> NewNodeID r \<le> MaxSafeInteger"
proof -
  have "r AND word_of_nat MaxSafeInteger \<le> word_of_nat MaxSafeInteger" by (simp add: word_and_le1)
  then have "unat (r AND word_of_nat MaxSafeInteger) \<le> unat (word_of_nat MaxSafeInteger :: 64 word)"
    by (simp add: word_le_nat_alt)
  then show ?thesis by (simp add: NewNodeID_def Let_def MaxSafeInteger_def unat_of_nat)
qed

subsection \<open>Lemmas: the bus\<close>

definition bus_ok :: "Memory \<Rightarrow> bool" where
  "bus_ok m \<longleftrightarrow> distinct (map fst (mem_subs m))
     \<and> list_all (\<lambda>(room, ss). ss \<noteq> [] \<and> distinct ss \<and> list_all (\<lambda>s. s < mem_next m) ss) (mem_subs m)"

lemma subs_of_ok: "bus_ok m \<Longrightarrow> distinct (subs_of m room) \<and> list_all (\<lambda>s. s < mem_next m) (subs_of m room)"
  by (auto simp: bus_ok_def subs_of_def list_all_iff dest: map_of_SomeD split: option.splits)

lemma subs_of_update [simp]: "subs_of (m\<lparr>mem_subs := AList.update room ss (mem_subs m)\<rparr>) r = (if r = room then ss else subs_of m r)"
  by (simp add: subs_of_def AList.update_conv')

lemma Subscribe_bus_ok:
  assumes "bus_ok m" and "mem_Subscribe room m = Inr (sub, m')"
  shows "bus_ok m'" and "subs_of m' r = (if r = room then subs_of m room @ [sub] else subs_of m r)"
    and "sub \<notin> set (subs_of m room)"
proof -
  have m': "sub = mem_next m" "m' = m\<lparr>mem_subs := AList.update room (subs_of m room @ [sub]) (mem_subs m), mem_next := sub + 1\<rparr>"
    using assms(2) by (auto simp: mem_Subscribe_def Let_def split: if_splits)
  note s = subs_of_ok [OF assms(1), of room]
  then show "sub \<notin> set (subs_of m room)" using m'(1) by (auto simp: list_all_iff)
  show "subs_of m' r = (if r = room then subs_of m room @ [sub] else subs_of m r)"
    unfolding m'(2) by (simp add: subs_of_def AList.update_conv')
  have "list_all (\<lambda>(room, ss). ss \<noteq> [] \<and> distinct ss \<and> list_all (\<lambda>s. s < Suc (mem_next m)) ss) (mem_subs m)"
    using assms(1) by (fastforce simp: bus_ok_def list_all_iff)
  then show "bus_ok m'" using assms(1) s unfolding m'
    by (fastforce simp: bus_ok_def AList.distinct_update list_all_iff [of _ "_ @ _"] list_all_iff [of _ "subs_of m room"] intro!: list_all_update)
qed

lemma sub_Close_bus_ok:
  assumes "bus_ok m"
  shows "bus_ok (sub_Close room sub m)" and "subs_of (sub_Close room sub m) r = (if r = room then remove1 sub (subs_of m room) else subs_of m r)"
proof -
  let ?ss = "remove1 sub (subs_of m room)"
  let ?m = "if sub \<in> set (subs_of m room) then m\<lparr>mem_subs := AList.update room ?ss (mem_subs m)\<rparr> else m"
  have dist: "distinct (map fst (mem_subs m))" using assms by (simp add: bus_ok_def)
  have m: "subs_of ?m r = (if r = room then ?ss else subs_of m r)" for r by (simp add: remove1_idem)
  have c: "sub_Close room sub m = (if length ?ss = 0 then ?m\<lparr>mem_subs := AList.delete room (mem_subs ?m)\<rparr> else ?m)"
    using m [of room] by (simp add: sub_Close_def Let_def)
  have "subs_of (?m\<lparr>mem_subs := AList.delete room (mem_subs ?m)\<rparr>) r = (if r = room then [] else subs_of ?m r)"
    by (simp add: subs_of_def AList.delete_conv')
  with c m show "subs_of (sub_Close room sub m) r = (if r = room then remove1 sub (subs_of m room) else subs_of m r)"
    by (cases "length ?ss = 0") (simp_all only: if_True if_False refl, auto)
  show "bus_ok (sub_Close room sub m)"
  proof (cases "?ss = []")
    case True
    have "list_all P (AList.delete room (AList.update room v xs))" if "list_all P xs" for P :: "bytes \<times> nat list \<Rightarrow> bool" and v xs
      using that by (induction xs) (auto simp: AList.delete_eq list_all_iff)
    moreover have "list_all P (AList.delete room xs)" if "list_all P xs" for P :: "bytes \<times> nat list \<Rightarrow> bool" and xs
      using that by (auto simp: AList.delete_eq list_all_iff)
    ultimately show ?thesis
      unfolding c using assms True by (auto simp: bus_ok_def AList.distinct_delete AList.distinct_update)
  next
    case False
    have "distinct ?ss \<and> list_all (\<lambda>s. s < mem_next m) ?ss"
      using subs_of_ok [OF assms, of room] by (auto simp: list_all_iff dest: subsetD [OF set_remove1_subset])
    with assms False show ?thesis unfolding c
      by (auto simp: bus_ok_def AList.distinct_update intro!: list_all_update)
  qed
qed

text \<open>
  A closed subscription gets nothing, every open one gets each envelope once, in the order in which
  they subscribed, and what arrives is what was sent.
\<close>

lemma Publish_delivers:
  assumes "bus_ok m" and "\<not> mem_closed m" and "env_ok env"
  shows "mem_Publish m room env = Inr (map (\<lambda>sub. (sub, env)) (subs_of m room))"
  using env_roundtrip [OF assms(3)] assms(2) by (auto simp: mem_Publish_def Let_def)

end
