(* ===== verification/Limiter.thy ===== *)
theory Limiter
  imports Prelude Complex_Main
begin

text \<open>
  The rate limit of a connection, \<open>gateway/limit.go\<close>: two token buckets, one that counts messages
  and one that counts bytes.

  Tokens are rational numbers here and \<open>float64\<close> in the code, so the rounding of floating point
  arithmetic is not modelled. Times and durations are whole nanoseconds; the conversion to
  \<open>time.Duration\<close> truncates, which the model keeps. \<open>now\<close> is read from the clock by the code and an
  argument here; \<open>limiter_wait\<close> returns the time for which the caller sleeps.
\<close>

subsection \<open>Rates\<close>

record Rate =
  Messages :: rat
  MessageBurst :: int
  Bytes :: rat
  ByteBurst :: int

definition DefaultRateMessages :: rat where "DefaultRateMessages = 200"
definition DefaultRateMessageBurst :: int where "DefaultRateMessageBurst = 400"
definition DefaultRateBytes :: rat where "DefaultRateBytes = 8388608"
definition DefaultRateByteBurst :: int where "DefaultRateByteBurst = 16777216"

definition withDefaults :: "Rate \<Rightarrow> Rate" where
  "withDefaults r =
     r\<lparr>Messages := (if Messages r = 0 then DefaultRateMessages else Messages r),
       MessageBurst := (if MessageBurst r \<le> 0 then DefaultRateMessageBurst else MessageBurst r),
       Bytes := (if Bytes r = 0 then DefaultRateBytes else Bytes r),
       ByteBurst := (if ByteBurst r \<le> 0 then DefaultRateByteBurst else ByteBurst r)\<rparr>"

definition disabled :: "rat \<Rightarrow> bool" where
  "disabled rate \<longleftrightarrow> rate < 0"

subsection \<open>Buckets\<close>

definition Second :: int where
  "Second = 1000000000"

record bucket =
  b_rate :: rat
  b_capacity :: rat
  b_tokens :: rat
  b_last :: int

definition newBucket :: "rat \<Rightarrow> int \<Rightarrow> int \<Rightarrow> bucket" where
  "newBucket rate burst now =
     \<lparr>b_rate = rate, b_capacity = of_int burst, b_tokens = of_int burst, b_last = now\<rparr>"

definition refill :: "int \<Rightarrow> bucket \<Rightarrow> bucket" where
  "refill now b =
     (let elapsed = now - b_last b
      in if 0 < elapsed
         then (let tokens = b_tokens b + of_int elapsed / of_int Second * b_rate b
               in b\<lparr>b_tokens := (if b_capacity b < tokens then b_capacity b else tokens), b_last := now\<rparr>)
         else b)"

definition maxWait :: "bucket \<Rightarrow> int" where
  "maxWait b = \<lfloor>b_capacity b / b_rate b * of_int Second\<rfloor>"

definition take_tokens :: "rat \<Rightarrow> int \<Rightarrow> bucket \<Rightarrow> int \<times> bucket" where
  "take_tokens n now b =
     (let b = refill now b;
          b = b\<lparr>b_tokens := b_tokens b - n\<rparr>
      in if 0 \<le> b_tokens b then (0, b)
         else (let wait = \<lfloor>- b_tokens b / b_rate b * of_int Second\<rfloor>
               in if maxWait b < wait then (maxWait b, b\<lparr>b_tokens := - b_capacity b\<rparr>) else (wait, b)))"

subsection \<open>The limiter\<close>

record limiter =
  l_messages :: "bucket option"
  l_bytes :: "bucket option"

definition newLimiter :: "Rate \<Rightarrow> int \<Rightarrow> limiter" where
  "newLimiter rate now =
     (let rate = withDefaults rate
      in \<lparr>l_messages = (if \<not> disabled (Messages rate) then Some (newBucket (Messages rate) (MessageBurst rate) now) else None),
          l_bytes = (if \<not> disabled (Bytes rate) then Some (newBucket (Bytes rate) (ByteBurst rate) now) else None)\<rparr>)"

definition limiter_enabled :: "limiter \<Rightarrow> bool" where
  "limiter_enabled l \<longleftrightarrow> l_messages l \<noteq> None \<or> l_bytes l \<noteq> None"

definition take_opt :: "rat \<Rightarrow> int \<Rightarrow> bucket option \<Rightarrow> int \<times> bucket option" where
  "take_opt n now b = (case b of None \<Rightarrow> (0, None) | Some b \<Rightarrow> map_prod id Some (take_tokens n now b))"

definition limiter_wait :: "nat \<Rightarrow> int \<Rightarrow> limiter \<Rightarrow> int \<times> limiter" where
  "limiter_wait bytes now l =
     (if \<not> limiter_enabled l then (0, l)
      else (let (longest, ms) = take_opt 1 now (l_messages l);
                (d, bs) = take_opt (of_nat bytes) now (l_bytes l);
                longest = (if longest < d then d else longest)
            in (if longest \<le> 0 then 0 else longest, \<lparr>l_messages = ms, l_bytes = bs\<rparr>)))"

subsection \<open>Lemmas\<close>

definition bucket_ok :: "bucket \<Rightarrow> bool" where
  "bucket_ok b \<longleftrightarrow> 0 < b_rate b \<and> 0 < b_capacity b
     \<and> - b_capacity b - b_rate b / of_int Second < b_tokens b \<and> b_tokens b \<le> b_capacity b"

lemma newBucket_ok: "0 < rate \<Longrightarrow> 0 < burst \<Longrightarrow> bucket_ok (newBucket rate burst now)"
  by (simp add: bucket_ok_def newBucket_def Second_def add_pos_pos)

lemma refill_bounds:
  assumes "bucket_ok b"
  shows "b_tokens b \<le> b_tokens (refill now b)" and "b_tokens (refill now b) \<le> b_capacity b"
    and "b_rate (refill now b) = b_rate b" and "b_capacity (refill now b) = b_capacity b"
    and "b_tokens (refill now b) \<le> b_tokens b + of_int (max 0 (now - b_last b)) / of_int Second * b_rate b"
    and "b_last (refill now b) = max now (b_last b)"
  using assms by (auto simp: refill_def Let_def bucket_ok_def Second_def)

lemma floor_div_le:
  fixes x y :: rat
  assumes "\<lfloor>x\<rfloor> \<le> \<lfloor>y\<rfloor>"
  shows "x < y + 1"
  using assms by linarith

lemma scaled_less:
  fixes x y r k :: rat
  assumes "0 < r" and "0 < k" and "x / r * k < y / r * k + 1"
  shows "x < y + r / k"
proof -
  have "x / r * k * (r / k) < (y / r * k + 1) * (r / k)" using assms by (intro mult_strict_right_mono) simp_all
  with assms(1,2) show ?thesis by (simp add: distrib_right add_divide_distrib)
qed

lemma take_ok:
  assumes "bucket_ok b" and "0 \<le> n" and "take_tokens n now b = (w, b')"
  shows "bucket_ok b'" and "0 \<le> w" and "w \<le> maxWait b" and "b_rate b' = b_rate b" and "b_capacity b' = b_capacity b"
    and "b_last b' = max now (b_last b)"
proof -
  let ?b = "refill now b"
  let ?t = "b_tokens ?b - n"
  note r = refill_bounds [OF assms(1), of now]
  have pos: "0 < b_rate b" "0 < b_capacity b" using assms(1) by (simp_all add: bucket_ok_def)
  have S: "(0::rat) < of_int Second" by (simp add: Second_def)
  have m: "maxWait (?b\<lparr>b_tokens := ?t\<rparr>) = maxWait b" by (simp add: maxWait_def r)
  have mp: "0 \<le> maxWait b" using pos S by (simp add: maxWait_def)
  consider (free) "0 \<le> ?t" | (part) "?t < 0" "\<lfloor>- ?t / b_rate b * of_int Second\<rfloor> \<le> maxWait b"
    | (capped) "?t < 0" "maxWait b < \<lfloor>- ?t / b_rate b * of_int Second\<rfloor>" by linarith
  then have "bucket_ok b' \<and> 0 \<le> w \<and> w \<le> maxWait b \<and> b_rate b' = b_rate b \<and> b_capacity b' = b_capacity b
      \<and> b_last b' = max now (b_last b)"
  proof cases
    case free
    then have "w = 0" "b' = ?b\<lparr>b_tokens := ?t\<rparr>" using assms(3) by (simp_all add: take_tokens_def Let_def)
    moreover have "- b_capacity b - b_rate b / of_int Second < ?t"
      using free pos(2) divide_pos_pos [OF pos(1) S] by linarith
    moreover have "?t \<le> b_capacity b" using r(2) assms(2) by linarith
    ultimately show ?thesis using r(3,4,6) pos mp by (simp add: bucket_ok_def)
  next
    case part
    then have e: "w = \<lfloor>- ?t / b_rate b * of_int Second\<rfloor>" "b' = ?b\<lparr>b_tokens := ?t\<rparr>"
      using assms(3) m r(3) by (simp_all add: take_tokens_def Let_def)
    have "0 \<le> - ?t / b_rate b * of_int Second" using part(1) pos(1) S by (simp add: divide_nonneg_pos mult_nonneg_nonneg)
    then have w: "0 \<le> w" unfolding e(1) by simp
    have "- ?t / b_rate b * of_int Second < b_capacity b / b_rate b * of_int Second + 1"
      using part(2) unfolding maxWait_def by (rule floor_div_le)
    then have "- ?t < b_capacity b + b_rate b / of_int Second" by (rule scaled_less [OF pos(1) S])
    then have "- b_capacity b - b_rate b / of_int Second < ?t" by linarith
    moreover have "?t \<le> b_capacity b" using r(2) assms(2) by linarith
    ultimately show ?thesis using r(3,4,6) pos w part(2) unfolding e by (simp add: bucket_ok_def)
  next
    case capped
    then have "w = maxWait b" "b' = ?b\<lparr>b_tokens := - b_capacity b\<rparr>"
      using assms(3) m r(3,4) by (simp_all add: take_tokens_def Let_def)
    with r(3,4,6) pos divide_pos_pos [OF pos(1) S] mp show ?thesis by (simp add: bucket_ok_def)
  qed
  then show "bucket_ok b'" "0 \<le> w" "w \<le> maxWait b" "b_rate b' = b_rate b" "b_capacity b' = b_capacity b"
    "b_last b' = max now (b_last b)" by blast+
qed

text \<open>
  What a connection can get through: if it waits as it is told and no item is bigger than the
  bucket, the debt is paid before the next item, up to what one nanosecond refills.
\<close>

lemma debt_paid:
  assumes "bucket_ok b" and "0 \<le> n" and "take_tokens n now b = (w, b')" and "b_last b \<le> now"
    and "n \<le> b_tokens (refill now b) + b_capacity b" and "now + w \<le> later"
  shows "- (b_rate b / of_int Second) < b_tokens (refill later b')"
proof -
  let ?t = "b_tokens (refill now b) - n" and ?k = "b_rate b / of_int Second"
  note t = take_ok [OF assms(1-3)]
  note r = refill_bounds [OF assms(1), of now]
  note r' = refill_bounds [OF t(1), of later]
  have pos: "0 < b_rate b" "0 < b_capacity b" using assms(1) by (simp_all add: bucket_ok_def)
  have S: "(0::rat) < of_int Second" by (simp add: Second_def)
  have k: "0 < ?k" by (rule divide_pos_pos [OF pos(1) S])
  have le: "\<lfloor>- ?t / b_rate b * of_int Second\<rfloor> \<le> maxWait b"
    unfolding maxWait_def using assms(5) pos(1) S
    by (intro floor_mono mult_right_mono divide_right_mono) auto
  show ?thesis
  proof (cases "0 \<le> b_tokens b'")
    case True
    with r'(1) k show ?thesis by linarith
  next
    case False
    have "?t < 0"
    proof (rule ccontr)
      assume "\<not> ?t < 0"
      then have "b' = (refill now b)\<lparr>b_tokens := ?t\<rparr>" using assms(3) by (simp add: take_tokens_def Let_def)
      with False \<open>\<not> ?t < 0\<close> show False by simp
    qed
    with le assms(3) r(3,4) have b': "b' = (refill now b)\<lparr>b_tokens := ?t\<rparr>" "w = \<lfloor>- ?t / b_rate b * of_int Second\<rfloor>"
      by (auto simp: take_tokens_def Let_def maxWait_def split: if_splits)
    have last: "b_last b' = now" using t(6) assms(4) by simp
    have "- ?t / b_rate b * of_int Second < of_int w + 1" unfolding b'(2) by linarith
    then have "- ?t / b_rate b * of_int Second * ?k < (of_int w + 1) * ?k"
      using k by (intro mult_strict_right_mono) simp_all
    then have paid: "- ?t < of_int w * ?k + ?k" using pos S by (simp add: distrib_right add_divide_distrib)
    have w: "of_int w * ?k \<le> of_int (later - b_last b') / of_int Second * b_rate b"
    proof -
      have "(of_int w :: rat) \<le> of_int (later - b_last b')" using assms(6) last by simp
      then have "of_int w * ?k \<le> of_int (later - b_last b') * ?k" using k by (intro mult_right_mono) auto
      then show ?thesis by simp
    qed
    have "- ?k < ?t + of_int (later - b_last b') / of_int Second * b_rate b" using paid w by linarith
    moreover have "- ?k < b_capacity b" using pos k by linarith
    moreover have "- ?k < ?t" if "\<not> 0 < later - b_last b'"
    proof -
      have "w = 0" using that assms(6) last t(2) by linarith
      with paid show ?thesis by simp
    qed
    moreover have "b_tokens b' = ?t" "b_rate b' = b_rate b" "b_capacity b' = b_capacity b" using b'(1) t(4,5) by simp_all
    ultimately show ?thesis by (simp add: refill_def [of later b'] Let_def)
  qed
qed

definition limiter_ok :: "limiter \<Rightarrow> bool" where
  "limiter_ok l \<longleftrightarrow> pred_option bucket_ok (l_messages l) \<and> pred_option bucket_ok (l_bytes l)"

lemma newLimiter_ok: "limiter_ok (newLimiter rate now)"
  by (auto simp: limiter_ok_def newLimiter_def withDefaults_def disabled_def Let_def
      DefaultRateMessages_def DefaultRateMessageBurst_def DefaultRateBytes_def DefaultRateByteBurst_def
      intro!: newBucket_ok)

lemma take_opt_ok:
  assumes "pred_option bucket_ok b" and "0 \<le> n" and "take_opt n now b = (w, b')"
  shows "pred_option bucket_ok b'" and "0 \<le> w" and "b = Some x \<Longrightarrow> w \<le> maxWait x" and "b = None \<Longrightarrow> w = 0"
  using assms take_ok(1-3) [of "the b" n now w]
  by (cases "take_tokens n now (the b)"; auto simp: take_opt_def split: option.splits)+

lemma limiter_wait_ok:
  assumes "limiter_ok l" and "limiter_wait bytes now l = (w, l')"
  shows "limiter_ok l'" and "0 \<le> w"
    and "w \<le> max (case l_messages l of None \<Rightarrow> 0 | Some b \<Rightarrow> maxWait b) (case l_bytes l of None \<Rightarrow> 0 | Some b \<Rightarrow> maxWait b)"
proof -
  obtain lo ms where a: "take_opt 1 now (l_messages l) = (lo, ms)" by fastforce
  obtain d bs where b: "take_opt (of_nat bytes) now (l_bytes l) = (d, bs)" by fastforce
  have ok: "pred_option bucket_ok (l_messages l)" "pred_option bucket_ok (l_bytes l)" using assms(1) by (simp_all add: limiter_ok_def)
  note a' = take_opt_ok [OF ok(1) _ a] and b' = take_opt_ok [OF ok(2) _ b]
  have m0: "0 \<le> maxWait x" if "bucket_ok x" for x
    using that by (simp add: maxWait_def bucket_ok_def Second_def)
  show "limiter_ok l'" "0 \<le> w"
    using assms a' b' a b by (auto simp: limiter_wait_def Let_def limiter_ok_def split: if_splits)
  show "w \<le> max (case l_messages l of None \<Rightarrow> 0 | Some b \<Rightarrow> maxWait b) (case l_bytes l of None \<Rightarrow> 0 | Some b \<Rightarrow> maxWait b)"
    using assms(2) a' b' a b ok m0 by (cases "l_messages l"; cases "l_bytes l") (auto simp: limiter_wait_def Let_def split: if_splits)
qed

interpretation limit: keeps limiter_ok "\<lambda>_. True" "\<lambda>(bytes, now) l. snd (limiter_wait bytes now l)"
  by unfold_locales (auto dest: limiter_wait_ok(1) [OF _ surjective_pairing])

end
