(* ===== verification/Signature.thy ===== *)
theory Signature
  imports Client_IP
begin

text \<open>
  Two small services of the server: the signature on the requests it sends,
  \<open>signature/signature.go\<close>, and the compression of what it stores, \<open>pack/pack.go\<close>.

  HMAC-SHA256 and DEFLATE are parameters: \<open>mac\<close> maps a secret and a text to a tag, \<open>deflate\<close> may
  fail, and \<open>inflate\<close> is its inverse where a statement needs that. The decimal and hexadecimal
  notations, and the splitting of the header, are spelled out.
\<close>

subsection \<open>Numbers as text\<close>

definition digit :: "nat \<Rightarrow> byte" where
  "digit n = word_of_nat (48 + n)"

fun decimal :: "nat \<Rightarrow> bytes" where
  "decimal n = (if n < 10 then [digit n] else decimal (n div 10) @ [digit (n mod 10)])"

declare decimal.simps [simp del]

definition FormatInt :: "int \<Rightarrow> bytes" where
  "FormatInt n = (if n < 0 then 45 # decimal (nat (- n)) else decimal (nat n))"

definition is_digit :: "byte \<Rightarrow> bool" where
  "is_digit b \<longleftrightarrow> 48 \<le> unat b \<and> unat b \<le> 57"

definition parse_digits :: "bytes \<Rightarrow> nat option" where
  "parse_digits s =
     (if s = [] \<or> \<not> list_all is_digit s then None
      else Some (foldl (\<lambda>a b. a * 10 + (unat b - 48)) 0 s))"

definition ParseInt :: "bytes \<Rightarrow> int option" where
  "ParseInt s =
     (let neg = (case s of b # r \<Rightarrow> b = 45 | [] \<Rightarrow> False);
          r = (case s of b # r \<Rightarrow> if b = 43 \<or> b = 45 then r else s | [] \<Rightarrow> s)
      in case parse_digits r of
           None \<Rightarrow> None
         | Some n \<Rightarrow>
             if \<not> neg \<and> 2 ^ 63 \<le> n then None
             else if neg \<and> 2 ^ 63 < n then None
             else Some (if neg then - int n else int n))"

definition hex_digit :: "nat \<Rightarrow> byte" where
  "hex_digit n = word_of_nat (if n < 10 then 48 + n else 87 + n)"

definition hex_encode :: "bytes \<Rightarrow> bytes" where
  "hex_encode b = concat (map (\<lambda>x. [hex_digit (unat x div 16), hex_digit (unat x mod 16)]) b)"

definition unhex :: "byte \<Rightarrow> nat option" where
  "unhex b =
     (let x = unat b
      in if 48 \<le> x \<and> x \<le> 57 then Some (x - 48)
         else if 97 \<le> x \<and> x \<le> 102 then Some (x - 87)
         else if 65 \<le> x \<and> x \<le> 70 then Some (x - 55)
         else None)"

fun hex_decode :: "bytes \<Rightarrow> bytes option" where
  "hex_decode [] = Some []"
| "hex_decode [b] = None"
| "hex_decode (a # b # s) =
     (case (unhex a, unhex b) of
        (Some x, Some y) \<Rightarrow> map_option (Cons (word_of_nat (x * 16 + y))) (hex_decode s)
      | _ \<Rightarrow> None)"

subsection \<open>Signing\<close>

datatype sig_error = Malformed | BadTimestamp | Stale int | NotHex | Mismatch

definition Sign :: "(bytes \<Rightarrow> bytes \<Rightarrow> bytes) \<Rightarrow> bytes \<Rightarrow> int \<Rightarrow> bytes \<Rightarrow> bytes" where
  "Sign mac secret unix body =
     (let t = FormatInt unix
      in str ''t='' @ t @ str '',v1='' @ hex_encode (mac secret (t @ str ''.'' @ body)))"

fun Cut :: "bytes \<Rightarrow> (bytes \<times> bytes) option" where
  "Cut [] = None"
| "Cut (b # s) = (if b = 61 then Some ([], s) else map_option (\<lambda>(k, v). (b # k, v)) (Cut s))"

definition header_part :: "bytes \<Rightarrow> bytes \<times> bytes \<Rightarrow> bytes \<times> bytes" where
  "header_part part = (\<lambda>(ts, sig).
     case Cut (TrimSpace part) of
       None \<Rightarrow> (ts, sig)
     | Some (k, v) \<Rightarrow> if k = str ''t'' then (v, sig) else if k = str ''v1'' then (ts, v) else (ts, sig))"

definition Verify ::
  "(bytes \<Rightarrow> bytes \<Rightarrow> bytes) \<Rightarrow> bytes \<Rightarrow> bytes \<Rightarrow> bytes \<Rightarrow> int \<Rightarrow> int \<Rightarrow> sig_error option" where
  "Verify mac secret header body now tolerance =
     (let (ts, sig) = fold header_part (split_on 44 header) ([], [])
      in if ts = [] \<or> sig = [] then Some Malformed
         else case ParseInt ts of
           None \<Rightarrow> Some BadTimestamp
         | Some secs \<Rightarrow>
             (let age = now - secs * 1000000000
              in if 0 < tolerance \<and> (age < - tolerance \<or> tolerance < age) then Some (Stale age)
                 else case hex_decode sig of
                   None \<Rightarrow> Some NotHex
                 | Some want \<Rightarrow>
                     if want \<noteq> mac secret (ts @ str ''.'' @ body) then Some Mismatch else None))"

subsection \<open>Packing\<close>

abbreviation (input) Raw :: int where "Raw \<equiv> 0"
abbreviation (input) Deflate :: int where "Deflate \<equiv> 1"

definition minSize :: nat where
  "minSize = 256"

definition Pack :: "(bytes \<Rightarrow> bytes option) \<Rightarrow> bytes \<Rightarrow> bytes \<times> int" where
  "Pack deflate b =
     (if length b < minSize then (b, Raw)
      else case deflate b of
        None \<Rightarrow> (b, Raw)
      | Some z \<Rightarrow> if length b \<le> length z then (b, Raw) else (z, Deflate))"

datatype pack_error = DecompressFailed | UnknownCodec int

definition Unpack :: "(bytes \<Rightarrow> bytes option) \<Rightarrow> bytes \<Rightarrow> int \<Rightarrow> pack_error + bytes" where
  "Unpack inflate b c =
     (if c = Raw then Inr b
      else if c = Deflate then (case inflate b of None \<Rightarrow> Inl DecompressFailed | Some x \<Rightarrow> Inr x)
      else Inl (UnknownCodec c))"

subsection \<open>Lemmas: numbers as text\<close>

lemma unat_byte: "n < 256 \<Longrightarrow> unat (word_of_nat n :: byte) = n"
  by (simp add: unat_of_nat)

lemma unat_digit [simp]: "n < 10 \<Longrightarrow> unat (digit n) = 48 + n"
  unfolding digit_def by (rule unat_byte) simp

lemma decimal_digits: "decimal n \<noteq> [] \<and> list_all is_digit (decimal n)"
proof (induction n rule: decimal.induct)
  case (1 n)
  have d: "is_digit (digit k)" if "k < 10" for k using that by (simp add: is_digit_def)
  show ?case
  proof (cases "n < 10")
    case True
    with d show ?thesis by (simp add: decimal.simps [of n])
  next
    case False
    with 1 d [of "n mod 10"] show ?thesis by (simp add: decimal.simps [of n])
  qed
qed

lemma parse_decimal: "parse_digits (decimal n) = Some n"
proof -
  let ?f = "\<lambda>a b. a * 10 + (unat (b :: byte) - 48)"
  have "foldl ?f 0 (decimal n) = n"
  proof (induction n rule: decimal.induct)
    case (1 n)
    show ?case
    proof (cases "n < 10")
      case True
      then show ?thesis by (simp add: decimal.simps [of n])
    next
      case False
      with 1 show ?thesis by (simp add: decimal.simps [of n])
    qed
  qed
  with decimal_digits [of n] show ?thesis by (simp add: parse_digits_def)
qed

lemma decimal_head: "\<exists>b r. decimal n = b # r \<and> is_digit b"
  using decimal_digits [of n] by (cases "decimal n") auto

lemma ParseInt_FormatInt:
  assumes "- (2 ^ 63) \<le> n" and "n < 2 ^ 63"
  shows "ParseInt (FormatInt n) = Some n"
proof (cases "n < 0")
  case True
  moreover have "\<not> 2 ^ 63 < nat (- n)" using assms(1) by (simp add: nat_less_iff)
  ultimately show ?thesis by (simp add: FormatInt_def ParseInt_def Let_def parse_decimal)
next
  case False
  obtain b r where b: "decimal (nat n) = b # r" "is_digit b" using decimal_head by blast
  then have "b \<noteq> 43" "b \<noteq> 45" by (auto simp: is_digit_def)
  moreover have "\<not> 2 ^ 63 \<le> nat n" using assms(2) by (simp add: nat_le_iff not_le)
  ultimately show ?thesis using False b parse_decimal [of "nat n"] by (simp add: FormatInt_def ParseInt_def Let_def)
qed

lemma unat_hex_digit: "n < 16 \<Longrightarrow> unat (hex_digit n) = (if n < 10 then 48 + n else 87 + n)"
  unfolding hex_digit_def by (rule unat_byte) auto

lemma unhex_hex_digit: "n < 16 \<Longrightarrow> unhex (hex_digit n) = Some n"
  by (auto simp: unhex_def Let_def unat_hex_digit)

lemma hex_decode_encode: "hex_decode (hex_encode b) = Some b"
proof (induction b)
  case (Cons x b)
  have x: "unat x < 256" using unsigned_less [of x] by simp
  then have "unat x div 16 < 16" "unat x mod 16 < 16" by auto
  with Cons show ?case by (simp add: hex_encode_def unhex_hex_digit)
qed (simp add: hex_encode_def)

subsection \<open>Lemmas: signing\<close>

lemma split_on_none: "c \<notin> set s \<Longrightarrow> split_on c s = [s]"
  by (induction s) auto

lemma split_on_append: "c \<notin> set a \<Longrightarrow> split_on c (a @ c # b) = a # split_on c b"
  by (induction a) auto

lemma TrimSpace_clean: "\<forall>b\<in>set s. \<not> is_space b \<Longrightarrow> TrimSpace s = s"
proof -
  have drop: "dropWhile is_space s = s" if "\<forall>b\<in>set s. \<not> is_space b" for s using that by (cases s) auto
  show "\<forall>b\<in>set s. \<not> is_space b \<Longrightarrow> TrimSpace s = s" by (simp add: TrimSpace_def drop)
qed

lemma unat_clean: "40 < unat b \<Longrightarrow> unat b \<noteq> 44 \<Longrightarrow> \<not> is_space b \<and> b \<noteq> 44"
  by (auto simp: is_space_def word_le_nat_alt)

lemma decimal_clean: "b \<in> set (decimal n) \<Longrightarrow> \<not> is_space b \<and> b \<noteq> 44"
  using decimal_digits [of n] by (auto simp: list_all_iff is_digit_def intro!: unat_clean)

lemma FormatInt_clean: "b \<in> set (FormatInt n) \<Longrightarrow> \<not> is_space b \<and> b \<noteq> 44"
  using decimal_clean by (auto simp: FormatInt_def is_space_def split: if_splits)

lemma hex_clean: "b \<in> set (hex_encode x) \<Longrightarrow> \<not> is_space b \<and> b \<noteq> 44"
proof -
  have d: "\<not> is_space (hex_digit n) \<and> hex_digit n \<noteq> 44" if "n < 16" for n
    by (rule unat_clean) (use that in \<open>auto simp: unat_hex_digit\<close>)
  have u: "unat y < 256" for y :: byte using unsigned_less [of y] by simp
  have "unat y div 16 < 16" "unat y mod 16 < 16" for y :: byte using u [of y] by auto
  then show "b \<in> set (hex_encode x) \<Longrightarrow> \<not> is_space b \<and> b \<noteq> 44" using d by (auto simp: hex_encode_def)
qed

lemma str_bytes: "str ''t='' = [116, 61]" "str '',v1='' = [44, 118, 49, 61]" "str ''t'' = [116]" "str ''v1'' = [118, 49]"
  by (simp_all add: str_def of_char_def)

lemma header_parts:
  assumes "\<And>b. b \<in> set t \<Longrightarrow> \<not> is_space b \<and> b \<noteq> 44" and "\<And>b. b \<in> set v \<Longrightarrow> \<not> is_space b \<and> b \<noteq> 44"
  shows "fold header_part (split_on 44 (str ''t='' @ t @ str '',v1='' @ v)) ([], []) = (t, v)"
proof -
  have c: "\<not> is_space 116" "\<not> is_space 61" "\<not> is_space 118" "\<not> is_space 49" by (simp_all add: is_space_def)
  have "44 \<notin> set t" "44 \<notin> set v" using assms by blast+
  then have "split_on 44 ((116 # 61 # t) @ 44 # (118 # 49 # 61 # v)) = [116 # 61 # t, 118 # 49 # 61 # v]"
    by (subst split_on_append) (simp_all add: split_on_none)
  moreover have "TrimSpace (116 # 61 # t) = 116 # 61 # t" "TrimSpace (118 # 49 # 61 # v) = 118 # 49 # 61 # v"
    using assms c by (auto intro!: TrimSpace_clean)
  ultimately show ?thesis by (simp add: str_bytes header_part_def)
qed

lemma Verify_Sign:
  assumes "- (2 ^ 63) \<le> unix" and "unix < 2 ^ 63" and "0 < tolerance \<longrightarrow> \<bar>now - unix * 1000000000\<bar> \<le> tolerance"
    and "mac secret (FormatInt unix @ str ''.'' @ body) \<noteq> []"
  shows "Verify mac secret (Sign mac secret unix body) body now tolerance = None"
proof -
  let ?t = "FormatInt unix" and ?v = "hex_encode (mac secret (FormatInt unix @ str ''.'' @ body))"
  have p: "fold header_part (split_on 44 (Sign mac secret unix body)) ([], []) = (?t, ?v)"
    unfolding Sign_def Let_def by (rule header_parts [OF FormatInt_clean hex_clean])
  have "?t \<noteq> []" using decimal_digits by (auto simp: FormatInt_def)
  moreover have "?v \<noteq> []" using assms(4) by (auto simp: hex_encode_def)
  moreover have "\<not> (0 < tolerance \<and> (now - unix * 1000000000 < - tolerance \<or> tolerance < now - unix * 1000000000))"
    using assms(3) by linarith
  ultimately show ?thesis by (simp add: Verify_def p ParseInt_FormatInt [OF assms(1,2)] hex_decode_encode Let_def)
qed

text \<open>A header that is accepted carries a tag of exactly this timestamp and this body.\<close>

lemma Verify_sound:
  assumes "Verify mac secret header body now tolerance = None"
  shows "\<exists>ts sig secs. fold header_part (split_on 44 header) ([], []) = (ts, sig) \<and> ParseInt ts = Some secs
     \<and> hex_decode sig = Some (mac secret (ts @ str ''.'' @ body))
     \<and> (0 < tolerance \<longrightarrow> \<bar>now - secs * 1000000000\<bar> \<le> tolerance)"
  using assms by (auto simp: Verify_def Let_def split: prod.splits if_splits option.splits)

subsection \<open>Lemmas: packing\<close>

lemma Unpack_Pack:
  assumes "\<And>z. deflate b = Some z \<Longrightarrow> inflate z = Some b"
  shows "Unpack inflate (fst (Pack deflate b)) (snd (Pack deflate b)) = Inr b"
    and "length (fst (Pack deflate b)) \<le> length b"
  using assms by (auto simp: Pack_def Unpack_def split: option.splits)

end
