(* ===== verification/Uuid.thy ===== *)
theory Uuid
  imports Signature "HOL-Library.List_Lexorder" "HOL-Library.Product_Lexorder"
begin

text \<open>
  Document and owner identifiers, from \<open>store/uuid.go\<close>, and the listing cursor built from them,
  from \<open>store/list.go\<close>. A \<open>UUID\<close> is a list of sixteen bytes. SHA-1 is a parameter; where a
  statement needs it, the hypothesis is that a digest has twenty bytes.

  A canonical string is read back as the identifier it came from, so a document reached by its
  identifier and one reached by that identifier's text are the same document; an identifier
  derived from a name carries version 5, so it is never the identifier that means "owned by
  nobody".
\<close>

unbundle bit_operations_syntax

subsection \<open>Definitions\<close>

type_synonym uuid = bytes

definition NilUUID :: uuid where
  "NilUUID = replicate 16 0"

definition documentNamespace :: uuid where
  "documentNamespace = [0x5f, 0x2b, 0x9a, 0x1e, 0x7c, 0x64, 0x4d, 0x8f,
     0xa3, 0x11, 0x0e, 0x6d, 0xc2, 0x84, 0xb7, 0x59]"

definition ownerNamespace :: uuid where
  "ownerNamespace = [0xb7, 0x3c, 0x41, 0xd8, 0x0a, 0x9f, 0x4e, 0x26,
     0x8c, 0x5d, 0x92, 0xf0, 0x17, 0x6b, 0xe3, 0xa4]"

definition uuidV5 :: "(bytes \<Rightarrow> bytes) \<Rightarrow> uuid \<Rightarrow> bytes \<Rightarrow> uuid" where
  "uuidV5 sha1 namespace name =
     (let out = take 16 (sha1 (namespace @ name));
          out = out[6 := (out ! 6 AND 0x0f) OR 0x50];
          out = out[8 := (out ! 8 AND 0x3f) OR 0x80]
      in out)"

definition slice :: "nat \<Rightarrow> nat \<Rightarrow> 'a list \<Rightarrow> 'a list" where
  "slice a b xs = take (b - a) (drop a xs)"

definition UUID_String :: "uuid \<Rightarrow> bytes" where
  "UUID_String u =
     hex_encode (slice 0 4 u) @ str ''-'' @ hex_encode (slice 4 6 u) @ str ''-''
       @ hex_encode (slice 6 8 u) @ str ''-'' @ hex_encode (slice 8 10 u) @ str ''-''
       @ hex_encode (slice 10 16 u)"

definition groups :: "(nat \<times> nat) list" where
  "groups = [(0, 8), (9, 13), (14, 18), (19, 23), (24, 36)]"

primrec parse_groups :: "(nat \<times> nat) list \<Rightarrow> bytes \<Rightarrow> uuid option" where
  "parse_groups [] s = Some []"
| "parse_groups (g # gs) s =
     (case hex_decode (slice (fst g) (snd g) s) of
        None \<Rightarrow> None
      | Some u \<Rightarrow> map_option (append u) (parse_groups gs s))"

definition ParseUUID :: "bytes \<Rightarrow> uuid option" where
  "ParseUUID s =
     (if length s \<noteq> 36 \<or> s ! 8 \<noteq> 45 \<or> s ! 13 \<noteq> 45 \<or> s ! 18 \<noteq> 45 \<or> s ! 23 \<noteq> 45 then None
      else parse_groups groups s)"

definition DocumentID :: "(bytes \<Rightarrow> bytes) \<Rightarrow> bytes \<Rightarrow> uuid" where
  "DocumentID sha1 name =
     (case ParseUUID name of Some i \<Rightarrow> i | None \<Rightarrow> uuidV5 sha1 documentNamespace name)"

definition OwnerID :: "(bytes \<Rightarrow> bytes) \<Rightarrow> bytes \<Rightarrow> uuid" where
  "OwnerID sha1 tenant =
     (if tenant = [] then NilUUID
      else case ParseUUID tenant of Some i \<Rightarrow> i | None \<Rightarrow> uuidV5 sha1 ownerNamespace tenant)"

record Cursor =
  curName :: bytes
  curID :: uuid

definition Cursor_String :: "Cursor \<Rightarrow> bytes" where
  "Cursor_String c = curName c @ str ''/'' @ UUID_String (curID c)"

fun cut_at :: "byte \<Rightarrow> bytes \<Rightarrow> (bytes \<times> bytes) option" where
  "cut_at sep [] = None"
| "cut_at sep (b # s) = (if b = sep then Some ([], s) else map_option (\<lambda>(k, v). (b # k, v)) (cut_at sep s))"

definition ParseCursor :: "bytes \<Rightarrow> Cursor option" where
  "ParseCursor s =
     (case cut_at 47 s of
        None \<Rightarrow> None
      | Some (name, rest) \<Rightarrow>
          (case ParseUUID rest of None \<Rightarrow> None | Some i \<Rightarrow> Some \<lparr>curName = name, curID = i\<rparr>))"

subsection \<open>Lemmas\<close>

lemma length_hex_encode [simp]: "length (hex_encode b) = 2 * length b"
  by (induction b) (simp_all add: hex_encode_def)

lemma length_hex_decode: "hex_decode s = Some b \<Longrightarrow> length s = 2 * length b"
  by (induction s arbitrary: b rule: hex_decode.induct) (auto split: option.splits)

lemma slice_append: "length xs = n \<Longrightarrow> m \<ge> n \<Longrightarrow> slice m k (xs @ ys) = slice (m - n) (k - n) ys"
  by (auto simp: slice_def)

lemma slice_here: "length xs = n \<Longrightarrow> slice 0 n (xs @ ys) = xs"
  by (auto simp: slice_def)

lemma length_slice: "b \<le> length xs \<Longrightarrow> length (slice a b xs) = b - a"
  by (auto simp: slice_def)

lemma slices_16: "length u = 16 \<Longrightarrow> slice 0 4 u @ slice 4 6 u @ slice 6 8 u @ slice 8 10 u @ slice 10 16 u = u"
  by (intro nth_equalityI) (auto simp: slice_def nth_append nth_Cons less_Suc_eq numeral_eq_Suc split: nat.splits)

lemma str_dash: "str ''-'' = [45]"
  by code_simp

lemma ParseUUID_String:
  assumes "length u = 16"
  shows "ParseUUID (UUID_String u) = Some u"
proof -
  let ?h = "\<lambda>a b. hex_encode (slice a b u)"
  have l: "length (?h 0 4) = 8" "length (?h 4 6) = 4" "length (?h 6 8) = 4" "length (?h 8 10) = 4"
    "length (?h 10 16) = 12"
    using assms by (simp_all add: length_slice)
  have s: "UUID_String u = ?h 0 4 @ 45 # ?h 4 6 @ 45 # ?h 6 8 @ 45 # ?h 8 10 @ 45 # ?h 10 16"
    by (simp add: UUID_String_def str_dash)
  have g: "slice 0 8 (UUID_String u) = ?h 0 4" "slice 9 13 (UUID_String u) = ?h 4 6"
    "slice 14 18 (UUID_String u) = ?h 6 8" "slice 19 23 (UUID_String u) = ?h 8 10"
    "slice 24 36 (UUID_String u) = ?h 10 16"
    using l unfolding s by (auto simp: slice_def)
  have d: "length (UUID_String u) = 36" "UUID_String u ! 8 = 45" "UUID_String u ! 13 = 45"
    "UUID_String u ! 18 = 45" "UUID_String u ! 23 = 45"
    using l unfolding s by (simp_all add: nth_append)
  show ?thesis
    using slices_16 [OF assms] by (simp add: ParseUUID_def d groups_def g hex_decode_encode)
qed

lemma ParseUUID_length:
  assumes "ParseUUID s = Some u"
  shows "length u = 16"
proof -
  have *: "parse_groups gs s = Some u \<Longrightarrow> list_all (\<lambda>(a, b). b \<le> length s) gs \<Longrightarrow>
      2 * length u = sum_list (map (\<lambda>(a, b). b - a) gs)" for gs and u :: uuid
    by (induction gs arbitrary: u)
      (auto split: option.splits dest!: length_hex_decode simp: length_slice)
  have "length s = 36" "parse_groups groups s = Some u"
    using assms by (auto simp: ParseUUID_def split: if_splits)
  then show ?thesis using * [of groups u] by (simp add: groups_def)
qed

lemma uuidV5_facts:
  assumes "\<And>x. length (sha1 x) = 20"
  shows "length (uuidV5 sha1 ns name) = 16"
    and "uuidV5 sha1 ns name ! 6 AND 0xf0 = 0x50"
    and "uuidV5 sha1 ns name \<noteq> NilUUID"
proof -
  have l: "length (take 16 (sha1 (ns @ name))) = 16" using assms by simp
  show "length (uuidV5 sha1 ns name) = 16" using l by (simp add: uuidV5_def Let_def)
  have n: "uuidV5 sha1 ns name ! 6 = (take 16 (sha1 (ns @ name)) ! 6 AND 0x0f) OR 0x50"
    using l by (simp add: uuidV5_def Let_def)
  have b: "((x AND 0x0f) OR 0x50) AND 0xf0 = (0x50 :: byte)" for x
    by (simp add: word_bw_lcs word_bw_comms bit.conj_disj_distrib2 bit.conj_disj_distrib and.assoc)
  show v: "uuidV5 sha1 ns name ! 6 AND 0xf0 = 0x50" unfolding n by (rule b)
  show "uuidV5 sha1 ns name \<noteq> NilUUID"
  proof
    assume "uuidV5 sha1 ns name = NilUUID"
    with v show False by (simp add: NilUUID_def)
  qed
qed

lemma DocumentID_facts:
  assumes "\<And>x. length (sha1 x) = 20"
  shows "length (DocumentID sha1 name) = 16"
    and "length u = 16 \<Longrightarrow> DocumentID sha1 (UUID_String u) = u"
  using uuidV5_facts(1) [OF assms] ParseUUID_length ParseUUID_String
  by (auto simp: DocumentID_def split: option.splits)

lemma OwnerID_Nil:
  assumes "\<And>x. length (sha1 x) = 20"
  shows "OwnerID sha1 tenant = NilUUID \<longleftrightarrow> tenant = [] \<or> ParseUUID tenant = Some NilUUID"
  using uuidV5_facts(3) [OF assms] by (auto simp: OwnerID_def split: option.splits)

lemma cut_at_here: "sep \<notin> set k \<Longrightarrow> cut_at sep (k @ sep # v) = Some (k, v)"
  by (induction k) auto

lemma ParseCursor_String:
  assumes "47 \<notin> set (curName c)" and "length (curID c) = 16"
  shows "ParseCursor (Cursor_String c) = Some c"
proof -
  have "str ''/'' = [47]" by code_simp
  then show ?thesis
    using cut_at_here [OF assms(1)] ParseUUID_String [OF assms(2)]
    by (simp add: ParseCursor_def Cursor_String_def)
qed

end
