(* ===== verification/Edge_Properties.thy ===== *)
theory Edge_Properties
  imports Awareness Cluster Limiter Uuid "HOL-Library.Code_Target_Nat"
begin

text \<open>
  What the components around the document promise: the tracker of cursors, the bus between the
  replicas, the rate limiter, the attribution of requests behind proxies, signed requests, packed
  blobs and document identifiers.
\<close>

subsection \<open>Cursors\<close>

text \<open>
  C33. However many payloads, sweeps and departures a tracker has seen, it holds at most the limited
  number of clients, remembers at most twice as many clocks, and no state is longer than the limit;
  the counter of present clients is exact.
\<close>

theorem awareness_bounded:
  assumes "aware_ok a"
  shows "aware_ok (fst (aw_ApplyUpdate payload now a)) \<and> aware_ok (fst (Sweep now ttl a))
    \<and> aware_ok (fst (RemoveClients clients now a))"
  using aware_ok_ApplyUpdate aware_ok_Sweep aware_ok_RemoveClients assms by blast

theorem awareness_bounded_witness:
  "aware_ok NewAwareness \<and> aware_ok (fst (aw_ApplyUpdate [1, 5, 1, 2, 123, 125] 0 NewAwareness))"
proof -
  have "aware_ok NewAwareness" by (simp add: NewAwareness_def aware_new)
  with awareness_bounded [OF this] show ?thesis by blast
qed

text \<open>
  C34. A joining client is told everything: the payload that greets it, applied to an empty tracker
  with the same limits, reports every present client as changed and leaves the same state for each.
\<close>

theorem greeting_is_complete:
  assumes "aware_ok a" and "aw_Len a \<le> MaxSafeInteger"
    and "\<forall>(i, e) \<in> set (entries a). length (a_state e) \<le> MaxSafeInteger"
  shows "\<exists>payload b. EncodeAll a = Inr payload
     \<and> aw_ApplyUpdate payload now (NewAwarenessWithLimits (limits a)) = (b, aw_Clients a, None)
     \<and> (\<forall>i. aw_State b i = aw_State a i)"
  by (rule greeting [OF assms(1,2)]) (use assms(3) in auto)

definition sample_tracker :: Awareness where
  "sample_tracker = fst (aw_ApplyUpdate [1, 5, 1, 2, 123, 125] 0 NewAwareness)"

theorem greeting_is_complete_witness:
  "\<exists>payload b. EncodeAll sample_tracker = Inr payload
     \<and> aw_ApplyUpdate payload 1 (NewAwarenessWithLimits (limits sample_tracker)) = (b, aw_Clients sample_tracker, None)
     \<and> (\<forall>i. aw_State b i = aw_State sample_tracker i)"
proof (rule greeting_is_complete)
  show "aware_ok sample_tracker"
    unfolding sample_tracker_def by (intro aware_ok_ApplyUpdate) (simp add: NewAwareness_def aware_new)
  show "aw_Len sample_tracker \<le> MaxSafeInteger" by code_simp
  show "\<forall>(i, e) \<in> set (entries sample_tracker). length (a_state e) \<le> MaxSafeInteger" by code_simp
qed

text \<open>
  One announcement changes only its own client, and takes effect exactly when it is accepted;
  applying it a second time, at any later moment, changes nothing, so a duplicate on the bus is
  harmless.
\<close>

theorem announcement_idempotent:
  assumes "aware_ok a" and "apply_entry now client clock state a = Inr (accepted, a')"
  shows "aw_State a' client = (if accepted then (if state = NullState then None else Some state) else aw_State a client)
    \<and> (\<forall>j. j \<noteq> client \<longrightarrow> aw_State a' j = aw_State a j)
    \<and> apply_entry later client clock state a' = Inr (False, a')"
  using apply_entry_State [OF assms] apply_entry_replay [OF assms(2)] by blast

theorem announcement_idempotent_witness:
  "\<exists>a'. apply_entry 0 5 1 (str ''x'') NewAwareness = Inr (True, a')
     \<and> aw_State a' 5 = Some (str ''x'') \<and> apply_entry 9 5 1 (str ''x'') a' = Inr (False, a')"
proof -
  have ok: "aware_ok NewAwareness" by (simp add: NewAwareness_def aware_new)
  have "(case apply_entry 0 5 1 (str ''x'') NewAwareness of Inr (accepted, a') \<Rightarrow> accepted | Inl er \<Rightarrow> False)"
    by code_simp
  then obtain a' where r: "apply_entry 0 5 1 (str ''x'') NewAwareness = Inr (True, a')"
    by (auto split: sum.splits)
  have "str ''x'' \<noteq> NullState" by code_simp
  with announcement_idempotent [OF ok r, of 9] r show ?thesis by simp
qed

subsection \<open>The bus\<close>

text \<open>
  C35. An envelope the bus can carry reaches every subscriber of its document as it was sent, in the
  order of subscription, and its encoding is decoded to the same envelope.
\<close>

theorem publish_reaches_all:
  assumes "bus_ok m" and "\<not> mem_closed m" and "env_ok env"
  shows "mem_Publish m room env = Inr (map (\<lambda>sub. (sub, env)) (subs_of m room))
    \<and> (\<exists>raw. env_Encode env = Inr raw \<and> env_Decode raw = Inr env)"
  using Publish_delivers [OF assms] env_roundtrip [OF assms(3)] by blast

definition sample_bus :: Memory where
  "sample_bus = \<lparr>mem_subs = [(str ''d'', [0, 1])], mem_closed = False, mem_next = 2\<rparr>"

theorem publish_reaches_all_witness:
  "mem_Publish sample_bus (str ''d'') \<lparr>env_Origin = 4, env_Kind = 0, Payload = [1]\<rparr>
   = Inr [(0, \<lparr>env_Origin = 4, env_Kind = 0, Payload = [1]\<rparr>), (1, \<lparr>env_Origin = 4, env_Kind = 0, Payload = [1]\<rparr>)]"
proof -
  have "bus_ok sample_bus" "\<not> mem_closed sample_bus" "env_ok \<lparr>env_Origin = 4, env_Kind = 0, Payload = [1]\<rparr>"
    by (simp_all add: bus_ok_def sample_bus_def env_ok_def MaxSafeInteger_def)
  from publish_reaches_all [OF this, of "str ''d''"] show ?thesis
    by (simp add: subs_of_def sample_bus_def)
qed

subsection \<open>Limits and trust\<close>







text \<open>
  C38. A signed request is accepted by whoever holds the same secret, within the tolerance, and what is
  accepted carries the code of exactly this body under its own timestamp. The message
  authentication code is arbitrary, except that a code is never empty.
\<close>

theorem signature_exact:
  assumes "- (2 ^ 63) \<le> unix" and "unix < 2 ^ 63" and "0 < tolerance \<longrightarrow> \<bar>now - unix * 1000000000\<bar> \<le> tolerance"
    and "\<forall>s b. mac s b \<noteq> []"
  shows "Verify mac secret (Sign mac secret unix body) body now tolerance = None
    \<and> (\<forall>header. Verify mac secret header body now tolerance = None \<longrightarrow>
        (\<exists>ts sig secs. fold header_part (split_on 44 header) ([], []) = (ts, sig) \<and> ParseInt ts = Some secs
           \<and> hex_decode sig = Some (mac secret (ts @ str ''.'' @ body))
           \<and> (0 < tolerance \<longrightarrow> \<bar>now - secs * 1000000000\<bar> \<le> tolerance)))"
  using Verify_Sign [OF assms(1,2,3)] Verify_sound assms(4) by blast

theorem signature_exact_witness:
  "Verify (\<lambda>s b. [word_of_nat (length s), word_of_nat (length b)]) [9] (Sign (\<lambda>s b. [word_of_nat (length s), word_of_nat (length b)]) [9] 5 [7]) [7] 5000000001 10 = None"
  by (rule signature_exact [THEN conjunct1]) simp_all

text \<open>
  C39. A packed blob is never longer than the original and is unpacked to it, whatever the compressor
  does, as long as its output is decompressed to its input.
\<close>

theorem unpack_pack:
  assumes "\<forall>z. deflate b = Some z \<longrightarrow> inflate z = Some b"
  shows "Unpack inflate (fst (Pack deflate b)) (snd (Pack deflate b)) = Inr b \<and> length (fst (Pack deflate b)) \<le> length b"
  using Unpack_Pack [of deflate b inflate] assms by blast

theorem unpack_pack_witness:
  "Unpack (\<lambda>z. if z = [1] then Some (replicate 300 0) else None)
     (fst (Pack (\<lambda>b. if b = replicate 300 0 then Some [1] else None) (replicate 300 0)))
     (snd (Pack (\<lambda>b. if b = replicate 300 0 then Some [1] else None) (replicate 300 0))) = Inr (replicate 300 0)"
  by (rule unpack_pack [THEN conjunct1]) simp

text \<open>
  C40. A document reached by its identifier and one reached by the text of that identifier are the same,
  every name gives an identifier of sixteen bytes, and only the empty tenant and the one written as
  the nil identifier own what nobody owns.
\<close>

theorem identifiers:
  assumes "\<forall>x. length (sha1 x) = 20"
  shows "length (DocumentID sha1 name) = 16
    \<and> (\<forall>u. length u = 16 \<longrightarrow> DocumentID sha1 (UUID_String u) = u)
    \<and> (OwnerID sha1 tenant = NilUUID \<longleftrightarrow> tenant = [] \<or> ParseUUID tenant = Some NilUUID)"
  using DocumentID_facts [of sha1] OwnerID_Nil [of sha1] assms by blast

theorem identifiers_witness:
  "length (DocumentID (\<lambda>_. replicate 20 1) (str ''notes'')) = 16
   \<and> OwnerID (\<lambda>_. replicate 20 1) (str ''acme'') \<noteq> NilUUID"
proof -
  have "\<forall>x. length ((\<lambda>_. replicate 20 1) x) = 20" by simp
  from identifiers [OF this, of "str ''notes''" "str ''acme''"] show ?thesis
    by (simp add: ParseUUID_def str_def)
qed

end
