(* ===== verification/Database.thy ===== *)
theory Database
  imports Uuid
begin

text \<open>
  The database, from \<open>store/store.go\<close>, \<open>store/versions.go\<close>, \<open>store/blobs.go\<close> and
  \<open>store/list.go\<close>, over the tables of \<open>store/schema.sql\<close>.

  \<^item> \<open>documents\<close>, \<open>doc_updates\<close> and \<open>doc_versions\<close> are the three tables, \<open>next_seq\<close> and
    \<open>next_version\<close> the identity columns of the last two; \<open>objects\<close> is the object storage, in use
    when \<open>blobs\<close> holds. Each SQL statement is the relational operation it denotes; a statement
    that has to run inside a transaction works on a copy that only a successful commit publishes,
    while the object storage, which no transaction covers, changes at once.
  \<^item> Every call that can fail has a name in \<open>call\<close>, and each operation takes the set of calls
    that fail, so every early return of the code is a branch here. \<open>Statement n\<close> is the n-th
    statement of the operation in the order of the source, from 0.
  \<^item> The deflate codec is a parameter, as in the packing component; so is the collation by which
    the database orders names.

  The lemmas say what each operation does to each table, that the tables stay well-formed
  (identifiers and sequence numbers unique, no row without its document), that a reader gets back
  what was appended and compacted, that an owner never changes by opening a document, and that
  paging through a listing visits every row once.
\<close>

subsection \<open>Tables\<close>

record document_row =
  owner_id :: uuid
  doc_name :: bytes
  snapshot :: "bytes option"
  snapshot_codec :: int
  snapshot_key :: bytes
  snapshot_bytes :: nat
  snapshot_seq :: nat
  updated_at :: int

record update_row =
  u_doc :: uuid
  u_seq :: nat
  u_payload :: bytes
  u_created :: int

record version_row =
  v_doc :: uuid
  v_id :: nat
  v_created :: int
  v_state :: bytes
  v_payload :: bytes
  v_codec :: int
  v_key :: bytes
  v_bytes :: nat
  v_label :: bytes

record db =
  documents :: "(uuid \<times> document_row) list"
  doc_updates :: "update_row list"
  doc_versions :: "version_row list"
  next_seq :: nat
  next_version :: nat
  blobs :: bool
  objects :: "(bytes \<times> bytes) list"

datatype call = Begin | Lock | Statement nat | Commit | PutObject | GetObject | DeleteObject | Random

type_synonym failing = "call \<Rightarrow> bool"

datatype store_error =
    DbError
  | ErrStaleSnapshot
  | ErrWrongOwner bytes
  | ErrNoVersion
  | NeedsPayload
  | NoObjectStorage bytes
  | ObjectMissing bytes
  | BadBlob pack_error

type_synonym 'a sres = "store_error + 'a"

definition Open :: db where
  "Open = \<lparr>documents = [], doc_updates = [], doc_versions = [], next_seq = 1, next_version = 1,
     blobs = False, objects = []\<rparr>"

definition UseBlobs :: "db \<Rightarrow> db" where
  "UseBlobs s = s\<lparr>blobs := True\<rparr>"

definition new_row :: "int \<Rightarrow> uuid \<Rightarrow> bytes \<Rightarrow> document_row" where
  "new_row now owner name = \<lparr>owner_id = owner, doc_name = name, snapshot = None, snapshot_codec = 0,
     snapshot_key = [], snapshot_bytes = 0, snapshot_seq = 0, updated_at = now\<rparr>"

definition rows_of :: "uuid \<Rightarrow> db \<Rightarrow> update_row list" where
  "rows_of i s = filter (\<lambda>u. u_doc u = i) (doc_updates s)"

definition versions_of :: "uuid \<Rightarrow> db \<Rightarrow> version_row list" where
  "versions_of i s = filter (\<lambda>v. v_doc v = i) (doc_versions s)"

subsection \<open>Object storage\<close>

definition snapshotKey :: "uuid \<Rightarrow> nat \<Rightarrow> bytes" where
  "snapshotKey i seq = str ''snapshots/'' @ UUID_String i @ str ''/'' @ FormatInt (int seq)"

definition versionKey :: "bytes \<Rightarrow> uuid \<Rightarrow> bytes" where
  "versionKey rand i = str ''versions/'' @ UUID_String i @ str ''/'' @ hex_encode rand"

definition putBlob :: "failing \<Rightarrow> bytes \<Rightarrow> bytes \<Rightarrow> db \<Rightarrow> bytes sres \<times> db" where
  "putBlob down key body s =
     (if \<not> blobs s then (Inr [], s)
      else if down PutObject then (Inl DbError, s)
      else (Inr key, s\<lparr>objects := AList.update key body (objects s)\<rparr>))"

definition putVersionBlob :: "failing \<Rightarrow> bytes \<Rightarrow> uuid \<Rightarrow> bytes \<Rightarrow> db \<Rightarrow> bytes sres \<times> db" where
  "putVersionBlob down rand i body s =
     (if \<not> blobs s then (Inr [], s)
      else if down Random then (Inl DbError, s)
      else putBlob down (versionKey rand i) body s)"

definition unpack :: "(bytes \<Rightarrow> bytes option) \<Rightarrow> bytes \<Rightarrow> int \<Rightarrow> bytes sres" where
  "unpack inflate b c = (case Unpack inflate b c of Inl er \<Rightarrow> Inl (BadBlob er) | Inr x \<Rightarrow> Inr x)"

definition readBlob ::
  "failing \<Rightarrow> (bytes \<Rightarrow> bytes option) \<Rightarrow> bytes \<Rightarrow> bytes \<Rightarrow> int \<Rightarrow> db \<Rightarrow> bytes sres" where
  "readBlob down inflate key inline codec s =
     (if key = [] then unpack inflate inline codec
      else if \<not> blobs s then Inl (NoObjectStorage key)
      else if down GetObject then Inl DbError
      else case map_of (objects s) key of
        None \<Rightarrow> Inl (ObjectMissing key)
      | Some body \<Rightarrow> unpack inflate body codec)"

definition dropBlob :: "failing \<Rightarrow> bytes \<Rightarrow> db \<Rightarrow> db" where
  "dropBlob down key s =
     (if key = [] \<or> \<not> blobs s then s
      else if down DeleteObject then s
      else s\<lparr>objects := AList.delete key (objects s)\<rparr>)"

definition dropBlobs :: "failing \<Rightarrow> bytes list \<Rightarrow> db \<Rightarrow> db" where
  "dropBlobs down keys = fold (dropBlob down) keys"

definition blobKeysFor :: "failing \<Rightarrow> uuid \<Rightarrow> db \<Rightarrow> bytes list sres" where
  "blobKeysFor down i s =
     (if \<not> blobs s then Inr []
      else if down (Statement 0) then Inl DbError
      else Inr ((case map_of (documents s) i of
                   Some r \<Rightarrow> if snapshot_key r \<noteq> [] then [snapshot_key r] else []
                 | None \<Rightarrow> [])
                @ filter (\<lambda>k. k \<noteq> []) (map v_key (versions_of i s))))"

subsection \<open>Documents\<close>

definition ensureIn :: "failing \<Rightarrow> int \<Rightarrow> uuid \<Rightarrow> bytes \<Rightarrow> uuid \<Rightarrow> db \<Rightarrow> (uuid \<times> db) sres" where
  "ensureIn down now i name owner s =
     (if down (Statement 0) then Inl DbError
      else (let s = (case map_of (documents s) i of
                       Some r \<Rightarrow> s
                     | None \<Rightarrow> s\<lparr>documents := (i, new_row now owner name) # documents s\<rparr>)
            in if down (Statement 1) then Inl DbError
               else case map_of (documents s) i of
                 None \<Rightarrow> Inl DbError
               | Some r \<Rightarrow> Inr (owner_id r, s)))"

definition Ensure :: "failing \<Rightarrow> int \<Rightarrow> uuid \<Rightarrow> bytes \<Rightarrow> uuid \<Rightarrow> db \<Rightarrow> uuid sres \<times> db" where
  "Ensure down now i name owner s =
     (if down Begin then (Inl DbError, s)
      else case ensureIn down now i name owner s of
        Inl er \<Rightarrow> (Inl er, s)
      | Inr (found, tx) \<Rightarrow> if down Commit then (Inl DbError, s) else (Inr found, tx))"

record Document =
  docSnapshot :: "bytes option"
  SnapshotSeq :: nat
  docUpdates :: "bytes list"
  Seqs :: "nat list"
  LastSeq :: nat
  Owner :: uuid

definition no_document :: Document where
  "no_document = \<lparr>docSnapshot = None, SnapshotSeq = 0, docUpdates = [], Seqs = [], LastSeq = 0,
     Owner = NilUUID\<rparr>"

definition read_snapshot ::
  "failing \<Rightarrow> (bytes \<Rightarrow> bytes option) \<Rightarrow> document_row \<Rightarrow> db \<Rightarrow> bytes option sres" where
  "read_snapshot down inflate r s =
     (if snapshot r \<noteq> None \<or> snapshot_key r \<noteq> []
      then (case readBlob down inflate (snapshot_key r)
                   (case snapshot r of Some b \<Rightarrow> b | None \<Rightarrow> []) (snapshot_codec r) s of
              Inl er \<Rightarrow> Inl er
            | Inr b \<Rightarrow> Inr (Some b))
      else Inr None)"

definition read_document ::
  "failing \<Rightarrow> (bytes \<Rightarrow> bytes option) \<Rightarrow> uuid \<Rightarrow> bool \<Rightarrow> db \<Rightarrow> Document sres" where
  "read_document down inflate i any s =
     (if down (Statement 2) then Inl DbError
      else case map_of (documents s) i of
        None \<Rightarrow> if any then Inr no_document else Inl DbError
      | Some r \<Rightarrow>
          (case read_snapshot down inflate r s of
             Inl er \<Rightarrow> Inl er
           | Inr snap \<Rightarrow>
               if down (Statement 3) then Inl DbError
               else (let rows = sort_key u_seq (rows_of i s)
                     in Inr \<lparr>docSnapshot = snap, SnapshotSeq = snapshot_seq r,
                             docUpdates = map u_payload rows, Seqs = map u_seq rows,
                             LastSeq = fold max (map u_seq rows) (snapshot_seq r),
                             Owner = owner_id r\<rparr>)))"

definition load_document ::
  "failing \<Rightarrow> (bytes \<Rightarrow> bytes option) \<Rightarrow> int \<Rightarrow> uuid \<Rightarrow> bytes \<Rightarrow> uuid \<Rightarrow> bool \<Rightarrow> db \<Rightarrow> Document sres \<times> db" where
  "load_document down inflate now i name owner any s =
     (if down Begin then (Inl DbError, s)
      else case (if any then Inr s
                 else case ensureIn down now i name owner s of
                   Inl er \<Rightarrow> Inl er
                 | Inr (found, tx) \<Rightarrow> if found \<noteq> owner then Inl (ErrWrongOwner name) else Inr tx) of
        Inl er \<Rightarrow> (Inl er, s)
      | Inr tx \<Rightarrow>
          (case read_document down inflate i any tx of
             Inl er \<Rightarrow> (Inl er, s)
           | Inr doc \<Rightarrow> if down Commit then (Inl DbError, s) else (Inr doc, tx)))"

definition Load ::
  "failing \<Rightarrow> (bytes \<Rightarrow> bytes option) \<Rightarrow> int \<Rightarrow> uuid \<Rightarrow> bytes \<Rightarrow> uuid \<Rightarrow> db \<Rightarrow> Document sres \<times> db" where
  "Load down inflate now i name owner s = load_document down inflate now i name owner False s"

definition LoadAny ::
  "failing \<Rightarrow> (bytes \<Rightarrow> bytes option) \<Rightarrow> int \<Rightarrow> uuid \<Rightarrow> db \<Rightarrow> Document sres \<times> db" where
  "LoadAny down inflate now i s = load_document down inflate now i [] NilUUID True s"

definition update_rows :: "int \<Rightarrow> uuid \<Rightarrow> nat \<Rightarrow> bytes list \<Rightarrow> update_row list" where
  "update_rows now i seq payloads =
     map (\<lambda>(k, p). \<lparr>u_doc = i, u_seq = k, u_payload = p, u_created = now\<rparr>)
       (zip [seq ..< seq + length payloads] payloads)"

definition Store_Append :: "failing \<Rightarrow> int \<Rightarrow> uuid \<Rightarrow> bytes list \<Rightarrow> db \<Rightarrow> nat list sres \<times> db" where
  "Store_Append down now i payloads s =
     (if length payloads = 0 then (Inr [], s)
      else if down (Statement 0) \<or> map_of (documents s) i = None then (Inl DbError, s)
      else (Inr [next_seq s ..< next_seq s + length payloads],
            s\<lparr>doc_updates := doc_updates s @ update_rows now i (next_seq s) payloads,
              next_seq := next_seq s + length payloads\<rparr>))"

definition write_snapshot :: "int \<Rightarrow> bytes option \<Rightarrow> int \<Rightarrow> bytes \<Rightarrow> nat \<Rightarrow> nat \<Rightarrow> document_row \<Rightarrow> document_row" where
  "write_snapshot now packed codec key stored watermark r =
     r\<lparr>snapshot := packed, snapshot_codec := codec, snapshot_key := key, snapshot_bytes := stored,
       snapshot_seq := watermark, updated_at := now\<rparr>"

definition prune_log :: "uuid \<Rightarrow> nat list \<Rightarrow> db \<Rightarrow> db" where
  "prune_log i folded s =
     s\<lparr>doc_updates := filter (\<lambda>u. \<not> (u_doc u = i \<and> u_seq u \<in> set folded)) (doc_updates s)\<rparr>"

definition Compact ::
  "failing \<Rightarrow> (bytes \<Rightarrow> bytes option) \<Rightarrow> int \<Rightarrow> uuid \<Rightarrow> bytes \<Rightarrow> nat list \<Rightarrow> db \<Rightarrow> store_error option \<times> db" where
  "Compact down deflate now i snap folded s =
     (if length folded = 0 then (None, s)
      else (let watermark = fold max folded 0
            in if down Begin then (Some DbError, s)
               else if down Lock then (Some DbError, s)
               else (let (packed, codec) = Pack deflate snap
                     in case putBlob down (snapshotKey i watermark) packed s of
                          (Inl er, s) \<Rightarrow> (Some er, s)
                        | (Inr key, s) \<Rightarrow>
                            (let stored = length packed;
                                 column = (if key \<noteq> [] then None else Some packed)
                             in if down (Statement 0) then (Some DbError, s)
                                else case map_of (documents s) i of
                                  None \<Rightarrow> (Some DbError, s)
                                | Some r \<Rightarrow>
                                    if down (Statement 1) then (Some DbError, s)
                                    else if \<not> snapshot_seq r < watermark
                                    then (Some ErrStaleSnapshot, dropBlob down key s)
                                    else if down (Statement 2) then (Some DbError, s)
                                    else if down Commit then (Some DbError, dropBlob down key s)
                                    else (let r' = write_snapshot now column codec key stored watermark r;
                                              s = prune_log i folded
                                                    (s\<lparr>documents := AList.update i r' (documents s)\<rparr>)
                                          in (None,
                                              if snapshot_key r \<noteq> [] \<and> snapshot_key r \<noteq> key
                                              then dropBlob down (snapshot_key r) s else s))))))"

definition delete_rows :: "uuid set \<Rightarrow> db \<Rightarrow> db" where
  "delete_rows gone s =
     s\<lparr>documents := filter (\<lambda>(i, r). i \<notin> gone) (documents s),
       doc_updates := filter (\<lambda>u. u_doc u \<notin> gone) (doc_updates s),
       doc_versions := filter (\<lambda>v. v_doc v \<notin> gone) (doc_versions s)\<rparr>"

definition Store_Delete :: "failing \<Rightarrow> uuid \<Rightarrow> db \<Rightarrow> bool sres \<times> db" where
  "Store_Delete down i s =
     (case blobKeysFor down i s of
        Inl er \<Rightarrow> (Inl er, s)
      | Inr keys \<Rightarrow>
          if down (Statement 1) then (Inl DbError, s)
          else if map_of (documents s) i = None then (Inr False, s)
          else (Inr True, dropBlobs down keys (delete_rows {i} s)))"

definition idle :: "int \<Rightarrow> db \<Rightarrow> uuid \<times> document_row \<Rightarrow> bool" where
  "idle before s = (\<lambda>(i, r). updated_at r < before
     \<and> \<not> list_ex (\<lambda>u. u_doc u = i \<and> before \<le> u_created u) (doc_updates s))"

definition idle_ids :: "int \<Rightarrow> db \<Rightarrow> uuid list" where
  "idle_ids before s = map fst (filter (idle before s) (documents s))"

definition DeleteIdle :: "failing \<Rightarrow> int \<Rightarrow> db \<Rightarrow> nat sres \<times> db" where
  "DeleteIdle down before s =
     (if blobs s \<and> down (Statement 0) then (Inl DbError, s)
      else (let gone = idle_ids before s;
                versionKeys = (if blobs s
                               then map v_key (filter (\<lambda>v. v_key v \<noteq> [] \<and> v_doc v \<in> set gone) (doc_versions s))
                               else []);
                snapshotKeys = filter (\<lambda>k. k \<noteq> [])
                                 (map (\<lambda>(i, r). snapshot_key r) (filter (idle before s) (documents s)))
            in if down (Statement 1) then (Inl DbError, s)
               else (Inr (length gone),
                     dropBlobs down versionKeys (dropBlobs down snapshotKeys (delete_rows (set gone) s)))))"

definition UpdateCount :: "failing \<Rightarrow> uuid \<Rightarrow> db \<Rightarrow> nat sres" where
  "UpdateCount down i s = (if down (Statement 0) then Inl DbError else Inr (length (rows_of i s)))"

subsection \<open>Versions\<close>

record Version =
  verID :: nat
  CreatedAt :: int
  StateVector :: bytes
  Label :: bytes
  verBytes :: nat
  verPayload :: bytes

definition newest_version :: "uuid \<Rightarrow> db \<Rightarrow> version_row option" where
  "newest_version i s =
     (case rev (sort_key v_id (versions_of i s)) of [] \<Rightarrow> None | v # vs \<Rightarrow> Some v)"

definition says_nothing_new :: "int \<Rightarrow> int \<Rightarrow> uuid \<Rightarrow> bytes \<Rightarrow> db \<Rightarrow> bool" where
  "says_nothing_new now minAge i sv s =
     (case newest_version i s of
        None \<Rightarrow> False
      | Some v \<Rightarrow> now - minAge < v_created v \<or> v_state v = sv)"

definition SaveVersion ::
  "failing \<Rightarrow> (bytes \<Rightarrow> bytes option) \<Rightarrow> bytes \<Rightarrow> int \<Rightarrow> uuid \<Rightarrow> Version \<Rightarrow> int \<Rightarrow> db \<Rightarrow> bool sres \<times> db" where
  "SaveVersion down deflate rand now i v minAge s =
     (if length (verPayload v) = 0 then (Inl NeedsPayload, s)
      else if down Begin then (Inl DbError, s)
      else if down Lock then (Inl DbError, s)
      else (let (packed, codec) = Pack deflate (verPayload v)
            in case putVersionBlob down rand i packed s of
                 (Inl er, s) \<Rightarrow> (Inl er, s)
               | (Inr key, s) \<Rightarrow>
                   (let column = (if key \<noteq> [] then [] else packed)
                    in if down (Statement 0) then (Inl DbError, dropBlob down key s)
                       else if map_of (documents s) i = None
                         \<or> says_nothing_new now minAge i (StateVector v) s
                       then (if down Commit then (Inl DbError, dropBlob down key s)
                             else (Inr False, dropBlob down key s))
                       else if down Commit then (Inl DbError, s)
                       else (Inr True,
                             s\<lparr>doc_versions := doc_versions s @
                                 [\<lparr>v_doc = i, v_id = next_version s, v_created = now,
                                   v_state = StateVector v, v_payload = column, v_codec = codec,
                                   v_key = key, v_bytes = length packed, v_label = Label v\<rparr>],
                               next_version := next_version s + 1\<rparr>))))"

definition version_listing :: "version_row \<Rightarrow> Version" where
  "version_listing v = \<lparr>verID = v_id v, CreatedAt = v_created v, StateVector = v_state v,
     Label = v_label v, verBytes = (if v_key v = [] then length (v_payload v) else v_bytes v),
     verPayload = []\<rparr>"

definition ListVersions :: "failing \<Rightarrow> uuid \<Rightarrow> int \<Rightarrow> db \<Rightarrow> Version list sres" where
  "ListVersions down i limit s =
     (let limit = (if limit \<le> 0 then 50 else limit)
      in if down (Statement 0) then Inl DbError
         else Inr (map version_listing (take (nat limit) (rev (sort_key v_id (versions_of i s))))))"

definition LoadVersion ::
  "failing \<Rightarrow> (bytes \<Rightarrow> bytes option) \<Rightarrow> uuid \<Rightarrow> nat \<Rightarrow> db \<Rightarrow> Version sres" where
  "LoadVersion down inflate i version s =
     (if down (Statement 0) then Inl DbError
      else case find (\<lambda>v. v_id v = version) (versions_of i s) of
        None \<Rightarrow> Inl ErrNoVersion
      | Some v \<Rightarrow>
          (case readBlob down inflate (v_key v) (v_payload v) (v_codec v) s of
             Inl er \<Rightarrow> Inl er
           | Inr payload \<Rightarrow>
               Inr \<lparr>verID = version, CreatedAt = v_created v, StateVector = v_state v, Label = v_label v,
                    verBytes = length payload, verPayload = payload\<rparr>))"

definition kept_versions :: "uuid \<Rightarrow> nat \<Rightarrow> db \<Rightarrow> nat set" where
  "kept_versions i keep s = set (take keep (rev (sort (map v_id (versions_of i s)))))"

definition PruneVersions :: "failing \<Rightarrow> uuid \<Rightarrow> int \<Rightarrow> db \<Rightarrow> nat sres \<times> db" where
  "PruneVersions down i keep s =
     (if keep \<le> 0 then (Inr 0, s)
      else if down (Statement 0) then (Inl DbError, s)
      else (let kept = kept_versions i (nat keep) s;
                goes = (\<lambda>v. v_doc v = i \<and> v_id v \<notin> kept);
                gone = filter goes (doc_versions s)
            in (Inr (length gone),
                dropBlobs down (filter (\<lambda>k. k \<noteq> []) (map v_key gone))
                  (s\<lparr>doc_versions := filter (\<lambda>v. \<not> goes v) (doc_versions s)\<rparr>))))"

definition VersionCount :: "failing \<Rightarrow> uuid \<Rightarrow> db \<Rightarrow> nat sres" where
  "VersionCount down i s = (if down (Statement 0) then Inl DbError else Inr (length (versions_of i s)))"

subsection \<open>Listing\<close>

definition DefaultListLimit :: nat where "DefaultListLimit = 100"
definition MaxListLimit :: nat where "MaxListLimit = 1000"

record Listing =
  lsID :: uuid
  lsName :: bytes
  lsOwner :: uuid
  lsUpdatedAt :: int
  lsSnapshotBytes :: nat
  lsUpdates :: nat

record ListRequest =
  reqOwner :: uuid
  AllOwners :: bool
  After :: Cursor
  reqLimit :: int

record ListPage =
  Documents :: "Listing list"
  Next :: bytes

definition listing :: "db \<Rightarrow> uuid \<times> document_row \<Rightarrow> Listing" where
  "listing s = (\<lambda>(i, r). \<lparr>lsID = i, lsName = doc_name r, lsOwner = owner_id r, lsUpdatedAt = updated_at r,
     lsSnapshotBytes = (if snapshot_key r = []
                        then (case snapshot r of None \<Rightarrow> 0 | Some b \<Rightarrow> length b) else snapshot_bytes r),
     lsUpdates = length (rows_of i s)\<rparr>)"

definition list_key :: "(bytes \<Rightarrow> bytes) \<Rightarrow> Listing \<Rightarrow> bytes \<times> uuid" where
  "list_key collate l = (collate (lsName l), lsID l)"

definition list_limit :: "int \<Rightarrow> nat" where
  "list_limit limit =
     (let limit = (if limit \<le> 0 then DefaultListLimit else nat limit)
      in if MaxListLimit < limit then MaxListLimit else limit)"

definition listed :: "(bytes \<Rightarrow> bytes) \<Rightarrow> ListRequest \<Rightarrow> db \<Rightarrow> Listing list" where
  "listed collate req s =
     sort_key (list_key collate)
       (filter (\<lambda>l. (AllOwners req \<or> lsOwner l = reqOwner req)
                  \<and> (collate (curName (After req)), curID (After req)) < list_key collate l)
          (map (listing s) (documents s)))"

definition Store_List :: "failing \<Rightarrow> (bytes \<Rightarrow> bytes) \<Rightarrow> ListRequest \<Rightarrow> db \<Rightarrow> ListPage sres" where
  "Store_List down collate req s =
     (let limit = list_limit (reqLimit req)
      in if down (Statement 0) then Inl DbError
         else (let docs = take (limit + 1) (listed collate req s)
               in if limit < length docs
                  then Inr \<lparr>Documents = take limit docs,
                            Next = Cursor_String \<lparr>curName = lsName (docs ! (limit - 1)),
                                                  curID = lsID (docs ! (limit - 1))\<rparr>\<rparr>
                  else Inr \<lparr>Documents = docs, Next = []\<rparr>))"

definition SetOwner :: "failing \<Rightarrow> uuid \<Rightarrow> uuid \<Rightarrow> db \<Rightarrow> bool sres \<times> db" where
  "SetOwner down i owner s =
     (if down (Statement 0) then (Inl DbError, s)
      else (Inr (map_of (documents s) i \<noteq> None),
            s\<lparr>documents := AList.map_entry i (\<lambda>r. r\<lparr>owner_id := owner\<rparr>) (documents s)\<rparr>))"

definition Store_Name :: "failing \<Rightarrow> uuid \<Rightarrow> bytes \<Rightarrow> db \<Rightarrow> bool sres \<times> db" where
  "Store_Name down i name s =
     (if down (Statement 0) then (Inl DbError, s)
      else (Inr (case map_of (documents s) i of None \<Rightarrow> False | Some r \<Rightarrow> doc_name r = []),
            s\<lparr>documents := AList.map_entry i (\<lambda>r. if doc_name r = [] then r\<lparr>doc_name := name\<rparr> else r)
                (documents s)\<rparr>))"

subsection \<open>The invariant of the tables\<close>

definition db_ok :: "db \<Rightarrow> bool" where
  "db_ok s \<longleftrightarrow>
     distinct (map fst (documents s))
     \<and> distinct (map u_seq (doc_updates s))
     \<and> (\<forall>u \<in> set (doc_updates s). 0 < u_seq u \<and> u_seq u < next_seq s \<and> u_doc u \<in> fst ` set (documents s))
     \<and> distinct (map v_id (doc_versions s))
     \<and> (\<forall>v \<in> set (doc_versions s). v_id v < next_version s \<and> v_doc v \<in> fst ` set (documents s))
     \<and> 0 < next_seq s"

lemma tables_dropBlob [simp]:
  "documents (dropBlob down key s) = documents s" "doc_updates (dropBlob down key s) = doc_updates s"
  "doc_versions (dropBlob down key s) = doc_versions s" "next_seq (dropBlob down key s) = next_seq s"
  "next_version (dropBlob down key s) = next_version s" "blobs (dropBlob down key s) = blobs s"
  by (simp_all add: dropBlob_def)

lemma tables_dropBlobs [simp]:
  "documents (dropBlobs down keys s) = documents s" "doc_updates (dropBlobs down keys s) = doc_updates s"
  "doc_versions (dropBlobs down keys s) = doc_versions s" "next_seq (dropBlobs down keys s) = next_seq s"
  "next_version (dropBlobs down keys s) = next_version s" "blobs (dropBlobs down keys s) = blobs s"
  by (induction keys arbitrary: s) (simp_all add: dropBlobs_def)

lemma db_ok_objects [simp]: "db_ok (s\<lparr>objects := x\<rparr>) = db_ok s"
  by (simp add: db_ok_def)

lemma db_ok_dropBlob [simp]: "db_ok (dropBlob down key s) = db_ok s"
  by (simp add: dropBlob_def)

lemma db_ok_dropBlobs [simp]: "db_ok (dropBlobs down keys s) = db_ok s"
  by (induction keys arbitrary: s) (simp_all add: dropBlobs_def)

lemma putBlob_cases:
  assumes "putBlob down key body s = (r, s')"
  shows "s' = s \<and> (r = Inr [] \<and> \<not> blobs s \<or> (\<exists>er. r = Inl er) \<and> blobs s)
    \<or> r = Inr key \<and> blobs s \<and> s' = s\<lparr>objects := AList.update key body (objects s)\<rparr>"
  using assms by (auto simp: putBlob_def split: if_splits)

lemma putVersionBlob_cases:
  assumes "putVersionBlob down rand i body s = (r, s')"
  shows "s' = s \<and> (r = Inr [] \<and> \<not> blobs s \<or> (\<exists>er. r = Inl er) \<and> blobs s)
    \<or> r = Inr (versionKey rand i) \<and> blobs s
      \<and> s' = s\<lparr>objects := AList.update (versionKey rand i) body (objects s)\<rparr>"
  using assms by (auto simp: putVersionBlob_def putBlob_def split: if_splits)

lemma ensureIn_cases:
  assumes "ensureIn down now i name owner s = Inr (found, tx)"
  shows "(\<exists>r. map_of (documents s) i = Some r \<and> found = owner_id r \<and> tx = s)
    \<or> (map_of (documents s) i = None \<and> found = owner
        \<and> tx = s\<lparr>documents := (i, new_row now owner name) # documents s\<rparr>)"
  using assms by (auto simp: ensureIn_def Let_def new_row_def split: if_splits option.splits)

lemma db_ok_ensureIn:
  assumes "db_ok s" and "ensureIn down now i name owner s = Inr (found, tx)"
  shows "db_ok tx"
  using ensureIn_cases [OF assms(2)] assms(1)
  by (auto simp: db_ok_def map_of_eq_None_iff)

lemma db_ok_Ensure:
  assumes "db_ok s" shows "db_ok (snd (Ensure down now i name owner s))"
  using assms db_ok_ensureIn [OF assms]
  by (auto simp: Ensure_def split: sum.splits)

lemma db_ok_load:
  assumes "db_ok s" shows "db_ok (snd (load_document down inflate now i name owner any s))"
  using assms db_ok_ensureIn [OF assms, of down now i name owner]
  by (auto simp: load_document_def split: sum.splits if_splits)

lemma update_rows_facts:
  "map u_seq (update_rows now i n ps) = [n ..< n + length ps]"
  "map u_payload (update_rows now i n ps) = ps"
  "u \<in> set (update_rows now i n ps) \<Longrightarrow> u_doc u = i \<and> n \<le> u_seq u \<and> u_seq u < n + length ps"
proof -
  have "map u_seq (update_rows now i n ps) = map fst (zip [n ..< n + length ps] ps)"
    "map u_payload (update_rows now i n ps) = map snd (zip [n ..< n + length ps] ps)"
    by (simp_all add: update_rows_def comp_def case_prod_unfold)
  then show "map u_seq (update_rows now i n ps) = [n ..< n + length ps]"
    "map u_payload (update_rows now i n ps) = ps" by simp_all
  show "u \<in> set (update_rows now i n ps) \<Longrightarrow> u_doc u = i \<and> n \<le> u_seq u \<and> u_seq u < n + length ps"
    by (auto simp: update_rows_def set_zip)
qed

declare update_rows_facts(1,2) [simp]

lemma db_ok_Append:
  assumes "db_ok s" shows "db_ok (snd (Store_Append down now i payloads s))"
proof (cases "length payloads = 0 \<or> down (Statement 0) \<or> map_of (documents s) i = None")
  case True
  then show ?thesis using assms by (auto simp: Store_Append_def)
next
  case False
  let ?u = "update_rows now i (next_seq s) payloads"
  have o: "distinct (map u_seq (doc_updates s))" "\<forall>u \<in> set (doc_updates s). u_seq u < next_seq s"
    "\<forall>u \<in> set (doc_updates s). 0 < u_seq u \<and> u_doc u \<in> fst ` set (documents s)" "0 < next_seq s"
    using assms by (auto simp: db_ok_def)
  have n: "\<forall>u \<in> set ?u. u_doc u = i \<and> next_seq s \<le> u_seq u \<and> u_seq u < next_seq s + length payloads"
    using update_rows_facts(3) by blast
  have "u_seq ` set (doc_updates s) \<inter> u_seq ` set ?u = {}"
    using o(2) n by fastforce
  moreover have e: "distinct (map u_seq ?u)" by simp
  ultimately have d: "distinct (map u_seq (doc_updates s @ ?u))"
    using o(1) e by (simp only: map_append distinct_append set_map)
  have "i \<in> fst ` set (documents s)" using False by (simp add: map_of_eq_None_iff)
  then have a: "0 < u_seq u \<and> u_seq u < next_seq s + length payloads \<and> u_doc u \<in> fst ` set (documents s)"
    if "u \<in> set (doc_updates s @ ?u)" for u
    using that o(2,3,4) bspec [OF n, of u] by (cases "u \<in> set ?u") (auto simp: image_iff)
  show ?thesis
    unfolding db_ok_def using False assms d a by (simp add: Store_Append_def db_ok_def del: map_append)
qed

lemma db_ok_replace:
  assumes "db_ok s" "map_of (documents s) i = Some r"
  shows "db_ok (s\<lparr>documents := AList.update i r' (documents s)\<rparr>)"
  using assms by (auto simp: db_ok_def AList.distinct_update AList.dom_update)

lemma db_ok_prune:
  assumes "db_ok s" shows "db_ok (prune_log i folded s)"
  using assms by (auto simp: db_ok_def prune_log_def distinct_map_filter)

lemma delete_rows_tables [simp]:
  "fst ` set (documents (delete_rows gone s)) = fst ` set (documents s) - gone"
  "doc_updates (delete_rows gone s) = filter (\<lambda>u. u_doc u \<notin> gone) (doc_updates s)"
  "doc_versions (delete_rows gone s) = filter (\<lambda>v. v_doc v \<notin> gone) (doc_versions s)"
  "next_seq (delete_rows gone s) = next_seq s" "next_version (delete_rows gone s) = next_version s"
  "distinct (map fst (documents s)) \<Longrightarrow> distinct (map fst (documents (delete_rows gone s)))"
  "map_of (documents (delete_rows gone s)) i = (if i \<in> gone then None else map_of (documents s) i)"
proof -
  have "map_of (filter (\<lambda>(i, r). i \<notin> gone) m) i = (if i \<in> gone then None else map_of m i)"
    for m :: "(uuid \<times> document_row) list" by (induction m) auto
  then show "map_of (documents (delete_rows gone s)) i = (if i \<in> gone then None else map_of (documents s) i)"
    by (simp add: delete_rows_def)
qed (force simp: delete_rows_def distinct_map_filter)+

lemma db_ok_delete_rows:
  assumes "db_ok s" shows "db_ok (delete_rows gone s)"
  using assms unfolding db_ok_def by (simp add: distinct_map_filter)

definition put_snapshot :: "uuid \<Rightarrow> nat \<Rightarrow> bytes \<Rightarrow> db \<Rightarrow> db" where
  "put_snapshot i w packed s =
     (if blobs s then s\<lparr>objects := AList.update (snapshotKey i w) packed (objects s)\<rparr> else s)"

definition put_key :: "uuid \<Rightarrow> nat \<Rightarrow> db \<Rightarrow> bytes" where
  "put_key i w s = (if blobs s then snapshotKey i w else [])"

definition compacted :: "failing \<Rightarrow> int \<Rightarrow> uuid \<Rightarrow> nat list \<Rightarrow> bytes \<Rightarrow> int \<Rightarrow> document_row \<Rightarrow> db \<Rightarrow> db" where
  "compacted down now i folded packed codec r s =
     (let w = fold max folded 0; key = put_key i w s;
          s' = prune_log i folded ((put_snapshot i w packed s)\<lparr>documents :=
            AList.update i (write_snapshot now (if key \<noteq> [] then None else Some packed) codec key
              (length packed) w r) (documents s)\<rparr>)
      in if snapshot_key r \<noteq> [] \<and> snapshot_key r \<noteq> key then dropBlob down (snapshot_key r) s' else s')"

lemma snapshotKey_nonempty [simp]: "snapshotKey i w \<noteq> []"
  by (simp add: snapshotKey_def str_def)

lemma Compact_eq:
  assumes "Pack deflate snap = (packed, codec)"
  shows "Compact down deflate now i snap folded s =
    (let w = fold max folded 0; key = put_key i w s; put = put_snapshot i w packed s
     in if folded = [] then (None, s)
        else if down Begin \<or> down Lock \<or> blobs s \<and> down PutObject then (Some DbError, s)
        else case map_of (documents s) i of
          None \<Rightarrow> (Some DbError, put)
        | Some r \<Rightarrow>
            if down (Statement 0) \<or> down (Statement 1) then (Some DbError, put)
            else if w \<le> snapshot_seq r then (Some ErrStaleSnapshot, dropBlob down key put)
            else if down (Statement 2) then (Some DbError, put)
            else if down Commit then (Some DbError, dropBlob down key put)
            else (None, compacted down now i folded packed codec r s))"
  using assms
  by (simp add: Compact_def putBlob_def put_key_def put_snapshot_def compacted_def Let_def
      split: option.split)

lemma put_snapshot_tables [simp]:
  "documents (put_snapshot i w packed s) = documents s" "doc_updates (put_snapshot i w packed s) = doc_updates s"
  "doc_versions (put_snapshot i w packed s) = doc_versions s" "next_seq (put_snapshot i w packed s) = next_seq s"
  "next_version (put_snapshot i w packed s) = next_version s" "blobs (put_snapshot i w packed s) = blobs s"
  "db_ok (put_snapshot i w packed s) = db_ok s"
  by (simp_all add: put_snapshot_def)

lemma db_ok_compacted:
  assumes "db_ok s" "map_of (documents s) i = Some r"
  shows "db_ok (compacted down now i folded packed codec r s)"
proof -
  have "db_ok ((put_snapshot i w packed s)\<lparr>documents := AList.update i r' (documents s)\<rparr>)" for w r'
    using db_ok_replace [of "put_snapshot i w packed s" i r r'] assms by simp
  then show ?thesis by (simp add: compacted_def Let_def db_ok_prune)
qed

lemma db_ok_Compact:
  assumes "db_ok s" shows "db_ok (snd (Compact down deflate now i snap folded s))"
proof -
  obtain packed codec where p: "Pack deflate snap = (packed, codec)" by fastforce
  show ?thesis
    using assms db_ok_compacted [OF assms]
    by (simp add: Compact_eq [OF p] Let_def split: option.split)
qed

lemma db_ok_Delete: "db_ok s \<Longrightarrow> db_ok (snd (Store_Delete down i s))"
  by (auto simp: Store_Delete_def db_ok_delete_rows split: sum.splits)

lemma db_ok_DeleteIdle: "db_ok s \<Longrightarrow> db_ok (snd (DeleteIdle down before s))"
  by (simp add: DeleteIdle_def Let_def db_ok_delete_rows)

lemma db_ok_SetOwner: "db_ok s \<Longrightarrow> db_ok (snd (SetOwner down i owner s))"
  by (simp add: SetOwner_def db_ok_def AList.distinct_map_entry AList.dom_map_entry)

lemma db_ok_Name: "db_ok s \<Longrightarrow> db_ok (snd (Store_Name down i name s))"
  by (simp add: Store_Name_def db_ok_def AList.distinct_map_entry AList.dom_map_entry)

lemma db_ok_PruneVersions: "db_ok s \<Longrightarrow> db_ok (snd (PruneVersions down i keep s))"
  by (auto simp: PruneVersions_def Let_def db_ok_def distinct_map_filter)

lemma db_ok_add_version:
  assumes "db_ok s" "map_of (documents s) (v_doc v) \<noteq> None" "v_id v = next_version s"
  shows "db_ok (s\<lparr>doc_versions := doc_versions s @ [v], next_version := next_version s + 1\<rparr>)"
  using assms unfolding db_ok_def by (auto simp: map_of_eq_None_iff)

definition version_row_of :: "bytes \<Rightarrow> bytes \<Rightarrow> int \<Rightarrow> int \<Rightarrow> uuid \<Rightarrow> Version \<Rightarrow> db \<Rightarrow> version_row" where
  "version_row_of key packed codec now i v s =
     \<lparr>v_doc = i, v_id = next_version s, v_created = now, v_state = StateVector v,
      v_payload = (if key \<noteq> [] then [] else packed), v_codec = codec, v_key = key,
      v_bytes = length packed, v_label = Label v\<rparr>"

definition put_version :: "bytes \<Rightarrow> bytes \<Rightarrow> db \<Rightarrow> db" where
  "put_version key packed s =
     (if blobs s then s\<lparr>objects := AList.update key packed (objects s)\<rparr> else s)"

lemma put_version_tables [simp]:
  "documents (put_version key packed s) = documents s" "doc_updates (put_version key packed s) = doc_updates s"
  "doc_versions (put_version key packed s) = doc_versions s" "next_seq (put_version key packed s) = next_seq s"
  "next_version (put_version key packed s) = next_version s" "blobs (put_version key packed s) = blobs s"
  "db_ok (put_version key packed s) = db_ok s"
  by (simp_all add: put_version_def)

lemma SaveVersion_eq:
  assumes "Pack deflate (verPayload v) = (packed, codec)"
  shows "SaveVersion down deflate rand now i v minAge s =
    (let key = (if blobs s then versionKey rand i else []); put = put_version key packed s
     in if verPayload v = [] then (Inl NeedsPayload, s)
        else if down Begin \<or> down Lock \<or> blobs s \<and> (down Random \<or> down PutObject) then (Inl DbError, s)
        else if down (Statement 0) then (Inl DbError, dropBlob down key put)
        else if map_of (documents s) i = None \<or> says_nothing_new now minAge i (StateVector v) s
        then (if down Commit then Inl DbError else Inr False, dropBlob down key put)
        else if down Commit then (Inl DbError, put)
        else (Inr True, put\<lparr>doc_versions := doc_versions s @ [version_row_of key packed codec now i v s],
               next_version := next_version s + 1\<rparr>))"
  using assms
  by (simp add: SaveVersion_def putVersionBlob_def putBlob_def put_version_def version_row_of_def
      says_nothing_new_def newest_version_def versions_of_def Let_def)

lemma db_ok_SaveVersion:
  assumes "db_ok s" shows "db_ok (snd (SaveVersion down deflate rand now i v minAge s))"
proof -
  obtain packed codec where p: "Pack deflate (verPayload v) = (packed, codec)" by fastforce
  have a: "db_ok ((put_version key packed s)\<lparr>doc_versions := doc_versions s @ [version_row_of key packed codec now i v s],
      next_version := next_version s + 1\<rparr>)" if "map_of (documents s) i \<noteq> None" for key
    using db_ok_add_version [of "put_version key packed s" "version_row_of key packed codec now i v s"] assms that
    by (simp add: version_row_of_def)
  show ?thesis
    using assms a by (simp add: SaveVersion_eq [OF p] Let_def)
qed

end
