(* ===== verification/Database_Blobs.thy ===== *)
theory Database_Blobs
  imports Database
begin

text \<open>
  The object storage beside the tables, from \<open>store/blobs.go\<close> and its callers: \<open>blob_ok\<close> says
  that every row names its object by the key the code derives and that no row names an object which
  is not there. No transaction covers the object storage, so this is an invariant each operation has
  to keep by the order of its steps, whichever of its calls fail. \<open>Compact\<close> keeps it as long as no
  other replica has written a snapshot of the same watermark, and not otherwise.
\<close>

subsection \<open>No row names a missing object\<close>

definition key_ok :: "db \<Rightarrow> bool" where
  "key_ok s \<longleftrightarrow>
     (\<forall>i \<in> fst ` set (documents s). length i = 16)
     \<and> (\<forall>(i, r) \<in> set (documents s). snapshot_key r \<noteq> [] \<longrightarrow> snapshot_key r = snapshotKey i (snapshot_seq r))
     \<and> (\<forall>v \<in> set (doc_versions s). v_key v \<noteq> [] \<longrightarrow> (\<exists>rand. v_key v = versionKey rand (v_doc v)))
     \<and> inj_on v_key {v \<in> set (doc_versions s). v_key v \<noteq> []}"

definition named :: "db \<Rightarrow> bytes set" where
  "named s = (snapshot_key ` snd ` set (documents s) \<union> v_key ` set (doc_versions s)) - {[]}"

definition blob_ok :: "db \<Rightarrow> bool" where
  "blob_ok s \<longleftrightarrow> key_ok s \<and> named s \<subseteq> fst ` set (objects s)"

lemma UUID_String_inj:
  assumes "UUID_String a = UUID_String b" "length a = 16" "length b = 16"
  shows "a = b"
  using ParseUUID_String [OF assms(2)] ParseUUID_String [OF assms(3)] unfolding assms(1) by (metis option.inject)

lemma length_UUID_String: "length u = 16 \<Longrightarrow> length (UUID_String u) = 36"
  by (simp add: UUID_String_def length_slice str_def)

lemma snapshotKey_inj:
  assumes "snapshotKey i v = snapshotKey j w" "length i = 16" "length j = 16"
  shows "i = j"
proof -
  have "UUID_String i @ (str ''/'' @ FormatInt (int v)) = UUID_String j @ (str ''/'' @ FormatInt (int w))"
    using assms(1) by (simp add: snapshotKey_def)
  then have "UUID_String i = UUID_String j"
    using length_UUID_String [OF assms(2)] length_UUID_String [OF assms(3)] append_eq_append_conv by metis
  then show ?thesis using UUID_String_inj assms by blast
qed

lemma snapshotKey_seq:
  assumes "snapshotKey i v = snapshotKey i w" "int v < 2 ^ 63" "int w < 2 ^ 63"
  shows "v = w"
proof -
  have "FormatInt (int v) = FormatInt (int w)" using assms(1) by (simp only: snapshotKey_def same_append_eq)
  moreover have "ParseInt (FormatInt (int v)) = Some (int v)" "ParseInt (FormatInt (int w)) = Some (int w)"
    by (rule ParseInt_FormatInt [OF _ assms(2)], simp, rule ParseInt_FormatInt [OF _ assms(3)], simp)
  ultimately show ?thesis by (metis option.inject of_nat_eq_iff)
qed

lemma snapshot_not_version: "snapshotKey i w \<noteq> versionKey rand j"
proof -
  have "hd (snapshotKey i w) = hd (str ''snapshots/'')" "hd (versionKey rand j) = hd (str ''versions/'')"
    by (simp_all add: snapshotKey_def versionKey_def str_def)
  moreover have "hd (str ''snapshots/'') \<noteq> hd (str ''versions/'')" by code_simp
  ultimately show ?thesis by metis
qed

lemma versionKey_nonempty [simp]: "versionKey rand i \<noteq> []"
  by (simp add: versionKey_def str_def)

lemma dropBlob_objects: "fst ` set (objects s) - {key} \<subseteq> fst ` set (objects (dropBlob down key s))"
  by (auto simp: dropBlob_def AList.delete_eq image_iff)

lemma dropBlobs_objects: "fst ` set (objects s) - set keys \<subseteq> fst ` set (objects (dropBlobs down keys s))"
proof (induction keys arbitrary: s)
  case (Cons key keys)
  show ?case
    using Cons [of "dropBlob down key s"] dropBlob_objects [of s key down]
    unfolding dropBlobs_def fold.simps comp_def set_simps by blast
qed (simp add: dropBlobs_def)

lemma key_okD:
  assumes "key_ok s"
  shows "(i, r) \<in> set (documents s) \<Longrightarrow> length i = 16"
    and "(i, r) \<in> set (documents s) \<Longrightarrow> snapshot_key r \<noteq> [] \<Longrightarrow> snapshot_key r = snapshotKey i (snapshot_seq r)"
    and "v \<in> set (doc_versions s) \<Longrightarrow> v_key v \<noteq> [] \<Longrightarrow> \<exists>rand. v_key v = versionKey rand (v_doc v)"
    and "inj_on v_key {v \<in> set (doc_versions s). v_key v \<noteq> []}"
  using assms unfolding key_ok_def by (force, blast, blast, blast)

lemma key_ok_tables:
  assumes k: "key_ok s" and "set (documents s') \<subseteq> set (documents s)" "set (doc_versions s') \<subseteq> set (doc_versions s)"
  shows "key_ok s'"
  unfolding key_ok_def
proof (intro conjI)
  show "\<forall>i \<in> fst ` set (documents s'). length i = 16" using key_okD(1) [OF k] assms(2) by auto
  show "\<forall>(i, r) \<in> set (documents s'). snapshot_key r \<noteq> [] \<longrightarrow> snapshot_key r = snapshotKey i (snapshot_seq r)"
    using key_okD(2) [OF k] assms(2) by blast
  show "\<forall>v \<in> set (doc_versions s'). v_key v \<noteq> [] \<longrightarrow> (\<exists>rand. v_key v = versionKey rand (v_doc v))"
    using key_okD(3) [OF k] assms(3) by blast
  show "inj_on v_key {v \<in> set (doc_versions s'). v_key v \<noteq> []}"
    by (rule inj_on_subset [OF key_okD(4) [OF k]]) (use assms(3) in blast)
qed

lemma blob_ok_tables:
  assumes "blob_ok s" "set (documents s') \<subseteq> set (documents s)" "set (doc_versions s') \<subseteq> set (doc_versions s)"
    and "fst ` set (objects s) - keys \<subseteq> fst ` set (objects s')" "named s' \<inter> keys = {}"
  shows "blob_ok s'"
proof -
  have "named s' \<subseteq> named s" using assms(2,3) by (force simp: named_def)
  then show ?thesis using assms key_ok_tables unfolding blob_ok_def by blast
qed

lemma blob_ok_same:
  assumes "blob_ok s" "documents s' = documents s" "doc_versions s' = doc_versions s"
    "fst ` set (objects s) - keys \<subseteq> fst ` set (objects s')" "named s \<inter> keys = {}"
  shows "blob_ok s'"
  using blob_ok_tables [OF assms(1), of s' keys] assms by (simp add: named_def)

lemma blob_ok_new_row:
  assumes "blob_ok s" "length i = 16"
  shows "blob_ok (s\<lparr>documents := (i, new_row now owner name) # documents s\<rparr>)"
proof -
  have "named (s\<lparr>documents := (i, new_row now owner name) # documents s\<rparr>) = named s"
    by (auto simp: named_def new_row_def)
  then show ?thesis using assms by (simp add: blob_ok_def key_ok_def new_row_def)
qed

lemma blob_ok_ensureIn:
  assumes "blob_ok s" "length i = 16" "ensureIn down now i name owner s = Inr (found, tx)"
  shows "blob_ok tx"
  using ensureIn_cases [OF assms(3)] blob_ok_new_row [OF assms(1,2)] assms(1) by blast

lemma blob_ok_Ensure:
  assumes "blob_ok s" "length i = 16" shows "blob_ok (snd (Ensure down now i name owner s))"
  using assms blob_ok_ensureIn [OF assms] by (auto simp: Ensure_def split: sum.splits)

lemma blob_ok_load:
  assumes "blob_ok s" "length i = 16"
  shows "blob_ok (snd (load_document down inflate now i name owner any s))"
  using assms(1) blob_ok_ensureIn [OF assms, of down now name owner]
  by (auto simp: load_document_def split: sum.splits if_splits)

lemma blob_ok_Append: "blob_ok s \<Longrightarrow> blob_ok (snd (Store_Append down now i payloads s))"
  by (simp add: Store_Append_def blob_ok_def key_ok_def named_def)

lemma put_snapshot_objects: "fst ` set (objects s) \<subseteq> fst ` set (objects (put_snapshot i w packed s))"
  by (auto simp: put_snapshot_def AList.dom_update)

lemma snapshotKey_named:
  assumes "key_ok s" "db_ok s" "map_of (documents s) i = Some r" "snapshotKey i w \<in> named s"
  shows "snapshot_key r = snapshotKey i w"
proof -
  have l: "length i = 16" using key_okD(1) [OF assms(1) map_of_SomeD [OF assms(3)]] .
  consider j r' where "(j, r') \<in> set (documents s)" "snapshot_key r' = snapshotKey i w"
    | v where "v \<in> set (doc_versions s)" "v_key v = snapshotKey i w"
    using assms(4) by (auto simp: named_def)
  then show ?thesis
  proof cases
    case 1
    then have "snapshotKey j (snapshot_seq r') = snapshotKey i w" "length j = 16"
      using key_okD(1,2) [OF assms(1) 1(1)] by simp_all
    then have "j = i" using snapshotKey_inj l by blast
    then have "map_of (documents s) i = Some r'"
      using 1(1) assms(2) by (simp add: db_ok_def)
    then show ?thesis using assms(3) 1(2) by simp
  next
    case 2
    then obtain rand where "snapshotKey i w = versionKey rand (v_doc v)" 
      using key_okD(3) [OF assms(1) 2(1)] by auto
    then show ?thesis using snapshot_not_version by blast
  qed
qed

lemma set_update:
  assumes "distinct (map fst m)"
  shows "set (AList.update i x m) = insert (i, x) {(j, y) \<in> set m. j \<noteq> i}"
proof -
  have "(j, y) \<in> set (AList.update i x m) \<longleftrightarrow> (j, y) \<in> insert (i, x) {(j, y) \<in> set m. j \<noteq> i}" for j y
    using map_of_eq_Some_iff [OF AList.distinct_update [OF assms], of i x j y] map_of_eq_Some_iff [OF assms, of j y]
    by (auto simp: AList.update_conv' split: if_splits)
  then show ?thesis by auto
qed

lemma blob_ok_put: "blob_ok s \<Longrightarrow> blob_ok (put_snapshot i w packed s)"
  by (rule blob_ok_same [where keys = "{}"]) (use put_snapshot_objects [of s i w packed] in simp_all)

lemma blob_ok_put_drop:
  assumes "blob_ok s" "db_ok s" "map_of (documents s) i = Some r"
    and "blobs s \<Longrightarrow> snapshot_key r \<noteq> snapshotKey i w"
  shows "blob_ok (dropBlob down (put_key i w s) (put_snapshot i w packed s))"
proof (cases "blobs s")
  case True
  then have "snapshotKey i w \<notin> named s"
    using snapshotKey_named [of s i r w] assms by (auto simp: blob_ok_def)
  then show ?thesis
    using True dropBlob_objects [of "put_snapshot i w packed s" "snapshotKey i w" down]
    by (intro blob_ok_same [OF blob_ok_put [OF assms(1)], where keys = "{snapshotKey i w}"])
      (auto simp: put_key_def named_def)
qed (simp add: put_key_def put_snapshot_def dropBlob_def assms(1))

lemma blob_ok_compacted:
  assumes b: "blob_ok s" and d: "db_ok s" and r: "map_of (documents s) i = Some r"
    and "folded \<noteq> []" "snapshot_seq r < fold max folded 0"
  shows "blob_ok (compacted down now i folded packed codec r s)"
proof -
  let ?w = "fold max folded 0"
  let ?key = "put_key i ?w s"
  let ?r = "write_snapshot now (if ?key \<noteq> [] then None else Some packed) codec ?key (length packed) ?w r"
  let ?s = "prune_log i folded ((put_snapshot i ?w packed s)\<lparr>documents := AList.update i ?r (documents s)\<rparr>)"
  have k: "key_ok s" and n: "named s \<subseteq> fst ` set (objects s)" using b by (auto simp: blob_ok_def)
  have i: "(i, r) \<in> set (documents s)" using map_of_SomeD [OF r] .
  have dist: "distinct (map fst (documents s))" using d by (simp add: db_ok_def)
  note docs = set_update [OF dist, of i ?r]
  have kr: "snapshot_key ?r = ?key" "snapshot_seq ?r = ?w" by (simp_all add: write_snapshot_def)
  have t: "documents ?s = AList.update i ?r (documents s)" "doc_versions ?s = doc_versions s"
    "objects ?s = objects (put_snapshot i ?w packed s)"
    by (simp_all add: prune_log_def)
  have ko: "key_ok ?s"
    unfolding key_ok_def t docs
  proof (intro conjI)
    show "\<forall>j \<in> fst ` insert (i, ?r) {(j, y) \<in> set (documents s). j \<noteq> i}. length j = 16"
      using key_okD(1) [OF k] i by auto
    show "\<forall>(j, x) \<in> insert (i, ?r) {(j, y) \<in> set (documents s). j \<noteq> i}.
        snapshot_key x \<noteq> [] \<longrightarrow> snapshot_key x = snapshotKey j (snapshot_seq x)"
      using key_okD(2) [OF k] kr by (auto simp: put_key_def)
  qed (use k in \<open>auto simp: key_ok_def\<close>)
  have nm: "named ?s \<subseteq> insert ?key (named s) - {[]}"
    using kr by (auto simp: named_def t docs)
  have put: "?key \<noteq> [] \<Longrightarrow> ?key \<in> fst ` set (objects (put_snapshot i ?w packed s))"
    by (auto simp: put_key_def put_snapshot_def AList.dom_update split: if_splits)
  then have "named ?s \<subseteq> fst ` set (objects ?s)"
    using nm n put_snapshot_objects [of s i ?w packed] unfolding t(3) by blast
  then have ok: "blob_ok ?s" using ko by (simp add: blob_ok_def)
  have "snapshot_key r \<notin> named ?s" if nz: "snapshot_key r \<noteq> []" "snapshot_key r \<noteq> ?key"
  proof
    assume "snapshot_key r \<in> named ?s"
    then consider j x where "(j, x) \<in> set (documents s)" "j \<noteq> i" "snapshot_key x = snapshot_key r"
      | v where "v \<in> set (doc_versions s)" "v_key v = snapshot_key r"
      using nz kr by (auto simp: named_def t docs)
    then show False
    proof cases
      case 1
      then have "snapshotKey j (snapshot_seq x) = snapshotKey i (snapshot_seq r)"
        using key_okD(2) [OF k 1(1)] key_okD(2) [OF k i] nz by simp
      then show False using snapshotKey_inj key_okD(1) [OF k] 1(1,2) i by blast
    next
      case 2
      then show False using key_okD(3) [OF k 2(1)] key_okD(2) [OF k i] nz snapshot_not_version by metis
    qed
  qed
  then have "blob_ok (dropBlob down (snapshot_key r) ?s)" if "snapshot_key r \<noteq> []" "snapshot_key r \<noteq> ?key"
    using that dropBlob_objects by (intro blob_ok_same [OF ok, where keys = "{snapshot_key r}"]) auto
  then show ?thesis using ok by (simp add: compacted_def Let_def)
qed

lemma blob_ok_Compact:
  assumes "blob_ok s" "db_ok s"
    and fresh: "\<And>r. map_of (documents s) i = Some r \<Longrightarrow> blobs s \<Longrightarrow> snapshot_key r \<noteq> snapshotKey i (fold max folded 0)"
  shows "blob_ok (snd (Compact down deflate now i snap folded s))"
proof -
  obtain packed codec where p: "Pack deflate snap = (packed, codec)" by fastforce
  show ?thesis
    using assms(1) blob_ok_put [OF assms(1)] blob_ok_put_drop [OF assms(1,2) _ fresh]
      blob_ok_compacted [OF assms(1,2)]
    by (simp add: Compact_eq [OF p] Let_def split: option.split)
qed

lemma delete_rows_subset:
  "set (documents (delete_rows gone s)) \<subseteq> set (documents s)" "objects (delete_rows gone s) = objects s"
  by (auto simp: delete_rows_def)

definition names :: "db \<Rightarrow> uuid \<Rightarrow> bytes \<Rightarrow> bool" where
  "names s i k \<longleftrightarrow> k \<noteq> [] \<and> ((\<exists>r. (i, r) \<in> set (documents s) \<and> snapshot_key r = k)
     \<or> (\<exists>v \<in> set (doc_versions s). v_doc v = i \<and> v_key v = k))"

lemma named_names: "k \<in> named s \<longleftrightarrow> (\<exists>i. names s i k)"
  unfolding named_def names_def by (auto simp: image_iff) (metis snd_conv)+

lemma names_doc: "(i, r) \<in> set (documents s) \<Longrightarrow> snapshot_key r \<noteq> [] \<Longrightarrow> names s i (snapshot_key r)"
  by (auto simp: names_def)

lemma names_version: "v \<in> set (doc_versions s) \<Longrightarrow> v_key v \<noteq> [] \<Longrightarrow> names s (v_doc v) (v_key v)"
  by (auto simp: names_def)

lemma names_cases:
  assumes "names s i k" "key_ok s"
  obtains w where "k = snapshotKey i w" "length i = 16"
  | v rand where "v \<in> set (doc_versions s)" "v_doc v = i" "v_key v = k" "k \<noteq> []" "k = versionKey rand i"
proof -
  consider r where "(i, r) \<in> set (documents s)" "snapshot_key r = k" "k \<noteq> []"
    | v where "v \<in> set (doc_versions s)" "v_doc v = i" "v_key v = k" "k \<noteq> []"
    using assms(1) unfolding names_def by blast
  then show thesis
  proof cases
    case (1 r)
    show thesis
      using that(1) [of "snapshot_seq r"] key_okD(2) [OF assms(2) 1(1)] key_okD(1) [OF assms(2) 1(1)] 1 by simp
  next
    case (2 v)
    obtain rand where "v_key v = versionKey rand (v_doc v)" using key_okD(3) [OF assms(2) 2(1)] 2 by blast
    then show thesis using that(2) [of v rand] 2 by simp
  qed
qed

lemma names_owner:
  assumes "key_ok s" "names s i k" "names s j k"
  shows "i = j"
  using assms(2,1)
proof (cases rule: names_cases)
  case (1 w)
  from assms(3,1) show ?thesis
  proof (cases rule: names_cases)
    case (1 w')
    then show ?thesis using snapshotKey_inj [of i w j w'] \<open>k = snapshotKey i w\<close> \<open>length i = 16\<close> by simp
  next
    case (2 v rand)
    then show ?thesis using snapshot_not_version [of i w rand j] 1 by simp
  qed
next
  case (2 v rand)
  note v = this
  from assms(3,1) show ?thesis
  proof (cases rule: names_cases)
    case (1 w)
    then show ?thesis using v snapshot_not_version [of j w rand i] by simp
  next
    case (2 w rand')
    have "v = w" using inj_onD [OF key_okD(4) [OF assms(1)], of v w] v 2 by simp
    then show ?thesis using v 2 by simp
  qed
qed

lemma names_delete_rows: "names (delete_rows gone s) i k \<longleftrightarrow> names s i k \<and> i \<notin> gone"
  by (auto simp: names_def delete_rows_def)

lemma blob_ok_delete:
  assumes "blob_ok s" and "\<And>k. k \<in> set keys \<Longrightarrow> \<exists>i \<in> gone. names s i k"
  shows "blob_ok (dropBlobs down keys (delete_rows gone s))"
proof (rule blob_ok_tables [OF assms(1), where keys = "set keys"])
  have "named (dropBlobs down keys (delete_rows gone s)) = named (delete_rows gone s)"
    by (simp add: named_def)
  then show "named (dropBlobs down keys (delete_rows gone s)) \<inter> set keys = {}"
    using assms names_owner [of s] unfolding blob_ok_def disjoint_iff by (metis named_names names_delete_rows)
  show "fst ` set (objects s) - set keys \<subseteq> fst ` set (objects (dropBlobs down keys (delete_rows gone s)))"
    using dropBlobs_objects [of "delete_rows gone s" keys down] by (simp add: delete_rows_subset)
qed (use delete_rows_subset(1) in auto)

lemma blobKeysFor_names:
  assumes "blobKeysFor down i s = Inr keys" "k \<in> set keys"
  shows "names s i k"
proof -
  have "k \<noteq> [] \<and> ((\<exists>r. map_of (documents s) i = Some r \<and> k = snapshot_key r) \<or> (\<exists>v \<in> set (versions_of i s). k = v_key v))"
    using assms by (auto simp: blobKeysFor_def split: if_splits option.splits)
  then show ?thesis
    using map_of_SomeD [of "documents s" i] by (auto simp: names_def versions_of_def)
qed

lemma blob_ok_Delete:
  assumes "blob_ok s" shows "blob_ok (snd (Store_Delete down i s))"
proof (cases "blobKeysFor down i s")
  case (Inr keys)
  then have "\<exists>j \<in> {i}. names s j k" if "k \<in> set keys" for k
    using that blobKeysFor_names by blast
  from blob_ok_delete [OF assms this, of keys down] show ?thesis
    using assms Inr by (simp add: Store_Delete_def)
qed (simp add: Store_Delete_def assms)

lemma dropBlobs_append: "dropBlobs down ks (dropBlobs down ls s) = dropBlobs down (ls @ ks) s"
  by (simp add: dropBlobs_def)

lemma blob_ok_DeleteIdle:
  assumes "blob_ok s" shows "blob_ok (snd (DeleteIdle down before s))"
proof -
  define gone where "gone = set (idle_ids before s)"
  define sk where "sk = filter (\<lambda>k. k \<noteq> []) (map (\<lambda>(i, r). snapshot_key r) (filter (idle before s) (documents s)))"
  define vk where "vk = (if blobs s
    then map v_key (filter (\<lambda>v. v_key v \<noteq> [] \<and> v_doc v \<in> gone) (doc_versions s)) else [])"
  have "\<exists>i \<in> gone. names s i k" if k: "k \<in> set (sk @ vk)" for k
  proof (cases "k \<in> set sk")
    case True
    then obtain i r where "(i, r) \<in> set (documents s)" "idle before s (i, r)" "k = snapshot_key r" "k \<noteq> []"
      by (auto simp: sk_def)
    then show ?thesis using names_doc [of i r s] by (force simp: idle_ids_def gone_def)
  next
    case False
    then obtain v where "v \<in> set (doc_versions s)" "v_key v = k" "k \<noteq> []" "v_doc v \<in> gone"
      using k by (auto simp: vk_def split: if_splits)
    then show ?thesis using names_version [of v s] by blast
  qed
  from blob_ok_delete [OF assms this, of "sk @ vk" down]
  have "blob_ok (dropBlobs down vk (dropBlobs down sk (delete_rows gone s)))"
    by (simp add: dropBlobs_append)
  then show ?thesis
    using assms by (simp add: DeleteIdle_def Let_def gone_def sk_def vk_def cong: if_cong)
qed

lemma blob_ok_entry:
  assumes "\<And>r. snapshot_key (f r) = snapshot_key r" "\<And>r. snapshot_seq (f r) = snapshot_seq r" "blob_ok s"
  shows "blob_ok (s\<lparr>documents := AList.map_entry i f (documents s)\<rparr>)"
proof -
  have "\<exists>y. (j, y) \<in> set m \<and> snapshot_key x = snapshot_key y \<and> snapshot_seq x = snapshot_seq y"
    if "(j, x) \<in> set (AList.map_entry i f m)" for j x and m :: "(uuid \<times> document_row) list"
    using that assms(1,2) by (induction m) (auto split: if_splits)
  then have origin: "\<exists>y. (j, y) \<in> set (documents s) \<and> snapshot_key x = snapshot_key y \<and> snapshot_seq x = snapshot_seq y"
    if "(j, x) \<in> set (AList.map_entry i f (documents s))" for j x using that by blast
  have k: "key_ok s" and n: "named s \<subseteq> fst ` set (objects s)" using assms(3) by (auto simp: blob_ok_def)
  have "named (s\<lparr>documents := AList.map_entry i f (documents s)\<rparr>) \<subseteq> named s"
  proof
    fix k assume "k \<in> named (s\<lparr>documents := AList.map_entry i f (documents s)\<rparr>)"
    then consider j x where "(j, x) \<in> set (AList.map_entry i f (documents s))" "k = snapshot_key x" "k \<noteq> []"
      | v where "v \<in> set (doc_versions s)" "k = v_key v" "k \<noteq> []"
      by (auto simp: named_def)
    then show "k \<in> named s"
    proof cases
      case (1 j x)
      from origin [OF 1(1)] obtain y where "(j, y) \<in> set (documents s)" "k = snapshot_key y" using 1(2) by auto
      then show ?thesis using 1(3) by (force simp: named_def)
    qed (auto simp: named_def)
  qed
  moreover have "\<forall>(j, x) \<in> set (AList.map_entry i f (documents s)).
      length j = 16 \<and> (snapshot_key x \<noteq> [] \<longrightarrow> snapshot_key x = snapshotKey j (snapshot_seq x))"
    using origin key_okD(1,2) [OF k] by fastforce
  ultimately show ?thesis using k n by (auto simp: blob_ok_def key_ok_def)
qed

lemma blob_ok_SetOwner: "blob_ok s \<Longrightarrow> blob_ok (snd (SetOwner down i owner s))"
  by (simp add: SetOwner_def blob_ok_entry)

lemma blob_ok_Name: "blob_ok s \<Longrightarrow> blob_ok (snd (Store_Name down i name s))"
  by (simp add: Store_Name_def blob_ok_entry)

lemma blob_ok_PruneVersions:
  assumes "blob_ok s" shows "blob_ok (snd (PruneVersions down i keep s))"
proof -
  define goes where "goes = (\<lambda>v :: version_row. v_doc v = i \<and> v_id v \<notin> kept_versions i (nat keep) s)"
  define t where "t = s\<lparr>doc_versions := filter (\<lambda>v. \<not> goes v) (doc_versions s)\<rparr>"
  define keys where "keys = filter (\<lambda>k. k \<noteq> []) (map v_key (filter goes (doc_versions s)))"
  have k: "key_ok s" using assms by (simp add: blob_ok_def)
  have "blob_ok (dropBlobs down keys t)"
  proof (rule blob_ok_tables [OF assms, where keys = "set keys"])
    show "named (dropBlobs down keys t) \<inter> set keys = {}"
    proof (rule ccontr)
      assume "named (dropBlobs down keys t) \<inter> set keys \<noteq> {}"
      then obtain k where "k \<in> named (dropBlobs down keys t)" "k \<in> set keys" by blast
      then have k: "k \<in> named t" and "k \<in> set keys" by (simp_all add: named_def)
      from this(2) obtain v where v: "v \<in> set (doc_versions s)" "goes v" "v_key v = k" "k \<noteq> []"
        by (auto simp: keys_def)
      consider j r where "(j, r) \<in> set (documents s)" "snapshot_key r = k"
        | w where "w \<in> set (doc_versions s)" "\<not> goes w" "v_key w = k"
        using k by (auto simp: named_def t_def)
      then show False
      proof cases
        case (1 j r)
        have "k = snapshotKey j (snapshot_seq r)" using key_okD(2) [OF \<open>key_ok s\<close> 1(1)] 1(2) v(4) by simp
        moreover obtain rand where "k = versionKey rand (v_doc v)"
          using key_okD(3) [OF \<open>key_ok s\<close> v(1)] v(3,4) by blast
        ultimately show False using snapshot_not_version by metis
      next
        case (2 w)
        then have "v = w" using inj_onD [OF key_okD(4) [OF \<open>key_ok s\<close>], of v w] v by simp
        then show False using 2 v by simp
      qed
    qed
    show "fst ` set (objects s) - set keys \<subseteq> fst ` set (objects (dropBlobs down keys t))"
      using dropBlobs_objects [of t keys down] by (simp add: t_def)
  qed (auto simp: t_def)
  then show ?thesis
    using assms by (simp add: PruneVersions_def Let_def goes_def t_def keys_def)
qed

lemma blob_ok_add_version:
  assumes k: "key_ok s" and n: "named s \<subseteq> K" and v: "v_key v \<noteq> [] \<Longrightarrow> v_key v \<notin> named s"
    and r: "v_key v \<noteq> [] \<Longrightarrow> v_key v \<in> K \<and> (\<exists>rand. v_key v = versionKey rand (v_doc v))"
    and t: "documents s' = documents s" "doc_versions s' = doc_versions s @ [v]" "fst ` set (objects s') = K"
  shows "blob_ok s'"
proof -
  have "named s' \<subseteq> insert (v_key v) (named s) - {[]}" by (auto simp: named_def t)
  then have "named s' \<subseteq> fst ` set (objects s')" using n r t(3) by blast
  moreover have "v_key w \<noteq> v_key v" if "w \<in> set (doc_versions s)" "v_key w \<noteq> []" for w
    using that v by (metis DiffI UnI2 empty_iff image_eqI insert_iff named_def)
  then have "inj_on v_key {w \<in> set (doc_versions s'). v_key w \<noteq> []}"
    using key_okD(4) [OF k] unfolding inj_on_def t(2) by auto blast
  moreover have "\<forall>w \<in> set (doc_versions s'). v_key w \<noteq> [] \<longrightarrow> (\<exists>rand. v_key w = versionKey rand (v_doc w))"
    using key_okD(3) [OF k] r by (auto simp: t(2))
  ultimately show ?thesis using k unfolding blob_ok_def key_ok_def t(1) by blast
qed

lemma blob_ok_SaveVersion:
  assumes "blob_ok s" and fresh: "versionKey rand i \<notin> named s"
  shows "blob_ok (snd (SaveVersion down deflate rand now i v minAge s))"
proof -
  obtain packed codec where p: "Pack deflate (verPayload v) = (packed, codec)" by fastforce
  define key where "key = (if blobs s then versionKey rand i else [])"
  have k: "key_ok s" and n: "named s \<subseteq> fst ` set (objects s)" using assms by (auto simp: blob_ok_def)
  have kn: "key \<notin> named s" using fresh by (simp add: key_def named_def)
  have o: "fst ` set (objects s) \<subseteq> fst ` set (objects (put_version key packed s))"
    "key \<noteq> [] \<Longrightarrow> key \<in> fst ` set (objects (put_version key packed s))"
    by (auto simp: put_version_def key_def AList.dom_update)
  have put: "blob_ok (put_version key packed s)"
    by (rule blob_ok_same [OF assms(1), where keys = "{}"]) (use o(1) in simp_all)
  have np: "named (put_version key packed s) = named s" by (simp add: named_def)
  have drop: "blob_ok (dropBlob down key (put_version key packed s))"
    by (rule blob_ok_same [OF put, where keys = "{key}"])
      (use dropBlob_objects [of "put_version key packed s" key down] kn np in simp_all)
  let ?v = "version_row_of key packed codec now i v s"
  let ?s = "(put_version key packed s)\<lparr>doc_versions := doc_versions s @ [?v], next_version := next_version s + 1\<rparr>"
  have v: "v_key ?v = key" "v_doc ?v = i" by (simp_all add: version_row_of_def)
  have "blob_ok ?s"
  proof (rule blob_ok_add_version [OF k, where K = "fst ` set (objects (put_version key packed s))" and v = ?v])
    show "named s \<subseteq> fst ` set (objects (put_version key packed s))" using n o(1) by blast
    show "v_key ?v \<notin> named s" using kn v by simp
    show "v_key ?v \<in> fst ` set (objects (put_version key packed s))
        \<and> (\<exists>rand. v_key ?v = versionKey rand (v_doc ?v))" if "v_key ?v \<noteq> []"
      using that o(2) unfolding v by (metis key_def)
  qed simp_all
  then show ?thesis
    using assms(1) put drop by (simp add: SaveVersion_eq [OF p] Let_def key_def cong: if_cong)
qed

end
