(* ===== verification/Durability.thy ===== *)
theory Durability
  imports Database_Blobs
begin

text \<open>
  What the database promises: \<open>contents\<close> is a document as a reader would find it, its snapshot
  unpacked from wherever the row says it is and the log rows on top of it. The lemmas show what each
  operation does to the contents of every document, whichever of its calls fail, and what follows
  for reading, for owners, for versions and for listings.
\<close>

definition up :: failing where
  "up = (\<lambda>c. False)"

type_synonym contents = "bytes option sres \<times> (nat \<times> bytes) list"

definition row_log :: "uuid \<Rightarrow> db \<Rightarrow> (nat \<times> bytes) list" where
  "row_log i s = map (\<lambda>u. (u_seq u, u_payload u)) (sort_key u_seq (rows_of i s))"

definition contents :: "(bytes \<Rightarrow> bytes option) \<Rightarrow> uuid \<Rightarrow> db \<Rightarrow> contents option" where
  "contents inflate i s =
     map_option (\<lambda>r. (read_snapshot up inflate r s, row_log i s)) (map_of (documents s) i)"

lemma up_simp [simp]: "\<not> up c"
  by (simp add: up_def)

subsection \<open>What leaves the contents alone\<close>

lemma read_snapshot_cong:
  assumes "blobs s' = blobs s" "snapshot_key r \<noteq> [] \<Longrightarrow> map_of (objects s') (snapshot_key r) = map_of (objects s) (snapshot_key r)"
  shows "read_snapshot down inflate r s' = read_snapshot down inflate r s"
  using assms by (auto simp: read_snapshot_def readBlob_def split: option.splits)

lemma read_snapshot_row:
  assumes "snapshot r' = snapshot r" "snapshot_key r' = snapshot_key r" "snapshot_codec r' = snapshot_codec r"
  shows "read_snapshot down inflate r' s = read_snapshot down inflate r s"
  using assms by (simp add: read_snapshot_def)

lemma contents_objects:
  assumes "documents s' = documents s" "doc_updates s' = doc_updates s" "blobs s' = blobs s"
    and "\<And>k. k \<in> named s \<Longrightarrow> map_of (objects s') k = map_of (objects s) k"
  shows "contents inflate i s' = contents inflate i s"
proof (cases "map_of (documents s) i")
  case (Some r)
  have "snapshot_key r \<in> named s" if "snapshot_key r \<noteq> []"
    using that map_of_SomeD [OF Some] by (force simp: named_def)
  then have "read_snapshot up inflate r s' = read_snapshot up inflate r s"
    using assms by (intro read_snapshot_cong) simp_all
  then show ?thesis using assms Some by (simp add: contents_def row_log_def rows_of_def)
qed (simp add: contents_def assms)

lemma dropBlob_map_of:
  "k \<noteq> key \<Longrightarrow> map_of (objects (dropBlob down key s)) k = map_of (objects s) k"
  by (simp add: dropBlob_def AList.delete_conv')

lemma dropBlobs_map_of:
  "k \<notin> set keys \<Longrightarrow> map_of (objects (dropBlobs down keys s)) k = map_of (objects s) k"
proof (induction keys arbitrary: s)
  case (Cons key keys)
  then show ?case using dropBlob_map_of [of k key down s] by (simp add: dropBlobs_def)
qed (simp add: dropBlobs_def)

lemma contents_dropBlob:
  "key \<notin> named s \<Longrightarrow> contents inflate i (dropBlob down key s) = contents inflate i s"
  by (rule contents_objects) (simp_all, metis dropBlob_map_of)

lemma contents_put:
  assumes "snapshotKey j w \<notin> named s"
  shows "contents inflate i (put_snapshot j w packed s) = contents inflate i s"
  using assms by (intro contents_objects) (auto simp: put_snapshot_def AList.update_conv')

lemma contents_put_version:
  assumes "key \<notin> named s"
  shows "contents inflate i (put_version key packed s) = contents inflate i s"
  using assms by (intro contents_objects) (auto simp: put_version_def AList.update_conv')

subsection \<open>Appending\<close>

lemma sort_key_append:
  assumes "sorted (map f ys)" "\<And>x y. x \<in> set xs \<Longrightarrow> y \<in> set ys \<Longrightarrow> f x \<le> f y"
  shows "sort_key f (xs @ ys) = sort_key f xs @ ys"
proof -
  have "insort_key f x (zs @ ys) = insort_key f x zs @ ys" if "\<And>y. y \<in> set ys \<Longrightarrow> f x \<le> f y" for x zs
    using that by (induction zs) (cases ys; simp)+
  then show ?thesis
    using assms(2) by (induction xs) (simp_all add: sorted_sort_id sort_key_id_if_sorted assms(1))
qed

lemma row_log_Append:
  assumes "db_ok s" "map_of (documents s) i \<noteq> None" "\<not> down (Statement 0)"
  shows "row_log j (snd (Store_Append down now i ps s))
    = row_log j s @ (if j = i then zip [next_seq s ..< next_seq s + length ps] ps else [])"
proof (cases "ps = []")
  case False
  let ?u = "update_rows now i (next_seq s) ps"
  have n: "next_seq s \<le> u_seq u" "u_doc u = i" if "u \<in> set ?u" for u
    using update_rows_facts(3) [OF that] by simp_all
  have "filter (\<lambda>u. u_doc u = j) ?u = (if j = i then ?u else [])"
    using n(2) by (auto simp: filter_empty_conv intro: filter_True)
  then have r: "rows_of j (snd (Store_Append down now i ps s)) = rows_of j s @ (if j = i then ?u else [])"
    using False assms by (cases "j = i") (auto simp: Store_Append_def rows_of_def)
  have m: "map (\<lambda>u. (u_seq u, u_payload u)) ?u = zip [next_seq s ..< next_seq s + length ps] ps"
    by (simp add: update_rows_def case_prod_unfold comp_def)
  have "u_seq x \<le> u_seq y" if "x \<in> set (rows_of i s)" "y \<in> set ?u" for x y
    using that(1) n(1) [OF that(2)] assms(1) by (force simp: rows_of_def db_ok_def)
  then have "sort_key u_seq (rows_of i s @ ?u) = sort_key u_seq (rows_of i s) @ ?u"
    by (intro sort_key_append) simp_all
  then show ?thesis using m unfolding row_log_def r by (cases "j = i") simp_all
qed (simp add: Store_Append_def)

lemma contents_Append:
  assumes "db_ok s"
  shows "fst (Store_Append down now i ps s) = Inr seqs \<Longrightarrow>
      contents inflate j (snd (Store_Append down now i ps s)) =
        map_option (\<lambda>(snap, log). (snap, log @ (if j = i then zip seqs ps else []))) (contents inflate j s)"
    and "fst (Store_Append down now i ps s) = Inl er \<Longrightarrow> snd (Store_Append down now i ps s) = s"
proof -
  have r: "read_snapshot up inflate r (snd (Store_Append down now i ps s)) = read_snapshot up inflate r s" for r
    by (rule read_snapshot_cong) (simp_all add: Store_Append_def)
  have d: "documents (snd (Store_Append down now i ps s)) = documents s" by (simp add: Store_Append_def)
  show "contents inflate j (snd (Store_Append down now i ps s)) =
      map_option (\<lambda>(snap, log). (snap, log @ (if j = i then zip seqs ps else []))) (contents inflate j s)"
    if "fst (Store_Append down now i ps s) = Inr seqs"
  proof (cases "ps = []")
    case True
    then show ?thesis by (cases "contents inflate j s") (simp_all add: Store_Append_def)
  next
    case False
    then have "map_of (documents s) i \<noteq> None" "\<not> down (Statement 0)" "seqs = [next_seq s ..< next_seq s + length ps]"
      using that by (auto simp: Store_Append_def split: if_splits)
    then show ?thesis
      using row_log_Append [OF assms, of i down j now ps] r d
      by (cases "map_of (documents s) j") (simp_all add: contents_def)
  qed
  show "fst (Store_Append down now i ps s) = Inl er \<Longrightarrow> snd (Store_Append down now i ps s) = s"
    by (auto simp: Store_Append_def split: if_splits)
qed

subsection \<open>Compacting\<close>

lemma read_compacted:
  assumes "\<forall>z. deflate snap = Some z \<longrightarrow> inflate z = Some snap"
    and "Pack deflate snap = (packed, codec)"
    and "key \<noteq> [] \<Longrightarrow> blobs s \<and> map_of (objects s) key = Some packed"
  shows "read_snapshot up inflate
      (write_snapshot now (if key \<noteq> [] then None else Some packed) codec key stored w r) s = Inr (Some snap)"
proof -
  have "Unpack inflate packed codec = Inr snap"
    using Unpack_Pack(1) [of deflate snap inflate] assms(1,2) by simp
  then show ?thesis
    using assms(3) by (auto simp: read_snapshot_def write_snapshot_def readBlob_def unpack_def)
qed

lemma row_log_filter:
  assumes "doc_updates s' = filter (\<lambda>u. \<not> (u_doc u = i \<and> u_seq u \<in> set folded)) (doc_updates s)"
  shows "row_log j s' = (if j = i then filter (\<lambda>(k, p). k \<notin> set folded) (row_log j s) else row_log j s)"
proof -
  have "rows_of j s' = (if j = i then filter (\<lambda>u. u_seq u \<notin> set folded) (rows_of j s) else rows_of j s)"
    by (auto simp: rows_of_def assms intro: filter_cong)
  then show ?thesis by (auto simp: row_log_def filter_map comp_def filter_sort)
qed

lemma other_key:
  assumes "key_ok s" "map_of (documents s) i = Some r" "map_of (documents s) j = Some r'" "j \<noteq> i"
    "snapshot_key r' \<noteq> []"
  shows "snapshot_key r' \<noteq> snapshot_key r" and "snapshot_key r' \<noteq> snapshotKey i w"
proof -
  have j: "snapshot_key r' = snapshotKey j (snapshot_seq r')" "length j = 16"
    using key_okD(1,2) [OF assms(1) map_of_SomeD [OF assms(3)]] assms(5) by simp_all
  have l: "length i = 16" using key_okD(1) [OF assms(1) map_of_SomeD [OF assms(2)]] .
  then show n: "snapshot_key r' \<noteq> snapshotKey i w" for w
    using snapshotKey_inj [of j _ i w] j assms(4) by auto
  show "snapshot_key r' \<noteq> snapshot_key r"
    using n key_okD(2) [OF assms(1) map_of_SomeD [OF assms(2)]] assms(5) by metis
qed

lemma contents_compacted:
  assumes "blob_ok s" "db_ok s" "map_of (documents s) i = Some r"
    and codec: "\<forall>z. deflate snap = Some z \<longrightarrow> inflate z = Some snap" "Pack deflate snap = (packed, codec)"
  shows "contents inflate j (compacted down now i folded packed codec r s) =
    (if j = i then Some (Inr (Some snap), filter (\<lambda>(k, p). k \<notin> set folded) (row_log i s))
     else contents inflate j s)"
proof -
  define w where "w = fold max folded 0"
  define key where "key = put_key i w s"
  define r' where "r' = write_snapshot now (if key \<noteq> [] then None else Some packed) codec key (length packed) w r"
  define t where "t = compacted down now i folded packed codec r s"
  have td: "documents t = AList.update i r' (documents s)" and tb: "blobs t = blobs s"
    and tu: "doc_updates t = filter (\<lambda>u. \<not> (u_doc u = i \<and> u_seq u \<in> set folded)) (doc_updates s)"
    by (simp_all add: t_def compacted_def Let_def prune_log_def r'_def key_def w_def)
  define t0 where "t0 = prune_log i folded ((put_snapshot i w packed s)\<lparr>documents := AList.update i r' (documents s)\<rparr>)"
  have t: "t = (if snapshot_key r \<noteq> [] \<and> snapshot_key r \<noteq> key then dropBlob down (snapshot_key r) t0 else t0)"
    by (simp add: t_def t0_def compacted_def Let_def r'_def key_def w_def)
  have t0: "map_of (objects t0) k = (if key \<noteq> [] \<and> k = key then Some packed else map_of (objects s) k)" for k
    by (simp add: t0_def prune_log_def put_snapshot_def key_def put_key_def AList.update_conv')
  have to: "map_of (objects t) k = (if key \<noteq> [] \<and> k = key then Some packed else map_of (objects s) k)"
    if "k = key \<or> k \<noteq> snapshot_key r" for k
  proof (cases "snapshot_key r \<noteq> [] \<and> snapshot_key r \<noteq> key")
    case True
    then have "k \<noteq> snapshot_key r" using that by blast
    then show ?thesis using True dropBlob_map_of [of k "snapshot_key r" down t0] by (simp only: t t0 if_True simp_thms)
  qed (simp only: t t0 if_False)
  have kb: "key \<noteq> [] \<Longrightarrow> blobs s" by (simp add: key_def put_key_def split: if_splits)
  note log = row_log_filter [OF tu, of j]
  show ?thesis
  proof (cases "j = i")
    case True
    have "read_snapshot up inflate r' t = Inr (Some snap)"
      unfolding r'_def by (rule read_compacted [OF codec]) (use tb kb to [of key] in simp)
    then show ?thesis
      using True log td by (simp add: contents_def AList.update_conv' flip: t_def)
  next
    case False
    have ok: "snapshot_key x \<noteq> snapshot_key r" "snapshot_key x \<noteq> key"
      if "map_of (documents s) j = Some x" "snapshot_key x \<noteq> []" for x
      using other_key(1) [OF _ assms(3) that(1) False that(2)] other_key(2) [OF _ assms(3) that(1) False that(2), of w]
        assms(1) that(2)
      by (simp_all add: blob_ok_def key_def put_key_def)
    have "read_snapshot up inflate x t = read_snapshot up inflate x s" if x: "map_of (documents s) j = Some x" for x
    proof (rule read_snapshot_cong [OF tb])
      assume "snapshot_key x \<noteq> []"
      then show "map_of (objects t) (snapshot_key x) = map_of (objects s) (snapshot_key x)"
        using ok [OF x] to [of "snapshot_key x"] by (simp only: if_False simp_thms)
    qed
    then show ?thesis
      using False log td by (cases "map_of (documents s) j") (simp_all add: contents_def AList.update_conv' flip: t_def)
  qed
qed

lemma snapshotKey_fresh:
  assumes k: "key_ok s" and "db_ok s" "length i = 16"
    and "\<And>r. map_of (documents s) i = Some r \<Longrightarrow> snapshot_key r \<noteq> snapshotKey i w"
  shows "snapshotKey i w \<notin> named s"
proof
  assume n: "snapshotKey i w \<in> named s"
  show False
  proof (cases "map_of (documents s) i")
    case None
    from n consider j r where "(j, r) \<in> set (documents s)" "snapshot_key r = snapshotKey i w"
      | v where "v \<in> set (doc_versions s)" "v_key v = snapshotKey i w"
      by (auto simp: named_def)
    then show False
    proof cases
      case (1 j r)
      have "snapshotKey i w = snapshotKey j (snapshot_seq r)" using key_okD(2) [OF k 1(1)] 1(2) by simp
      then have "i = j" by (rule snapshotKey_inj [OF _ assms(3) key_okD(1) [OF k 1(1)]])
      then show False using 1(1) None by (force simp: map_of_eq_None_iff)
    next
      case (2 v)
      obtain rand where "v_key v = versionKey rand (v_doc v)" using key_okD(3) [OF k 2(1)] 2(2) by auto
      then show False using 2(2) snapshot_not_version by metis
    qed
  next
    case (Some r)
    then show False using snapshotKey_named [OF k assms(2) Some n] assms(4) by blast
  qed
qed

lemma contents_Compact:
  assumes "blob_ok s" "db_ok s"
    and codec: "\<forall>z. deflate snap = Some z \<longrightarrow> inflate z = Some snap"
    and fresh: "\<And>r. map_of (documents s) i = Some r \<Longrightarrow> blobs s \<Longrightarrow> snapshot_key r \<noteq> snapshotKey i (fold max folded 0)"
    and "length i = 16"
  shows "fst (Compact down deflate now i snap folded s) = None \<Longrightarrow> folded \<noteq> [] \<Longrightarrow>
      contents inflate j (snd (Compact down deflate now i snap folded s)) =
        (if j = i then Some (Inr (Some snap), filter (\<lambda>(k, p). k \<notin> set folded) (row_log i s))
         else contents inflate j s)"
    and "fst (Compact down deflate now i snap folded s) \<noteq> None \<or> folded = [] \<Longrightarrow>
      contents inflate j (snd (Compact down deflate now i snap folded s)) = contents inflate j s"
proof -
  let ?w = "fold max folded 0"
  obtain packed codec where p: "Pack deflate snap = (packed, codec)" by fastforce
  show "contents inflate j (snd (Compact down deflate now i snap folded s)) =
        (if j = i then Some (Inr (Some snap), filter (\<lambda>(k, p). k \<notin> set folded) (row_log i s))
         else contents inflate j s)"
    if ok: "fst (Compact down deflate now i snap folded s) = None" "folded \<noteq> []"
  proof -
    obtain r where r: "map_of (documents s) i = Some r"
      "snd (Compact down deflate now i snap folded s) = compacted down now i folded packed codec r s"
      using ok by (auto simp: Compact_eq [OF p] Let_def split: if_splits option.splits)
    show ?thesis unfolding r(2) by (rule contents_compacted [OF assms(1,2) r(1) codec p])
  qed
  have n: "snapshotKey i ?w \<notin> named s" if "blobs s"
    using snapshotKey_fresh assms(1,2,5) fresh that by (auto simp: blob_ok_def)
  have put: "contents inflate j (put_snapshot i ?w packed s) = contents inflate j s"
    using contents_put [OF n] by (cases "blobs s") (simp_all add: put_snapshot_def)
  have drop: "contents inflate j (dropBlob down (put_key i ?w s) (put_snapshot i ?w packed s)) = contents inflate j s"
  proof (cases "blobs s")
    case True
    then have "put_key i ?w s \<notin> named (put_snapshot i ?w packed s)" using n by (simp add: put_key_def named_def)
    then show ?thesis using contents_dropBlob put by metis
  qed (simp add: put_key_def put_snapshot_def dropBlob_def)
  show "contents inflate j (snd (Compact down deflate now i snap folded s)) = contents inflate j s"
    if "fst (Compact down deflate now i snap folded s) \<noteq> None \<or> folded = []"
    using that put drop by (auto simp: Compact_eq [OF p] Let_def split: option.splits if_splits)
qed

subsection \<open>Deleting\<close>

lemma rows_of_delete: "j \<notin> gone \<Longrightarrow> rows_of j (delete_rows gone s) = rows_of j s"
  by (auto simp: rows_of_def intro: filter_cong)

lemma contents_delete:
  assumes "blob_ok s" and "\<And>k. k \<in> set keys \<Longrightarrow> \<exists>i \<in> gone. names s i k"
  shows "contents inflate j (dropBlobs down keys (delete_rows gone s)) =
    (if j \<in> gone then None else contents inflate j s)"
proof (cases "j \<in> gone \<or> map_of (documents s) j = None")
  case True
  then show ?thesis by (auto simp: contents_def)
next
  case False
  then obtain r where r: "map_of (documents s) j = Some r" by auto
  have "read_snapshot up inflate r (dropBlobs down keys (delete_rows gone s)) = read_snapshot up inflate r s"
  proof (rule read_snapshot_cong)
    assume "snapshot_key r \<noteq> []"
    then have "names s j (snapshot_key r)" using names_doc [OF map_of_SomeD [OF r]] by simp
    then have "snapshot_key r \<notin> set keys"
      using assms(2) names_owner [of s] assms(1) False by (metis blob_ok_def)
    then show "map_of (objects (dropBlobs down keys (delete_rows gone s))) (snapshot_key r)
        = map_of (objects s) (snapshot_key r)"
      by (simp add: dropBlobs_map_of delete_rows_def)
  qed (simp add: delete_rows_def)
  then show ?thesis
    using False r rows_of_delete [of j gone s] by (simp add: contents_def row_log_def rows_of_def)
qed

lemma contents_Delete:
  assumes "blob_ok s"
  shows "contents inflate j (snd (Store_Delete down i s)) =
    (if fst (Store_Delete down i s) = Inr True \<and> j = i then None else contents inflate j s)"
proof (cases "blobKeysFor down i s")
  case (Inr keys)
  have "contents inflate j (dropBlobs down keys (delete_rows {i} s)) = (if j \<in> {i} then None else contents inflate j s)"
    by (rule contents_delete [OF assms]) (use blobKeysFor_names [OF Inr] in blast)
  then show ?thesis using Inr by (cases "j = i") (simp_all add: Store_Delete_def)
qed (simp add: Store_Delete_def)

lemma DeleteIdle_names:
  assumes "k \<in> set (filter (\<lambda>k. k \<noteq> []) (map (\<lambda>(i, r). snapshot_key r) (filter (idle before s) (documents s))))
    \<or> k \<in> set (if blobs s then map v_key (filter (\<lambda>v. v_key v \<noteq> [] \<and> v_doc v \<in> set (idle_ids before s)) (doc_versions s)) else [])"
  shows "\<exists>i \<in> set (idle_ids before s). names s i k"
  using assms
proof
  assume "k \<in> set (filter (\<lambda>k. k \<noteq> []) (map (\<lambda>(i, r). snapshot_key r) (filter (idle before s) (documents s))))"
  then obtain i r where "(i, r) \<in> set (documents s)" "idle before s (i, r)" "k = snapshot_key r" "k \<noteq> []" by auto
  then show ?thesis using names_doc [of i r s] by (force simp: idle_ids_def)
next
  assume "k \<in> set (if blobs s then map v_key (filter (\<lambda>v. v_key v \<noteq> [] \<and> v_doc v \<in> set (idle_ids before s)) (doc_versions s)) else [])"
  then obtain v where "v \<in> set (doc_versions s)" "v_key v = k" "k \<noteq> []" "v_doc v \<in> set (idle_ids before s)"
    by (auto split: if_splits)
  then show ?thesis using names_version [of v s] by blast
qed

lemma contents_DeleteIdle:
  assumes "blob_ok s"
  shows "contents inflate j (snd (DeleteIdle down before s)) =
    (if fst (DeleteIdle down before s) \<noteq> Inl DbError \<and> j \<in> set (idle_ids before s) then None else contents inflate j s)"
proof -
  define sk where "sk = filter (\<lambda>k. k \<noteq> []) (map (\<lambda>(i, r). snapshot_key r) (filter (idle before s) (documents s)))"
  define vk where "vk = (if blobs s
    then map v_key (filter (\<lambda>v. v_key v \<noteq> [] \<and> v_doc v \<in> set (idle_ids before s)) (doc_versions s)) else [])"
  have "contents inflate j (dropBlobs down (sk @ vk) (delete_rows (set (idle_ids before s)) s))
      = (if j \<in> set (idle_ids before s) then None else contents inflate j s)"
    by (rule contents_delete [OF assms]) (use DeleteIdle_names [of _ before s] in \<open>simp add: sk_def vk_def\<close>)
  then show ?thesis
    by (simp add: DeleteIdle_def Let_def dropBlobs_append flip: sk_def vk_def)
qed

subsection \<open>Rows and versions that leave the contents alone\<close>

lemma contents_entry:
  assumes "\<And>r. snapshot (f r) = snapshot r \<and> snapshot_key (f r) = snapshot_key r \<and> snapshot_codec (f r) = snapshot_codec r"
  shows "contents inflate j (s\<lparr>documents := AList.map_entry i f (documents s)\<rparr>) = contents inflate j s"
proof -
  have "read_snapshot up inflate r (s\<lparr>documents := x\<rparr>) = read_snapshot up inflate r s" for r x
    by (rule read_snapshot_cong) simp_all
  then show ?thesis
    using read_snapshot_row [of "f _" _ up inflate s] assms
    by (auto simp: contents_def row_log_def rows_of_def AList.map_of_map_entry split: option.splits)
qed

lemma contents_SetOwner: "contents inflate j (snd (SetOwner down i owner s)) = contents inflate j s"
  by (simp add: SetOwner_def contents_entry)

lemma contents_Name: "contents inflate j (snd (Store_Name down i name s)) = contents inflate j s"
  by (simp add: Store_Name_def contents_entry)

lemma contents_PruneVersions:
  assumes "blob_ok s"
  shows "contents inflate j (snd (PruneVersions down i keep s)) = contents inflate j s"
proof -
  have drop: "contents inflate j (dropBlobs down keys (s\<lparr>doc_versions := vs\<rparr>)) = contents inflate j s"
    if keys: "set keys \<subseteq> v_key ` set (doc_versions s) - {[]}" for keys vs
  proof (cases "map_of (documents s) j")
    case (Some r)
    have "read_snapshot up inflate r (dropBlobs down keys (s\<lparr>doc_versions := vs\<rparr>)) = read_snapshot up inflate r s"
    proof (rule read_snapshot_cong)
      assume "snapshot_key r \<noteq> []"
      then have "snapshot_key r = snapshotKey j (snapshot_seq r)"
        using key_okD(2) [OF _ map_of_SomeD [OF Some]] assms by (simp add: blob_ok_def)
      moreover have "\<exists>rand i. k = versionKey rand i" if "k \<in> set keys" for k
        using that keys key_okD(3) [of s] assms unfolding blob_ok_def by blast
      ultimately have "snapshot_key r \<notin> set keys" using snapshot_not_version by metis
      then show "map_of (objects (dropBlobs down keys (s\<lparr>doc_versions := vs\<rparr>))) (snapshot_key r)
          = map_of (objects s) (snapshot_key r)"
        by (simp add: dropBlobs_map_of)
    qed simp
    then show ?thesis using Some by (simp add: contents_def row_log_def rows_of_def)
  qed (simp add: contents_def)
  then show ?thesis by (auto simp: PruneVersions_def Let_def intro!: drop)
qed

lemma contents_SaveVersion:
  assumes "versionKey rand i \<notin> named s"
  shows "contents inflate j (snd (SaveVersion down deflate rand now i v minAge s)) = contents inflate j s"
proof -
  obtain packed codec where p: "Pack deflate (verPayload v) = (packed, codec)" by fastforce
  define key where "key = (if blobs s then versionKey rand i else [])"
  have kn: "key \<notin> named s" using assms by (simp add: key_def named_def)
  have put: "contents inflate j (put_version key packed s) = contents inflate j s"
    by (rule contents_put_version [OF kn])
  have drop: "contents inflate j (dropBlob down key (put_version key packed s)) = contents inflate j s"
    using contents_dropBlob [of key "put_version key packed s"] kn put by (simp add: named_def)
  have add: "contents inflate j (put_version key packed s\<lparr>doc_versions := vs, next_version := n\<rparr>) = contents inflate j s" for vs n
    unfolding put [symmetric] by (rule contents_objects) simp_all
  show ?thesis
    using put drop add by (simp add: SaveVersion_eq [OF p] Let_def key_def cong: if_cong)
qed

subsection \<open>Opening and reading\<close>

lemma no_row_no_log: "db_ok s \<Longrightarrow> map_of (documents s) i = None \<Longrightarrow> row_log i s = []"
proof -
  assume "db_ok s" "map_of (documents s) i = None"
  then have "rows_of i s = []" by (auto simp: rows_of_def db_ok_def filter_empty_conv map_of_eq_None_iff)
  then show "row_log i s = []" by (simp add: row_log_def)
qed

lemma contents_ensureIn:
  assumes "db_ok s" "ensureIn down now i name owner s = Inr (found, tx)"
  shows "contents inflate j tx = (if j = i \<and> contents inflate i s = None then Some (Inr None, []) else contents inflate j s)"
  using ensureIn_cases [OF assms(2)]
proof (elim disjE exE conjE)
  assume n: "map_of (documents s) i = None" and tx: "tx = s\<lparr>documents := (i, new_row now owner name) # documents s\<rparr>"
  have r: "read_snapshot up inflate r tx = read_snapshot up inflate r s" for r
    by (rule read_snapshot_cong) (simp_all add: tx)
  have l: "row_log j tx = row_log j s" by (simp add: row_log_def rows_of_def tx)
  have "read_snapshot up inflate (new_row now owner name) s = Inr None"
    by (simp add: read_snapshot_def new_row_def)
  then show ?thesis
    using n r l no_row_no_log [OF assms(1) n] by (auto simp: contents_def tx)
qed (simp add: contents_def)

lemma read_snapshot_up: "read_snapshot down inflate r s = Inr x \<Longrightarrow> read_snapshot up inflate r s = Inr x"
  by (auto simp: read_snapshot_def readBlob_def split: if_splits option.splits sum.splits)

lemma read_document_contents:
  assumes "read_document down inflate i any s = Inr doc" "map_of (documents s) i = Some r"
  shows "contents inflate i s = Some (Inr (docSnapshot doc), zip (Seqs doc) (docUpdates doc))"
    and "Owner doc = owner_id r" and "length (Seqs doc) = length (docUpdates doc)"
proof -
  have *: "\<not> down (Statement 2) \<and> \<not> down (Statement 3) \<and> read_snapshot down inflate r s = Inr (docSnapshot doc)
      \<and> Seqs doc = map u_seq (sort_key u_seq (rows_of i s)) \<and> docUpdates doc = map u_payload (sort_key u_seq (rows_of i s))
      \<and> Owner doc = owner_id r"
    using assms by (auto simp: read_document_def Let_def split: if_splits sum.splits)
  then show "Owner doc = owner_id r" "length (Seqs doc) = length (docUpdates doc)" by simp_all
  show "contents inflate i s = Some (Inr (docSnapshot doc), zip (Seqs doc) (docUpdates doc))"
    using * read_snapshot_up [of down inflate r s] assms(2)
    by (simp add: contents_def row_log_def zip_map_map comp_def zip_same_conv_map)
qed

definition owner_of :: "uuid \<Rightarrow> db \<Rightarrow> uuid option" where
  "owner_of i s = map_option owner_id (map_of (documents s) i)"

lemma Load_result:
  assumes "db_ok s" "Load down inflate now i name owner s = (res, s')"
  shows "res = Inr doc \<Longrightarrow> contents inflate i s' = Some (Inr (docSnapshot doc), zip (Seqs doc) (docUpdates doc))
      \<and> length (Seqs doc) = length (docUpdates doc) \<and> Owner doc = owner \<and> owner_of i s' = Some owner
      \<and> owner_of i s \<in> {None, Some owner}"
    and "res = Inl er \<Longrightarrow> s' = s"
    and "contents inflate j s' = contents inflate j s \<or> j = i \<and> contents inflate i s = None \<and> contents inflate i s' = Some (Inr None, [])"
proof -
  have e: "\<exists>tx. ensureIn down now i name owner s = Inr (owner, tx) \<and> read_document down inflate i False tx = Inr doc \<and> s' = tx"
    if "res = Inr doc" for doc
    using assms(2) that by (auto simp: Load_def load_document_def split: if_splits sum.splits)
  show er: "s' = s" if "res = Inl er" for er
    using assms(2) that by (auto simp: Load_def load_document_def split: if_splits sum.splits)
  show "contents inflate i s' = Some (Inr (docSnapshot doc), zip (Seqs doc) (docUpdates doc))
      \<and> length (Seqs doc) = length (docUpdates doc) \<and> Owner doc = owner \<and> owner_of i s' = Some owner
      \<and> owner_of i s \<in> {None, Some owner}" if ok: "res = Inr doc"
  proof -
    obtain tx where tx: "ensureIn down now i name owner s = Inr (owner, tx)"
      "read_document down inflate i False tx = Inr doc" "s' = tx" using e [OF ok] by blast
    obtain r where r: "map_of (documents tx) i = Some r" "owner_id r = owner"
      and o: "owner_of i s \<in> {None, Some owner}"
      using ensureIn_cases [OF tx(1)] by (auto simp: owner_of_def new_row_def)
    show ?thesis
      using read_document_contents [OF tx(2) r(1)] r o tx(3) by (simp add: owner_of_def)
  qed
  show "contents inflate j s' = contents inflate j s \<or> j = i \<and> contents inflate i s = None \<and> contents inflate i s' = Some (Inr None, [])"
  proof (cases res)
    case (Inr doc)
    then obtain tx where "ensureIn down now i name owner s = Inr (owner, tx)" "s' = tx" using e by blast
    then show ?thesis using contents_ensureIn [OF assms(1), of down now i name owner owner tx inflate] by auto
  qed (use er in blast)
qed

lemma Load_wrong_owner:
  assumes "owner_of i s = Some o'" "o' \<noteq> owner"
  shows "\<exists>er. Load down inflate now i name owner s = (Inl er, s)"
    and "down = up \<Longrightarrow> Load down inflate now i name owner s = (Inl (ErrWrongOwner name), s)"
  using assms by (auto simp: Load_def load_document_def ensureIn_def Let_def owner_of_def split: if_splits)

lemma Load_up:
  assumes "map_of (documents s) i = Some r" "read_snapshot up inflate r s = Inr x" "owner_id r = owner"
  shows "\<exists>doc. Load up inflate now i name owner s = (Inr doc, s)"
  using assms by (auto simp: Load_def load_document_def ensureIn_def read_document_def Let_def)

lemma LoadAny_result:
  "snd (LoadAny down inflate now i s) = s"
  "fst (LoadAny down inflate now i s) = Inr doc \<Longrightarrow>
     (case contents inflate i s of
        None \<Rightarrow> doc = no_document
      | Some c \<Rightarrow> c = (Inr (docSnapshot doc), zip (Seqs doc) (docUpdates doc)) \<and> owner_of i s = Some (Owner doc))"
proof -
  show "snd (LoadAny down inflate now i s) = s"
    by (auto simp: LoadAny_def load_document_def split: sum.splits)
  assume a: "fst (LoadAny down inflate now i s) = Inr doc"
  then have d: "read_document down inflate i True s = Inr doc"
    by (auto simp: LoadAny_def load_document_def split: sum.splits if_splits)
  show "case contents inflate i s of None \<Rightarrow> doc = no_document
      | Some c \<Rightarrow> c = (Inr (docSnapshot doc), zip (Seqs doc) (docUpdates doc)) \<and> owner_of i s = Some (Owner doc)"
  proof (cases "map_of (documents s) i")
    case None
    then show ?thesis using d by (auto simp: contents_def read_document_def split: if_splits)
  next
    case (Some r)
    then show ?thesis using read_document_contents [OF d Some] by (simp add: owner_of_def)
  qed
qed

subsection \<open>Any sequence of operations\<close>

datatype db_op =
    Op_Ensure int uuid bytes uuid
  | Op_Load int uuid bytes uuid
  | Op_Append int uuid "bytes list"
  | Op_Compact int uuid bytes "nat list"
  | Op_Delete uuid
  | Op_DeleteIdle int
  | Op_SaveVersion bytes int uuid Version int
  | Op_PruneVersions uuid int
  | Op_SetOwner uuid uuid
  | Op_Name uuid bytes

fun run_op :: "(bytes \<Rightarrow> bytes option) \<Rightarrow> (bytes \<Rightarrow> bytes option) \<Rightarrow> failing \<Rightarrow> db_op \<Rightarrow> db \<Rightarrow> db" where
  "run_op deflate inflate down (Op_Ensure now i name owner) s = snd (Ensure down now i name owner s)"
| "run_op deflate inflate down (Op_Load now i name owner) s = snd (Load down inflate now i name owner s)"
| "run_op deflate inflate down (Op_Append now i ps) s = snd (Store_Append down now i ps s)"
| "run_op deflate inflate down (Op_Compact now i snap folded) s = snd (Compact down deflate now i snap folded s)"
| "run_op deflate inflate down (Op_Delete i) s = snd (Store_Delete down i s)"
| "run_op deflate inflate down (Op_DeleteIdle before) s = snd (DeleteIdle down before s)"
| "run_op deflate inflate down (Op_SaveVersion rand now i v minAge) s = snd (SaveVersion down deflate rand now i v minAge s)"
| "run_op deflate inflate down (Op_PruneVersions i keep) s = snd (PruneVersions down i keep s)"
| "run_op deflate inflate down (Op_SetOwner i owner) s = snd (SetOwner down i owner s)"
| "run_op deflate inflate down (Op_Name i name) s = snd (Store_Name down i name s)"

definition watermark_free :: "uuid \<Rightarrow> nat list \<Rightarrow> db \<Rightarrow> bool" where
  "watermark_free i folded s =
     (case map_of (documents s) i of
        None \<Rightarrow> True
      | Some r \<Rightarrow> \<not> blobs s \<or> snapshot_key r \<noteq> snapshotKey i (fold max folded 0))"

definition key_free :: "bytes \<Rightarrow> db \<Rightarrow> bool" where
  "key_free key s = (list_all (\<lambda>(i, r). snapshot_key r \<noteq> key) (documents s) \<and> list_all (\<lambda>v. v_key v \<noteq> key) (doc_versions s))"

lemma watermark_freeD:
  "watermark_free i folded s \<Longrightarrow> map_of (documents s) i = Some r \<Longrightarrow> blobs s \<Longrightarrow> snapshot_key r \<noteq> snapshotKey i (fold max folded 0)"
  by (simp add: watermark_free_def)

lemma key_freeD: "key_free key s \<Longrightarrow> key \<notin> named s"
  by (auto simp: key_free_def named_def list_all_iff)

fun op_ok :: "db_op \<Rightarrow> db \<Rightarrow> bool" where
  "op_ok (Op_Ensure now i name owner) s = (length i = 16)"
| "op_ok (Op_Load now i name owner) s = (length i = 16)"
| "op_ok (Op_Compact now i snap folded) s = (length i = 16 \<and> watermark_free i folded s)"
| "op_ok (Op_SaveVersion rand now i v minAge) s = key_free (versionKey rand i) s"
| "op_ok _ s = True"

inductive reachable_db :: "(bytes \<Rightarrow> bytes option) \<Rightarrow> (bytes \<Rightarrow> bytes option) \<Rightarrow> db \<Rightarrow> bool"
  for deflate inflate where
  start: "reachable_db deflate inflate Open"
| start_blobs: "reachable_db deflate inflate (UseBlobs Open)"
| step: "reachable_db deflate inflate s \<Longrightarrow> op_ok op s \<Longrightarrow> reachable_db deflate inflate (run_op deflate inflate down op s)"

lemma db_ok_run: "db_ok s \<Longrightarrow> db_ok (run_op deflate inflate down op s)"
  by (cases op) (simp_all add: db_ok_Ensure db_ok_load Load_def db_ok_Append db_ok_Compact db_ok_Delete
      db_ok_DeleteIdle db_ok_SaveVersion db_ok_PruneVersions db_ok_SetOwner db_ok_Name)

lemma blob_ok_run:
  assumes "db_ok s" "blob_ok s" "op_ok op s"
  shows "blob_ok (run_op deflate inflate down op s)"
proof (cases op)
  case (Op_Compact now i snap folded)
  then show ?thesis
    using blob_ok_Compact [OF assms(2,1), of i folded] watermark_freeD [of i folded s] assms(3) by simp
next
  case (Op_SaveVersion rand now i v minAge)
  then show ?thesis using blob_ok_SaveVersion [OF assms(2) key_freeD] assms(3) by simp
qed (use assms in \<open>simp_all add: blob_ok_Ensure blob_ok_load Load_def blob_ok_Append blob_ok_Delete blob_ok_DeleteIdle
    blob_ok_PruneVersions blob_ok_SetOwner blob_ok_Name\<close>)

definition codec_ok :: "(bytes \<Rightarrow> bytes option) \<Rightarrow> (bytes \<Rightarrow> bytes option) \<Rightarrow> bool" where
  "codec_ok deflate inflate \<longleftrightarrow> (\<forall>b z. deflate b = Some z \<longrightarrow> inflate z = Some b)"

definition readable :: "(bytes \<Rightarrow> bytes option) \<Rightarrow> db \<Rightarrow> bool" where
  "readable inflate s \<longleftrightarrow> (\<forall>i snap log. contents inflate i s = Some (snap, log) \<longrightarrow> (\<exists>b. snap = Inr b))"

lemma contents_Ensure:
  assumes "db_ok s"
  shows "contents inflate j (snd (Ensure down now i name owner s)) = contents inflate j s
    \<or> j = i \<and> contents inflate i s = None \<and> contents inflate i (snd (Ensure down now i name owner s)) = Some (Inr None, [])"
proof (cases "ensureIn down now i name owner s")
  case (Inr p)
  then obtain found tx where p: "ensureIn down now i name owner s = Inr (found, tx)" by (cases p) auto
  then show ?thesis using contents_ensureIn [OF assms p, of inflate] by (auto simp: Ensure_def)
qed (simp add: Ensure_def)

lemma readable_run:
  assumes "db_ok s" "blob_ok s" "op_ok op s" "codec_ok deflate inflate" "readable inflate s"
  shows "readable inflate (run_op deflate inflate down op s)"
  unfolding readable_def
proof (intro allI impI)
  fix j snap log
  assume c: "contents inflate j (run_op deflate inflate down op s) = Some (snap, log)"
  have old: "\<exists>b. snap = Inr b" if "contents inflate j s = Some (snap, l)" for l
    using that assms(5) unfolding readable_def by blast
  have same: "\<exists>b. snap = Inr b" if "contents inflate j (run_op deflate inflate down op s) = contents inflate j s"
    using that c old by metis
  show "\<exists>b. snap = Inr b"
  proof (cases op)
    case (Op_Ensure now i name owner)
    then show ?thesis using contents_Ensure [OF assms(1), of inflate j down now i name owner] c same by auto
  next
    case (Op_Load now i name owner)
    obtain res s' where "Load down inflate now i name owner s = (res, s')" by fastforce
    then show ?thesis using Load_result(3) [OF assms(1), of down inflate now i name owner res s' j] c same Op_Load by auto
  next
    case (Op_Append now i ps)
    then show ?thesis
      using contents_Append(1) [OF assms(1), of down now i ps _ inflate j] contents_Append(2) [OF assms(1), of down now i ps] c old same
      by (cases "fst (Store_Append down now i ps s)") auto
  next
    case (Op_Compact now i snap' folded)
    have "contents inflate j (snd (Compact down deflate now i snap' folded s)) = contents inflate j s
      \<or> contents inflate j (snd (Compact down deflate now i snap' folded s))
        = Some (Inr (Some snap'), filter (\<lambda>(k, p). k \<notin> set folded) (row_log i s))"
      using contents_Compact [OF assms(2,1), of deflate snap' inflate i folded down now j]
        watermark_freeD [of i folded s] assms(3,4) Op_Compact
      by (cases "fst (Compact down deflate now i snap' folded s) = None \<and> folded \<noteq> []")
        (auto simp: codec_ok_def split: if_splits)
    then show ?thesis using c same Op_Compact by auto
  next
    case (Op_Delete i)
    then show ?thesis using contents_Delete [OF assms(2), of inflate j down i] c same by (auto split: if_splits)
  next
    case (Op_DeleteIdle before)
    then show ?thesis using contents_DeleteIdle [OF assms(2), of inflate j down before] c same by (auto split: if_splits)
  next
    case (Op_SaveVersion rand now i v minAge)
    then show ?thesis using contents_SaveVersion [OF key_freeD, of rand i s] assms(3) same by auto
  next
    case (Op_PruneVersions i keep)
    then show ?thesis using contents_PruneVersions [OF assms(2)] same by auto
  qed (use same contents_SetOwner contents_Name in auto)
qed

lemma reachable_db_ok:
  assumes "codec_ok deflate inflate" "reachable_db deflate inflate s"
  shows "db_ok s \<and> blob_ok s \<and> readable inflate s"
  using assms(2)
proof induction
  case (step s op down)
  then show ?case using db_ok_run blob_ok_run readable_run assms(1) by blast
qed (auto simp: db_ok_def blob_ok_def key_ok_def named_def readable_def contents_def Open_def UseBlobs_def)

subsection \<open>Listings\<close>

fun pages :: "nat \<Rightarrow> (bytes \<Rightarrow> bytes) \<Rightarrow> ListRequest \<Rightarrow> db \<Rightarrow> Listing list" where
  "pages 0 collate req s = []"
| "pages (Suc n) collate req s =
     (case Store_List up collate req s of
        Inl er \<Rightarrow> []
      | Inr page \<Rightarrow>
          Documents page @
          (if Next page = [] then []
           else case ParseCursor (Next page) of
             None \<Rightarrow> []
           | Some c \<Rightarrow> pages n collate (req\<lparr>After := c\<rparr>) s))"

definition cursor_key :: "(bytes \<Rightarrow> bytes) \<Rightarrow> Cursor \<Rightarrow> bytes \<times> uuid" where
  "cursor_key collate c = (collate (curName c), curID c)"

lemma listed_after:
  assumes "cursor_key collate (After req) \<le> cursor_key collate c"
  shows "listed collate (req\<lparr>After := c\<rparr>) s = filter (\<lambda>l. cursor_key collate c < list_key collate l) (listed collate req s)"
proof -
  have "filter (\<lambda>l. (AllOwners req \<or> lsOwner l = reqOwner req) \<and> cursor_key collate c < list_key collate l) xs
      = filter (\<lambda>l. cursor_key collate c < list_key collate l)
          (filter (\<lambda>l. (AllOwners req \<or> lsOwner l = reqOwner req) \<and> cursor_key collate (After req) < list_key collate l) xs)"
    for xs using assms by (auto intro!: filter_cong)
  then show ?thesis by (simp only: listed_def filter_sort cursor_key_def) simp
qed

lemma listed_sorted:
  assumes "db_ok s"
  shows "sorted_wrt (<) (map (list_key collate) (listed collate req s))"
proof -
  have "distinct (map lsID (map (listing s) (documents s)))"
    using assms by (simp add: db_ok_def comp_def listing_def case_prod_unfold)
  then have "distinct (map lsID (listed collate req s))"
    unfolding listed_def by (simp add: distinct_map distinct_map_filter inj_on_def) blast
  then have "distinct (map snd (map (list_key collate) (listed collate req s)))"
    by (simp add: list_key_def comp_def)
  then have "distinct (map (list_key collate) (listed collate req s))" using distinct_map by blast
  moreover have "sorted (map (list_key collate) (listed collate req s))" by (simp add: listed_def)
  ultimately show ?thesis by (simp only: strict_sorted_iff)
qed

lemma filter_beyond:
  fixes f :: "'a \<Rightarrow> 'b :: linorder"
  assumes "sorted_wrt (<) (map f xs)" "n < length xs"
  shows "filter (\<lambda>x. f (xs ! n) < f x) xs = drop (Suc n) xs"
proof -
  have lt: "f (xs ! i) < f (xs ! j)" if "i < j" "j < length xs" for i j
    using sorted_wrt_nth_less [OF assms(1), of i j] that by simp
  have "filter (\<lambda>x. f (xs ! n) < f x) (take (Suc n) xs) = []"
  proof -
    have "\<not> f (xs ! n) < f x" if x: "x \<in> set (take (Suc n) xs)" for x
    proof -
      obtain i where "i < Suc n" "x = xs ! i" using x assms(2) by (auto simp: in_set_conv_nth)
      then show ?thesis using lt [of i n] assms(2) by (cases "i = n") (auto simp: less_Suc_eq)
    qed
    then show ?thesis by (simp add: filter_empty_conv)
  qed
  moreover have "filter (\<lambda>x. f (xs ! n) < f x) (drop (Suc n) xs) = drop (Suc n) xs"
  proof (rule filter_True)
    show "\<forall>x \<in> set (drop (Suc n) xs). f (xs ! n) < f x"
      using lt [of n] by (auto simp: in_set_conv_nth)
  qed
  ultimately show ?thesis by (metis append_self_conv2 append_take_drop_id filter_append)
qed

lemma list_limit_pos: "0 < list_limit n"
  by (simp add: list_limit_def Let_def DefaultListLimit_def MaxListLimit_def)

lemma in_listed:
  assumes "l \<in> set (listed collate req s)"
  shows "\<exists>r. (lsID l, r) \<in> set (documents s) \<and> lsName l = doc_name r \<and> cursor_key collate (After req) < list_key collate l"
  using assms by (auto simp: listed_def listing_def cursor_key_def)

lemma pages_listed:
  assumes "db_ok s" and names: "\<forall>(i, r) \<in> set (documents s). 47 \<notin> set (doc_name r) \<and> length i = 16"
    and "length (listed collate req s) < n"
  shows "pages n collate req s = listed collate req s"
  using assms(3)
proof (induction n arbitrary: req)
  case (Suc n)
  define L where "L = listed collate req s"
  define m where "m = list_limit (reqLimit req)"
  have m: "0 < m" by (simp add: m_def list_limit_pos)
  show ?case
  proof (cases "m < length L")
    case False
    then show ?thesis by (simp add: Store_List_def Let_def flip: L_def m_def)
  next
    case True
    define l where "l = L ! (m - 1)"
    define c where "c = \<lparr>curName = lsName l, curID = lsID l\<rparr>"
    have "l \<in> set L" using True m by (simp add: l_def)
    from in_listed [OF this [unfolded L_def]] obtain r where
      r: "(lsID l, r) \<in> set (documents s)" "lsName l = doc_name r" "cursor_key collate (After req) < list_key collate l" by blast
    have key: "cursor_key collate c = list_key collate l" by (simp add: cursor_key_def list_key_def c_def)
    have p: "ParseCursor (Cursor_String c) = Some c"
      using names r(1,2) by (intro ParseCursor_String) (auto simp: c_def)
    then have ne: "Cursor_String c \<noteq> []" by (auto simp: Cursor_String_def str_def)
    have rest: "listed collate (req\<lparr>After := c\<rparr>) s = drop m L"
    proof -
      have "listed collate (req\<lparr>After := c\<rparr>) s = filter (\<lambda>x. list_key collate l < list_key collate x) L"
        using listed_after [of collate req c s] r(3) key by (simp add: L_def)
      also have "\<dots> = drop (Suc (m - 1)) L"
        unfolding l_def by (rule filter_beyond) (use listed_sorted [OF assms(1)] True m in \<open>auto simp: L_def\<close>)
      finally show ?thesis using m by simp
    qed
    have "Store_List up collate req s = Inr \<lparr>Documents = take m L, Next = Cursor_String c\<rparr>"
      using True m by (simp add: Store_List_def Let_def c_def l_def min_def flip: L_def m_def)
    moreover have "pages n collate (req\<lparr>After := c\<rparr>) s = drop m L"
      using Suc.IH [of "req\<lparr>After := c\<rparr>"] Suc.prems rest m True by (simp add: L_def)
    ultimately show ?thesis using p ne by (simp flip: L_def)
  qed
qed simp

subsection \<open>Versions\<close>

lemma sort_key_last:
  assumes "\<And>x. x \<in> set xs \<Longrightarrow> f x \<le> f v"
  shows "sort_key f (xs @ [v]) = sort_key f xs @ [v]"
  by (rule sort_key_append) (use assms in auto)

lemma saved_version:
  assumes "db_ok s" "codec_ok deflate inflate" "SaveVersion down deflate rand now i v minAge s = (Inr True, s')"
  shows "LoadVersion up inflate i (next_version s) s' =
      Inr \<lparr>verID = next_version s, CreatedAt = now, StateVector = StateVector v, Label = Label v,
           verBytes = length (verPayload v), verPayload = verPayload v\<rparr>"
    and "map_option v_id (newest_version i s') = Some (next_version s)"
    and "newest_version i s = Some w \<Longrightarrow> v_created w \<le> now - minAge \<and> v_state w \<noteq> StateVector v"
    and "map v_id (versions_of i s') = map v_id (versions_of i s) @ [next_version s]"
proof -
  obtain packed codec where p: "Pack deflate (verPayload v) = (packed, codec)" by fastforce
  define key where "key = (if blobs s then versionKey rand i else [])"
  define row where "row = version_row_of key packed codec now i v s"
  have s': "s' = (put_version key packed s)\<lparr>doc_versions := doc_versions s @ [row], next_version := next_version s + 1\<rparr>"
    and n: "\<not> says_nothing_new now minAge i (StateVector v) s"
    using assms(3) by (auto simp: SaveVersion_eq [OF p] Let_def key_def row_def split: if_splits)
  have row: "v_doc row = i" "v_id row = next_version s" "v_key row = key" "v_codec row = codec"
    "v_payload row = (if key \<noteq> [] then [] else packed)" "v_created row = now" "v_state row = StateVector v" "v_label row = Label v"
    by (simp_all add: row_def version_row_of_def)
  have vs: "versions_of i s' = versions_of i s @ [row]" by (simp add: versions_of_def s' row)
  have old: "v_id x < next_version s" if "x \<in> set (versions_of i s)" for x
    using that assms(1) by (auto simp: versions_of_def db_ok_def)
  have find: "find (\<lambda>x. v_id x = next_version s) (versions_of i s') = Some row"
  proof -
    have "find P (xs @ [y]) = Some y" if "\<forall>x \<in> set xs. \<not> P x" "P y" for P and xs :: "version_row list" and y
      using that by (induction xs) auto
    from this [of "versions_of i s" "\<lambda>x. v_id x = next_version s" row] show ?thesis
      using old row vs by fastforce
  qed
  have "Unpack inflate packed codec = Inr (verPayload v)"
    using Unpack_Pack(1) [of deflate "verPayload v" inflate] assms(2) p by (simp add: codec_ok_def)
  then have "readBlob up inflate (v_key row) (v_payload row) (v_codec row) s' = Inr (verPayload v)"
    using row by (simp add: readBlob_def unpack_def s' put_version_def key_def AList.update_conv')
  then show "LoadVersion up inflate i (next_version s) s' =
      Inr \<lparr>verID = next_version s, CreatedAt = now, StateVector = StateVector v, Label = Label v,
           verBytes = length (verPayload v), verPayload = verPayload v\<rparr>"
    using find row by (simp add: LoadVersion_def)
  have "sort_key v_id (versions_of i s @ [row]) = sort_key v_id (versions_of i s) @ [row]"
    by (rule sort_key_last) (use old row(2) in \<open>force intro: less_imp_le\<close>)
  then show "map_option v_id (newest_version i s') = Some (next_version s)"
    by (simp add: newest_version_def vs row)
  show "v_created w \<le> now - minAge \<and> v_state w \<noteq> StateVector v" if "newest_version i s = Some w"
    using n that by (simp add: says_nothing_new_def)
  show "map v_id (versions_of i s') = map v_id (versions_of i s) @ [next_version s]"
    by (simp add: vs row)
qed

lemma PruneVersions_result:
  assumes "db_ok s" "PruneVersions down i keep s = (Inr n, s')" "0 < keep"
  shows "length (versions_of i s') = min (nat keep) (length (versions_of i s))"
    and "length (versions_of i s') + n = length (versions_of i s)"
    and "set (versions_of i s') \<subseteq> set (versions_of i s)"
    and "v \<in> set (versions_of i s') \<Longrightarrow> w \<in> set (versions_of i s) - set (versions_of i s') \<Longrightarrow> v_id w < v_id v"
    and "j \<noteq> i \<Longrightarrow> versions_of j s' = versions_of j s"
proof -
  define kept where "kept = kept_versions i (nat keep) s"
  define ids where "ids = rev (sort (map v_id (versions_of i s)))"
  have kept: "kept = set (take (nat keep) ids)" by (simp add: kept_def kept_versions_def ids_def)
  have s': "doc_versions s' = filter (\<lambda>v. \<not> (v_doc v = i \<and> v_id v \<notin> kept)) (doc_versions s)"
    and n: "n = length (filter (\<lambda>v. v_doc v = i \<and> v_id v \<notin> kept) (doc_versions s))"
    using assms(2,3) by (auto simp: PruneVersions_def Let_def kept_def split: if_splits)
  have vs: "versions_of i s' = filter (\<lambda>v. v_id v \<in> kept) (versions_of i s)"
    by (auto simp: versions_of_def s' intro: filter_cong)
  have d: "distinct (map v_id (versions_of i s))"
    using assms(1) by (simp add: db_ok_def versions_of_def distinct_map_filter)
  have di: "distinct ids" "set ids = v_id ` set (versions_of i s)" "length ids = length (versions_of i s)"
    using d by (simp_all add: ids_def)
  have sd: "ids ! b < ids ! a" if "a < b" "b < length ids" for a b
  proof -
    have "sorted_wrt (>) ids"
      using d by (simp add: ids_def sorted_wrt_rev strict_sorted_iff)
    then show ?thesis using sorted_wrt_nth_less [of "(>)" ids a b] that by simp
  qed
  show "set (versions_of i s') \<subseteq> set (versions_of i s)" by (auto simp: vs)
  have "distinct (map v_id (versions_of i s'))" using d by (simp add: vs distinct_map_filter)
  then have "length (versions_of i s') = card (v_id ` set (versions_of i s'))"
    using distinct_card [of "map v_id (versions_of i s')"] by simp
  also have "v_id ` set (versions_of i s') = kept"
    using di(2) set_take_subset [of "nat keep" ids] by (auto simp: vs kept)
  also have "card kept = min (nat keep) (length (versions_of i s))"
    using di by (simp add: kept distinct_card min_def)
  finally show "length (versions_of i s') = min (nat keep) (length (versions_of i s))" .
  have "n = length (filter (\<lambda>v. v_id v \<notin> kept) (versions_of i s))"
    by (simp add: n versions_of_def conj_commute)
  then show "length (versions_of i s') + n = length (versions_of i s)"
    using sum_length_filter_compl [of "\<lambda>v. v_id v \<in> kept" "versions_of i s"] by (simp add: vs)
  show "v_id w < v_id v" if "v \<in> set (versions_of i s')" "w \<in> set (versions_of i s) - set (versions_of i s')"
  proof -
    have "v_id v \<in> set (take (nat keep) ids)" "v_id w \<in> set ids" "v_id w \<notin> set (take (nat keep) ids)"
      using that di(2) by (auto simp: vs kept)
    then obtain a b where "a < nat keep" "a < length ids" "v_id v = ids ! a" "b < length ids" "v_id w = ids ! b" "\<not> b < nat keep"
      by (auto simp: in_set_conv_nth) metis
    then show ?thesis using sd [of a b] by simp
  qed
  show "versions_of j s' = versions_of j s" if "j \<noteq> i"
    using that by (auto simp: versions_of_def s' intro: filter_cong)
qed

subsection \<open>Owners\<close>

lemma owner_run:
  assumes "owner_of j s = Some o1" "owner_of j (run_op deflate inflate down op s) = Some o2"
    and "\<And>owner. op \<noteq> Op_SetOwner j owner"
  shows "o2 = o1"
proof -
  obtain r where r: "map_of (documents s) j = Some r" "owner_id r = o1"
    using assms(1) by (auto simp: owner_of_def)
  have e: "map_of (documents tx) j = Some r" if "ensureIn down now i name owner s = Inr (found, tx)" for now i name owner found tx
    using ensureIn_cases [OF that] r by auto
  have "owner_of j (run_op deflate inflate down op s) \<in> {None, Some o1}"
  proof (cases op)
    case (Op_Ensure now i name owner)
    then show ?thesis using r e by (auto simp: owner_of_def Ensure_def split: sum.splits)
  next
    case (Op_Load now i name owner)
    then show ?thesis using r e [of now i name owner] by (auto simp: owner_of_def Load_def load_document_def split: sum.splits if_splits)
  next
    case (Op_Compact now i snap folded)
    obtain packed codec where p: "Pack deflate snap = (packed, codec)" by fastforce
    show ?thesis using r Op_Compact
      by (auto simp: owner_of_def Compact_eq [OF p] compacted_def prune_log_def write_snapshot_def Let_def
          AList.update_conv' split: option.split)
  next
    case (Op_SaveVersion rand now i v minAge)
    obtain packed codec where p: "Pack deflate (verPayload v) = (packed, codec)" by fastforce
    show ?thesis using r Op_SaveVersion by (simp add: owner_of_def SaveVersion_eq [OF p] Let_def)
  next
    case (Op_SetOwner i owner)
    then show ?thesis using r assms(3) by (auto simp: owner_of_def SetOwner_def AList.map_of_map_entry split: option.splits)
  next
    case (Op_Name i name)
    then show ?thesis using r by (auto simp: owner_of_def Store_Name_def AList.map_of_map_entry split: option.splits)
  next
    case (Op_Delete i)
    then show ?thesis using r by (auto simp: owner_of_def Store_Delete_def split: sum.splits)
  qed (use r in \<open>simp_all add: owner_of_def Store_Append_def DeleteIdle_def PruneVersions_def Let_def\<close>)
  then show ?thesis using assms(2) by auto
qed

subsection \<open>Reading what is there\<close>

lemma reachable_load:
  assumes "codec_ok deflate inflate" "reachable_db deflate inflate s" "owner_of i s = Some owner"
  shows "\<exists>doc. Load up inflate now i name owner s = (Inr doc, s)
     \<and> contents inflate i s = Some (Inr (docSnapshot doc), zip (Seqs doc) (docUpdates doc))"
proof -
  obtain r where r: "map_of (documents s) i = Some r" "owner_id r = owner" using assms(3) by (auto simp: owner_of_def)
  have ok: "db_ok s" "readable inflate s" using reachable_db_ok [OF assms(1,2)] by simp_all
  have "contents inflate i s = Some (read_snapshot up inflate r s, row_log i s)" using r(1) by (simp add: contents_def)
  then obtain x where "read_snapshot up inflate r s = Inr x" using ok(2) unfolding readable_def by blast
  then obtain doc where "Load up inflate now i name owner s = (Inr doc, s)" using Load_up [OF r(1) _ r(2)] by blast
  then show ?thesis using Load_result(1) [OF ok(1), of up inflate now i name owner "Inr doc" s doc] by blast
qed

lemma row_log_sorted: "db_ok s \<Longrightarrow> sorted_wrt (<) (map fst (row_log i s))"
proof -
  assume "db_ok s"
  then have "distinct (map u_seq (rows_of i s))" by (simp add: db_ok_def rows_of_def distinct_map_filter)
  then show ?thesis by (simp add: row_log_def comp_def strict_sorted_iff distinct_map)
qed

lemma Load_log:
  assumes "db_ok s" "Load down inflate now i name owner s = (Inr doc, s')" "contents inflate i s' = Some (snap, log)"
  shows "snap = Inr (docSnapshot doc)" "Seqs doc = map fst log" "docUpdates doc = map snd log"
  using Load_result(1) [OF assms(1,2), of doc] assms(3) by auto

lemma append_load:
  assumes c: "codec_ok deflate inflate" and r: "reachable_db deflate inflate s" and o: "owner_of i s = Some owner"
    and l: "Load up inflate now i name owner s = (Inr before, s)"
    and a: "Store_Append down now' i payloads s = (Inr seqs, s')"
  shows "length seqs = length payloads \<and> sorted_wrt (<) (Seqs before @ seqs)
    \<and> (\<exists>after. Load up inflate now i name owner s' = (Inr after, s')
         \<and> docSnapshot after = docSnapshot before \<and> docUpdates after = docUpdates before @ payloads
         \<and> Seqs after = Seqs before @ seqs)"
proof -
  have ok: "db_ok s" using reachable_db_ok [OF c r] by simp
  obtain snap log where cs: "contents inflate i s = Some (snap, log)" and lg: "log = row_log i s"
    using o by (auto simp: contents_def owner_of_def)
  have len: "length seqs = length payloads" using a by (auto simp: Store_Append_def split: if_splits)
  have r': "reachable_db deflate inflate s'"
    using reachable_db.step [OF r, of "Op_Append now' i payloads" down] a by simp
  have ok': "db_ok s'" using reachable_db_ok [OF c r'] by simp
  have "owner_of i s' = Some owner" using o a by (auto simp: owner_of_def Store_Append_def split: if_splits)
  from reachable_load [OF c r' this] obtain after where l': "Load up inflate now i name owner s' = (Inr after, s')" by blast
  have cs': "contents inflate i s' = Some (snap, log @ zip seqs payloads)"
    using contents_Append(1) [OF ok, of down now' i payloads seqs inflate i] a cs by simp
  note b = Load_log [OF ok l cs] and f = Load_log [OF ok' l' cs']
  have "log @ zip seqs payloads = row_log i s'" using cs' by (auto simp: contents_def)
  then have "sorted_wrt (<) (map fst (log @ zip seqs payloads))" using row_log_sorted [OF ok'] by simp
  then show ?thesis using b f len l' by auto
qed

subsection \<open>Two replicas with the same watermark\<close>

lemma same_watermark:
  assumes "map_of (documents s) i = Some r" "blobs s" "folded \<noteq> []"
    and "snapshot_key r = snapshotKey i (fold max folded 0)" "snapshot_seq r = fold max folded 0"
  shows "fst (Compact up deflate now i snap folded s) = Some ErrStaleSnapshot"
    and "fst (LoadAny up inflate now' i (snd (Compact up deflate now i snap folded s))) = Inl (ObjectMissing (snapshot_key r))"
proof -
  obtain packed codec where p: "Pack deflate snap = (packed, codec)" by fastforce
  let ?w = "fold max folded 0"
  let ?s = "dropBlob up (put_key i ?w s) (put_snapshot i ?w packed s)"
  have e: "Compact up deflate now i snap folded s = (Some ErrStaleSnapshot, ?s)"
    using assms by (simp add: Compact_eq [OF p] Let_def)
  have "map_of (objects ?s) (snapshot_key r) = None" and "blobs ?s"
    using assms by (simp_all add: put_key_def dropBlob_def AList.delete_conv')
  then have "read_snapshot up inflate r ?s = Inl (ObjectMissing (snapshot_key r))"
    using assms(4) by (simp add: read_snapshot_def readBlob_def)
  then show "fst (LoadAny up inflate now' i (snd (Compact up deflate now i snap folded s))) = Inl (ObjectMissing (snapshot_key r))"
    unfolding e using assms(1) by (simp add: LoadAny_def load_document_def read_document_def)
  show "fst (Compact up deflate now i snap folded s) = Some ErrStaleSnapshot" by (simp add: e)
qed

lemma Compact_contents:
  assumes "blob_ok s" "db_ok s" "codec_ok deflate inflate" "length i = 16" "watermark_free i folded s"
  shows "contents inflate j (snd (Compact down deflate now i snap folded s)) =
     (if j = i \<and> folded \<noteq> [] \<and> fst (Compact down deflate now i snap folded s) = None
      then Some (Inr (Some snap), filter (\<lambda>(k, p). k \<notin> set folded) (row_log i s))
      else contents inflate j s)"
proof -
  have l: "\<forall>z. deflate snap = Some z \<longrightarrow> inflate z = Some snap" using assms(3) by (simp add: codec_ok_def)
  have w: "\<And>r. map_of (documents s) i = Some r \<Longrightarrow> blobs s \<Longrightarrow> snapshot_key r \<noteq> snapshotKey i (fold max folded 0)"
    using watermark_freeD [OF assms(5)] by blast
  show ?thesis
  proof (cases "folded \<noteq> [] \<and> fst (Compact down deflate now i snap folded s) = None")
    case True
    then show ?thesis using contents_Compact(1) [of s deflate snap inflate i folded down now j] assms l w by simp
  next
    case False
    then show ?thesis using contents_Compact(2) [of s deflate snap inflate i folded down now j] assms l w by auto
  qed
qed

end
