(* ===== verification/Database_Properties.thy ===== *)
theory Database_Properties
  imports Durability "HOL-Library.Code_Target_Nat"
begin

text \<open>
  The properties of the database: documents stay readable whichever calls fail, compaction and
  appending are atomic, owners are kept apart, listings are complete and versions are kept as asked.
\<close>

subsection \<open>A small database\<close>

definition some_id :: uuid where "some_id = replicate 16 1"

definition store_raw :: "bytes \<Rightarrow> bytes option" where "store_raw b = None"

definition one_document :: "db \<Rightarrow> db" where
  "one_document s = run_op store_raw store_raw up (Op_Append 0 some_id [[1, 2], [3]])
     (run_op store_raw store_raw up (Op_Ensure 0 some_id [97] NilUUID) s)"

lemma store_raw_ok: "codec_ok store_raw store_raw"
  by (simp add: codec_ok_def store_raw_def)

lemma reachable_one_document: "reachable_db store_raw store_raw (one_document Open)"
  "reachable_db store_raw store_raw (one_document (UseBlobs Open))"
  unfolding one_document_def
  by (rule reachable_db.step [OF reachable_db.step [OF reachable_db.start]]; simp add: some_id_def)
    (rule reachable_db.step [OF reachable_db.step [OF reachable_db.start_blobs]]; simp add: some_id_def)

subsection \<open>Reading\<close>





text \<open>
  C20. What has been appended is there when the document is loaded: an append that succeeds adds its
  payloads to the log in order, under new and growing sequence numbers, and one that fails changes
  nothing.
\<close>

theorem append_then_load:
  assumes "codec_ok deflate inflate" "reachable_db deflate inflate s" "owner_of i s = Some owner"
    and "Load up inflate now i name owner s = (Inr before, s)"
  shows "case Store_Append down now' i payloads s of
      (Inl er, s') \<Rightarrow> s' = s
    | (Inr seqs, s') \<Rightarrow>
        length seqs = length payloads \<and> sorted_wrt (<) (Seqs before @ seqs)
        \<and> (\<exists>after. Load up inflate now i name owner s' = (Inr after, s')
             \<and> docSnapshot after = docSnapshot before \<and> docUpdates after = docUpdates before @ payloads
             \<and> Seqs after = Seqs before @ seqs)"
proof (cases "Store_Append down now' i payloads s")
  case (Pair res s')
  have "db_ok s" using reachable_db_ok [OF assms(1,2)] by simp
  then show ?thesis
    using Pair append_load [OF assms, of down now' payloads _ s'] contents_Append(2) [of s down now' i payloads]
    by (cases res) auto
qed

theorem append_then_load_witness:
  "\<exists>before seqs s'. Load up store_raw 0 some_id [97] NilUUID (one_document Open) = (Inr before, one_document Open)
     \<and> Store_Append up 5 some_id [[7]] (one_document Open) = (Inr seqs, s')
     \<and> (\<exists>after. Load up store_raw 0 some_id [97] NilUUID s' = (Inr after, s')
          \<and> docUpdates after = docUpdates before @ [[7]] \<and> Seqs after = Seqs before @ seqs)"
proof -
  let ?s = "one_document Open"
  have o: "owner_of some_id ?s = Some NilUUID" by code_simp
  from reachable_load [OF store_raw_ok reachable_one_document(1) this] obtain before where
    l: "Load up store_raw 0 some_id [97] NilUUID ?s = (Inr before, ?s)" by blast
  have "map_of (documents ?s) some_id \<noteq> None" using o by (auto simp: owner_of_def)
  then obtain seqs s' where a: "Store_Append up 5 some_id [[7]] ?s = (Inr seqs, s')" by (simp add: Store_Append_def)
  from append_then_load [OF store_raw_ok reachable_one_document(1) o l, where down = up and now' = 5 and payloads = "[[7]]"] show ?thesis
    using l a by auto
qed

subsection \<open>Tenancy\<close>

text \<open>
  C21. Owners are kept apart: loading a document as anybody but its owner fails and changes nothing, a
  load that succeeds is one by the owner, and no operation but \<open>SetOwner\<close> gives a document that exists
  another owner.
\<close>

theorem tenants_kept_apart:
  assumes "owner_of i s = Some owner"
  shows "(other \<noteq> owner \<longrightarrow>
      (\<exists>er. Load down inflate now i name other s = (Inl er, s))
      \<and> Load up inflate now i name other s = (Inl (ErrWrongOwner name), s))
    \<and> ((\<forall>o'. op \<noteq> Op_SetOwner i o') \<longrightarrow> owner_of i (run_op deflate inflate down op s) \<in> {None, Some owner})"
proof (intro conjI impI)
  assume "other \<noteq> owner"
  then show "\<exists>er. Load down inflate now i name other s = (Inl er, s)"
    and "Load up inflate now i name other s = (Inl (ErrWrongOwner name), s)"
    using Load_wrong_owner(1) [OF assms, of other down] Load_wrong_owner(2) [OF assms, of other up] by simp_all
next
  assume "\<forall>o'. op \<noteq> Op_SetOwner i o'"
  then show "owner_of i (run_op deflate inflate down op s) \<in> {None, Some owner}"
    using owner_run [OF assms, of deflate inflate down op] by (cases "owner_of i (run_op deflate inflate down op s)") simp_all
qed

theorem tenants_kept_apart_witness:
  "Load up store_raw 0 some_id [97] some_id (one_document Open) = (Inl (ErrWrongOwner [97]), one_document Open)
   \<and> owner_of some_id (run_op store_raw store_raw up (Op_Ensure 9 some_id [97] some_id) (one_document Open)) \<in> {None, Some NilUUID}"
proof -
  have "owner_of some_id (one_document Open) = Some NilUUID" "some_id \<noteq> NilUUID" by code_simp+
  with tenants_kept_apart [of some_id "one_document Open" NilUUID some_id up store_raw 0 "[97]"
      "Op_Ensure 9 some_id [97] some_id" store_raw] show ?thesis by simp
qed

text \<open>
  C22. Paging through a listing with the cursors it hands out gives every document of the owner that
  comes after the first cursor, each once, in the order of name and identifier; no name may contain
  the slash the cursor uses as separator.
\<close>

theorem listing_complete:
  assumes "db_ok s" "\<forall>(i, r) \<in> set (documents s). 47 \<notin> set (doc_name r) \<and> length i = 16"
    and "length (documents s) < n"
  shows "sorted_wrt (<) (map (list_key collate) (pages n collate req s))
     \<and> set (pages n collate req s) =
         {listing s (i, r) |i r. (i, r) \<in> set (documents s) \<and> (AllOwners req \<or> owner_id r = reqOwner req)
            \<and> (collate (curName (After req)), curID (After req)) < (collate (doc_name r), i)}"
proof -
  have "length (listed collate req s) < n"
    using assms(3) unfolding listed_def length_sort
    by (rule le_less_trans [rotated]) (rule order_trans [OF length_filter_le], simp)
  note p = pages_listed [OF assms(1,2) this]
  have f: "lsOwner (listing s (i, r)) = owner_id r" "list_key collate (listing s (i, r)) = (collate (doc_name r), i)" for i r
    by (simp_all add: listing_def list_key_def)
  have "set (listed collate req s) = {listing s p |p. p \<in> set (documents s)
      \<and> (AllOwners req \<or> lsOwner (listing s p) = reqOwner req)
      \<and> (collate (curName (After req)), curID (After req)) < list_key collate (listing s p)}"
    unfolding listed_def set_sort set_filter set_map by blast
  then have "set (listed collate req s) =
         {listing s (i, r) |i r. (i, r) \<in> set (documents s) \<and> (AllOwners req \<or> owner_id r = reqOwner req)
            \<and> (collate (curName (After req)), curID (After req)) < (collate (doc_name r), i)}"
    unfolding split_paired_Ex f .
  then show ?thesis using listed_sorted [OF assms(1)] unfolding p by simp
qed

theorem listing_complete_witness:
  "sorted_wrt (<) (map (list_key id) (pages 2 id \<lparr>reqOwner = NilUUID, AllOwners = False,
      After = \<lparr>curName = [], curID = NilUUID\<rparr>, reqLimit = 1\<rparr> (one_document Open)))"
proof -
  have "db_ok (one_document Open)" using reachable_db_ok [OF store_raw_ok reachable_one_document(1)] by simp
  moreover have "\<forall>(i, r) \<in> set (documents (one_document Open)). 47 \<notin> set (doc_name r) \<and> length i = 16"
    "length (documents (one_document Open)) < 2" by code_simp+
  ultimately show ?thesis by (rule listing_complete [THEN conjunct1])
qed

subsection \<open>Versions\<close>

text \<open>
  C23. A version that is saved can be loaded as it was, is the newest of its document, and differs from
  the one before it, which is at least the given age old.
\<close>

theorem version_saved:
  assumes "codec_ok deflate inflate" "reachable_db deflate inflate s"
    and "SaveVersion down deflate rand now i v minAge s = (Inr True, s')"
  shows "(case LoadVersion up inflate i (next_version s) s' of
        Inl er \<Rightarrow> False
      | Inr w \<Rightarrow> verPayload w = verPayload v \<and> StateVector w = StateVector v \<and> Label w = Label v \<and> CreatedAt w = now)
    \<and> map_option v_id (newest_version i s') = Some (next_version s)
    \<and> (case newest_version i s of
         None \<Rightarrow> True
       | Some w \<Rightarrow> v_created w \<le> now - minAge \<and> v_state w \<noteq> StateVector v)"
proof -
  have "db_ok s" using reachable_db_ok [OF assms(1,2)] by simp
  note v = saved_version [OF this assms(1,3)]
  show ?thesis using v(1,2) v(3) by (auto split: option.split)
qed

definition some_version :: Version where
  "some_version = \<lparr>verID = 0, CreatedAt = 0, StateVector = [1], Label = [], verBytes = 0, verPayload = [8, 8]\<rparr>"

theorem version_saved_witness:
  "\<exists>s'. SaveVersion up store_raw [4] 7 some_id some_version 1 (one_document (UseBlobs Open)) = (Inr True, s')
     \<and> map_option v_id (newest_version some_id s') = Some 1"
proof -
  let ?s = "one_document (UseBlobs Open)"
  have "fst (SaveVersion up store_raw [4] 7 some_id some_version 1 ?s) = Inr True" "next_version ?s = 1" by code_simp+
  moreover then obtain s' where s: "SaveVersion up store_raw [4] 7 some_id some_version 1 ?s = (Inr True, s')"
    by (metis prod.collapse)
  ultimately show ?thesis using version_saved [OF store_raw_ok reachable_one_document(2) s] by simp
qed

text \<open>
  Pruning keeps the newest versions of the document, as many as asked for or all there are, deletes
  the others, reports how many went, and touches no other document.
\<close>

theorem newest_versions_kept:
  assumes "db_ok s" "PruneVersions down i keep s = (Inr n, s')" "0 < keep"
  shows "length (versions_of i s') = min (nat keep) (length (versions_of i s))
    \<and> length (versions_of i s') + n = length (versions_of i s)
    \<and> set (versions_of i s') \<subseteq> set (versions_of i s)
    \<and> (\<forall>v \<in> set (versions_of i s'). \<forall>w \<in> set (versions_of i s) - set (versions_of i s'). v_id w < v_id v)
    \<and> (\<forall>j. j \<noteq> i \<longrightarrow> versions_of j s' = versions_of j s)"
  using PruneVersions_result [OF assms] by blast

definition two_versions :: db where
  "two_versions = run_op store_raw store_raw up (Op_SaveVersion [5] 9 some_id (some_version\<lparr>StateVector := [2]\<rparr>) 1)
     (run_op store_raw store_raw up (Op_SaveVersion [4] 7 some_id some_version 1) (one_document (UseBlobs Open)))"

theorem newest_versions_kept_witness:
  "length (versions_of some_id (snd (PruneVersions up some_id 1 two_versions))) = 1"
proof -
  have "db_ok (one_document (UseBlobs Open))" using reachable_db_ok [OF store_raw_ok reachable_one_document(2)] by simp
  then have "db_ok two_versions" unfolding two_versions_def by (intro db_ok_run)
  moreover have "PruneVersions up some_id 1 two_versions = (Inr 1, snd (PruneVersions up some_id 1 two_versions))"
    "length (versions_of some_id two_versions) = 2" by code_simp+
  ultimately show ?thesis using newest_versions_kept [of two_versions up some_id 1 1] by fastforce
qed

subsection \<open>Two replicas\<close>

text \<open>
  C19. When a second replica compacts a document up to the watermark its snapshot already has, it first
  overwrites and then deletes the object the row names: the compaction is refused as stale, and the
  document cannot be loaded any more.
\<close>

theorem stale_compaction_loses_document:
  assumes "map_of (documents s) i = Some r" "blobs s" "folded \<noteq> []"
    and "snapshot_key r = snapshotKey i (fold max folded 0)" "snapshot_seq r = fold max folded 0"
  shows "fst (Compact up deflate now i snap folded s) = Some ErrStaleSnapshot
    \<and> fst (LoadAny up inflate now' i (snd (Compact up deflate now i snap folded s))) = Inl (ObjectMissing (snapshot_key r))"
  using same_watermark [OF assms] by blast

theorem stale_compaction_loses_document_witness:
  "\<exists>r. map_of (documents (snd (Compact up store_raw 1 some_id [9] [1, 2] (one_document (UseBlobs Open))))) some_id = Some r
     \<and> fst (LoadAny up store_raw 3 some_id (snd (Compact up store_raw 2 some_id [9] [1, 2]
          (snd (Compact up store_raw 1 some_id [9] [1, 2] (one_document (UseBlobs Open))))))) = Inl (ObjectMissing (snapshot_key r))"
proof -
  let ?s = "snd (Compact up store_raw 1 some_id [9] [1, 2] (one_document (UseBlobs Open)))"
  have "map_option (\<lambda>r. (snapshot_key r, snapshot_seq r)) (map_of (documents ?s) some_id)
      = Some (snapshotKey some_id (fold max [1, 2] 0), fold max [1, 2] 0)" "blobs ?s"
    by code_simp+
  then obtain r where "map_of (documents ?s) some_id = Some r" "snapshot_key r = snapshotKey some_id (fold max [1, 2] 0)"
    "snapshot_seq r = fold max [1, 2] 0" "blobs ?s" by auto
  then show ?thesis using stale_compaction_loses_document [of ?s some_id r "[1, 2]"] by blast
qed

end
