(* ===== verification/Room.thy ===== *)
theory Room
  imports Durability Views Awareness Cluster
begin

text \<open>
  A room, from the files of \<open>internal/room\<close>: one document, the connections editing it, and the two
  goroutines that write to the database and publish on the bus.

  \<^item> \<open>Room\<close> is the Go struct. Channels are queues: \<open>mailbox\<close>, \<open>jobs\<close> (\<open>None\<close> when there is no store),
    \<open>remote\<close> and \<open>pub\<close> (\<open>None\<close> without a bus). \<open>batch\<close> and \<open>folded\<close> belong to the persist goroutine.
    A zero \<open>time.Time\<close> is \<open>None\<close>.
  \<^item> What the room does to the outside is recorded in its last fields: the frames its connections
    took, the connections it closed with code and reason, the events it emitted, the envelopes the bus
    took, and the replies to the commands that wait for one.
  \<^item> \<open>io\<close> is what a step depends on besides the state: the clock, which frames a connection takes
    (any function of what has been sent before), which database calls fail (any function of how many
    there have been), random bytes, the compression codec and the parameters of the estimate. The
    database itself is the field \<open>Store\<close>.
  \<^item> The writer's \<open>waiters\<close> are empty between jobs, because a job that somebody waits for is flushed
    at once; a room that waits for the writer lets it process the queue first.

  Metrics, counters and log lines are left out.
\<close>

subsection \<open>State\<close>

record Conn =
  conn_ID :: nat
  CanWrite :: bool

record Config =
  cfg_Name :: bytes
  cfg_Owner :: bytes
  UsageInterval :: int
  ServerClientID :: nat
  Mailbox :: int
  Tick :: int
  IdleTimeout :: int
  AwarenessTTL :: int
  AwarenessLimits :: Limits
  has_Store :: bool
  CompactAfter :: int
  FlushInterval :: int
  has_Versions :: bool
  VersionInterval :: int
  VersionKeep :: int
  has_Bus :: bool
  NodeID :: nat
  AntiEntropy :: int
  has_Hooks :: bool
  HookState :: bool

record versionJob =
  vj_payload :: bytes
  vj_stateVector :: bytes
  vj_label :: bytes
  vj_minAge :: int
  vj_waits :: bool

datatype persistJob =
    PPayload bytes (p_waits: bool)
  | PSnapshot bytes
  | PVersion versionJob

datatype command =
    JoinCmd Conn
  | LeaveCmd Conn
  | FrameCmd Conn bytes
  | TickCmd int
  | ReadCmd bytes
  | MergeCmd bytes
  | VersionCmd bytes
  | EvictCmd

datatype Kind = KindChange | KindStore

record Event =
  ev_Doc :: bytes
  ev_Kind :: Kind
  ev_At :: int
  ev_Node :: nat
  ev_Clients :: nat
  ev_Updates :: nat
  ev_StateVector :: "bytes option"
  ev_State :: "bytes option"

record Snapshot =
  sn_Update :: bytes
  sn_StateVector :: bytes
  sn_Clients :: int
  sn_Resident :: bool
  Skipped :: nat

datatype room_error = ErrClosed | ErrNoVersioning | ErrNoDocument | StoreErr store_error | DocErr err
  | NotPublished

datatype answer =
    ReadAnswer "err + Snapshot"
  | MergeAnswer "err option"
  | VersionAnswer "room_error option"
  | VersionDone bool
  | EvictAnswer bool

record Room =
  cfg :: Config
  rdoc :: doc
  aw :: Awareness
  docID :: uuid
  owner :: uuid
  u_bytes :: nat
  u_structs :: nat
  u_dirty :: bool
  u_measured :: "int option"
  jobs :: "persistJob list option"
  batch :: "bytes list"
  sinceSnapshot :: nat
  folded :: "nat list"
  hooks :: bool
  changes :: nat
  storedRows :: nat
  versions :: bool
  versionDirty :: bool
  lastVersion :: "int option"
  subscribed :: bool
  remote :: "Envelope list"
  pub :: "Envelope list option"
  lastAnnounce :: "int option"
  conns :: "(Conn \<times> nat list) list"
  mailbox :: "command list"
  room_closed :: bool
  lastEmpty :: "int option"
  Store :: db
  dbCalls :: nat
  sent :: "(Conn \<times> bytes) list"
  closes :: "(Conn \<times> nat \<times> bytes) list"
  events :: "Event list"
  relayed :: "Envelope list"
  answers :: "answer list"

record io =
  io_now :: int
  io_takes :: "Conn \<Rightarrow> (Conn \<times> bytes) list \<Rightarrow> bytes \<Rightarrow> bool"
  io_down :: "nat \<Rightarrow> failing"
  io_deflate :: "bytes \<Rightarrow> bytes option"
  io_inflate :: "bytes \<Rightarrow> bytes option"
  io_rand :: "nat \<Rightarrow> bytes"
  io_bus :: "Envelope \<Rightarrow> bool"
  io_joins :: bool
  io_text :: "err \<Rightarrow> bytes"
  io_capacity :: "bytes \<Rightarrow> nat"
  io_backing :: "struct list \<Rightarrow> nat"

abbreviation (input) CloseGoingAway :: nat where "CloseGoingAway \<equiv> 1001"
abbreviation (input) CloseProtocolError :: nat where "CloseProtocolError \<equiv> 1002"
abbreviation (input) CloseInternalError :: nat where "CloseInternalError \<equiv> 1011"
abbreviation (input) ClosePolicyViolation :: nat where "ClosePolicyViolation \<equiv> 1008"

definition time_Second :: int where "time_Second = 1000000000"
definition DefaultMailbox :: int where "DefaultMailbox = 256"
definition DefaultTick :: int where "DefaultTick = 5 * time_Second"
definition DefaultIdleTimeout :: int where "DefaultIdleTimeout = 5 * 60 * time_Second"
definition DefaultTimeout :: int where "DefaultTimeout = 30 * time_Second"
definition DefaultCompactAfter :: int where "DefaultCompactAfter = 500"
definition DefaultVersionKeep :: int where "DefaultVersionKeep = 24"
definition DefaultFlushInterval :: int where "DefaultFlushInterval = 200 * 1000000"
definition DefaultAntiEntropy :: int where "DefaultAntiEntropy = 15 * time_Second"
definition DefaultUsageInterval :: int where "DefaultUsageInterval = 15 * time_Second"
definition persistQueue :: nat where "persistQueue = 4096"
definition maxBatch :: nat where "maxBatch = 256"
definition remoteQueue :: nat where "remoteQueue = 1024"
definition publishQueue :: nat where "publishQueue = 1024"

definition setDefaults :: "64 word \<Rightarrow> Config \<Rightarrow> Config" where
  "setDefaults random c =
     c\<lparr>Mailbox := (if Mailbox c \<le> 0 then DefaultMailbox else Mailbox c),
       Tick := (if Tick c \<le> 0 then DefaultTick else Tick c),
       IdleTimeout := (if IdleTimeout c \<le> 0 then DefaultIdleTimeout else IdleTimeout c),
       AwarenessTTL := (if AwarenessTTL c \<le> 0 then DefaultTimeout else AwarenessTTL c),
       CompactAfter := (if CompactAfter c \<le> 0 then DefaultCompactAfter else CompactAfter c),
       VersionKeep := (if VersionKeep c = 0 then DefaultVersionKeep else VersionKeep c),
       FlushInterval := (if FlushInterval c = 0 then DefaultFlushInterval else FlushInterval c),
       AntiEntropy := (if AntiEntropy c \<le> 0 then DefaultAntiEntropy else AntiEntropy c),
       NodeID := (if has_Bus c \<and> NodeID c = 0 then NewNodeID random else NodeID c)\<rparr>"

definition NewRoom :: "(bytes \<Rightarrow> bytes) \<Rightarrow> 64 word \<Rightarrow> int \<Rightarrow> db \<Rightarrow> Config \<Rightarrow> Room" where
  "NewRoom sha1 random now s c =
     (let c = setDefaults random c
      in \<lparr>cfg = c, rdoc = NewDoc (ServerClientID c), aw = NewAwarenessWithLimits (AwarenessLimits c),
          docID = DocumentID sha1 (cfg_Name c), owner = OwnerID sha1 (cfg_Owner c),
          u_bytes = 0, u_structs = 0, u_dirty = False, u_measured = None,
          jobs = (if has_Store c then Some [] else None), batch = [], sinceSnapshot = 0, folded = [],
          hooks = has_Hooks c, changes = 0, storedRows = 0,
          versions = (has_Versions c \<and> has_Store c), versionDirty = False, lastVersion = None,
          subscribed = False, remote = [], pub = (if has_Bus c then Some [] else None),
          lastAnnounce = None, conns = [], mailbox = [], room_closed = False, lastEmpty = Some now,
          Store = s, dbCalls = 0, sent = [], closes = [], events = [], relayed = [], answers = []\<rparr>)"

text \<open>
  \<open>ApplyUpdate\<close> returns for every document a room can hold; the walks along its items that make it
  partial in the model always end.
\<close>

definition apply_update :: "doc \<Rightarrow> bytes \<Rightarrow> doc res" where
  "apply_update d b = the (ApplyUpdate d b)"

subsection \<open>Events\<close>

definition changed :: "Room \<Rightarrow> Room" where
  "changed r = (if \<not> hooks r then r else r\<lparr>changes := changes r + 1\<rparr>)"

definition stored :: "nat \<Rightarrow> Room \<Rightarrow> Room" where
  "stored rows r = (if \<not> hooks r \<or> rows = 0 then r else r\<lparr>storedRows := storedRows r + rows\<rparr>)"

definition hook_event :: "Kind \<Rightarrow> int \<Rightarrow> nat \<Rightarrow> Room \<Rightarrow> Event" where
  "hook_event kind now updates r =
     \<lparr>ev_Doc = cfg_Name (cfg r), ev_Kind = kind, ev_At = now, ev_Node = NodeID (cfg r),
      ev_Clients = length (conns r), ev_Updates = updates,
      ev_StateVector = (case doc_EncodeStateVector (rdoc r) of Inl er \<Rightarrow> None | Inr sv \<Rightarrow> Some sv),
      ev_State = (if HookState (cfg r)
                  then (case EncodeStateAsUpdate (rdoc r) [] of Inl er \<Rightarrow> None | Inr st \<Rightarrow> Some st)
                  else None)\<rparr>"

definition emitHooks :: "int \<Rightarrow> Room \<Rightarrow> Room" where
  "emitHooks now r =
     (if \<not> hooks r then r
      else (let r = (if 0 < changes r
                     then r\<lparr>events := events r @ [hook_event KindChange now (changes r) r], changes := 0\<rparr> else r);
                rows = storedRows r;
                r = r\<lparr>storedRows := 0\<rparr>
            in if 0 < rows then r\<lparr>events := events r @ [hook_event KindStore now rows r]\<rparr> else r))"

subsection \<open>The writer\<close>

definition flush :: "io \<Rightarrow> Room \<Rightarrow> Room" where
  "flush w r =
     (if batch r = [] then r
      else (case Store_Append (io_down w (dbCalls r)) (io_now w) (docID r) (batch r) (Store r) of
              (Inl er, s) \<Rightarrow> r\<lparr>Store := s, dbCalls := dbCalls r + 1, batch := []\<rparr>
            | (Inr seqs, s) \<Rightarrow>
                stored (length (batch r))
                  (r\<lparr>Store := s, dbCalls := dbCalls r + 1, folded := folded r @ seqs, batch := []\<rparr>)))"

definition room_compact :: "io \<Rightarrow> bytes \<Rightarrow> Room \<Rightarrow> Room" where
  "room_compact w snap r =
     (if folded r = [] then r
      else (case Compact (io_down w (dbCalls r)) (io_deflate w) (io_now w) (docID r) snap (folded r) (Store r) of
              (None, s) \<Rightarrow> r\<lparr>Store := s, dbCalls := dbCalls r + 1, folded := []\<rparr>
            | (Some er, s) \<Rightarrow>
                if er = ErrStaleSnapshot then r\<lparr>Store := s, dbCalls := dbCalls r + 1, folded := []\<rparr>
                else r\<lparr>Store := s, dbCalls := dbCalls r + 1\<rparr>))"

definition saveVersion :: "io \<Rightarrow> versionJob \<Rightarrow> Room \<Rightarrow> Room" where
  "saveVersion w job r =
     (let (res, s) = SaveVersion (io_down w (dbCalls r)) (io_deflate w) (io_rand w (dbCalls r)) (io_now w) (docID r)
            \<lparr>verID = 0, CreatedAt = 0, StateVector = vj_stateVector job, Label = vj_label job, verBytes = 0,
             verPayload = vj_payload job\<rparr> (vj_minAge job) (Store r);
          r = r\<lparr>Store := s, dbCalls := dbCalls r + 1,
                answers := answers r @ (if vj_waits job then [VersionDone (res = Inr True)] else [])\<rparr>
      in case res of
           Inl er \<Rightarrow> r
         | Inr written \<Rightarrow>
             if \<not> written then r
             else if VersionKeep (cfg r) \<le> 0 then r
             else r\<lparr>Store := snd (PruneVersions (io_down w (dbCalls r)) (docID r) (VersionKeep (cfg r)) (Store r)),
                    dbCalls := dbCalls r + 1\<rparr>)"

fun persist_job :: "io \<Rightarrow> persistJob \<Rightarrow> Room \<Rightarrow> Room" where
  "persist_job w (PVersion job) r = saveVersion w job r"
| "persist_job w (PSnapshot snap) r = room_compact w snap (flush w r)"
| "persist_job w (PPayload payload waits) r =
     (let r = r\<lparr>batch := batch r @ [payload]\<rparr>
      in if maxBatch \<le> length (batch r) \<or> waits then flush w r else r)"

definition persist_step :: "io \<Rightarrow> Room \<Rightarrow> Room" where
  "persist_step w r =
     (case jobs r of
        Some (job # js) \<Rightarrow> persist_job w job (r\<lparr>jobs := Some js\<rparr>)
      | _ \<Rightarrow> r)"

definition persist_drain :: "io \<Rightarrow> Room \<Rightarrow> Room" where
  "persist_drain w r =
     (case jobs r of
        None \<Rightarrow> r
      | Some js \<Rightarrow> fold (persist_job w) js (r\<lparr>jobs := Some []\<rparr>))"

definition send_job :: "io \<Rightarrow> persistJob \<Rightarrow> Room \<Rightarrow> Room" where
  "send_job w job r =
     (let r = (case jobs r of Some js \<Rightarrow> if persistQueue \<le> length js then persist_step w r else r | None \<Rightarrow> r)
      in r\<lparr>jobs := map_option (\<lambda>js. js @ [job]) (jobs r)\<rparr>)"

definition requestCompaction :: "io \<Rightarrow> Room \<Rightarrow> Room" where
  "requestCompaction w r =
     (if jobs r = None then r
      else case EncodeStateAsUpdate (rdoc r) [] of
        Inl er \<Rightarrow> r
      | Inr snap \<Rightarrow> (send_job w (PSnapshot snap) r)\<lparr>sinceSnapshot := 0\<rparr>)"

definition room_record :: "io \<Rightarrow> bytes \<Rightarrow> Room \<Rightarrow> Room" where
  "room_record w payload r =
     (if jobs r = None then r
      else (let r = (if FlushInterval (cfg r) < 0
                     then persist_drain w (send_job w (PPayload payload True) r)
                     else send_job w (PPayload payload False) r);
                r = r\<lparr>sinceSnapshot := sinceSnapshot r + 1\<rparr>
            in if CompactAfter (cfg r) \<le> int (sinceSnapshot r) then requestCompaction w r else r))"

definition abandonPersisting :: "Room \<Rightarrow> Room" where
  "abandonPersisting r = (if jobs r = None then r else r\<lparr>jobs := None\<rparr>)"

definition finishPersisting :: "io \<Rightarrow> Room \<Rightarrow> Room" where
  "finishPersisting w r =
     (if jobs r = None then r
      else (flush w (persist_drain w (requestCompaction w r)))\<lparr>jobs := None\<rparr>)"

subsection \<open>Weight\<close>

definition touchDocument :: "Room \<Rightarrow> Room" where
  "touchDocument r = r\<lparr>u_dirty := True\<rparr>"

definition usageInterval :: "Room \<Rightarrow> int" where
  "usageInterval r = (if 0 < UsageInterval (cfg r) then UsageInterval (cfg r) else DefaultUsageInterval)"

definition too_soon :: "int \<Rightarrow> int option \<Rightarrow> int \<Rightarrow> bool" where
  "too_soon now since interval = (case since of None \<Rightarrow> False | Some t \<Rightarrow> now - t < interval)"

definition room_measure :: "io \<Rightarrow> int \<Rightarrow> Room \<Rightarrow> Room" where
  "room_measure w now r =
     (if \<not> u_dirty r \<and> u_measured r \<noteq> None then r
      else if 0 < u_bytes r \<and> too_soon now (u_measured r) (usageInterval r) then r
      else (let u = doc_Usage (io_capacity w) (io_backing w) (rdoc r)
            in r\<lparr>u_bytes := u_Bytes u, u_structs := u_Structs u, u_measured := Some now, u_dirty := False\<rparr>))"

subsection \<open>Loading\<close>

definition apply_or_skip :: "bytes \<Rightarrow> doc \<Rightarrow> doc" where
  "apply_or_skip u d = (case apply_update d u of Inl er \<Rightarrow> d | Inr d' \<Rightarrow> d')"

definition room_load :: "io \<Rightarrow> Room \<Rightarrow> room_error option \<times> Room" where
  "room_load w r =
     (case Load (io_down w (dbCalls r)) (io_inflate w) (io_now w) (docID r) (cfg_Name (cfg r)) (owner r) (Store r) of
        (Inl er, s) \<Rightarrow> (Some (StoreErr er), r\<lparr>Store := s, dbCalls := dbCalls r + 1\<rparr>)
      | (Inr d, s) \<Rightarrow>
          (let r = r\<lparr>Store := s, dbCalls := dbCalls r + 1\<rparr>
           in case (case docSnapshot d of None \<Rightarrow> Inr (rdoc r) | Some b \<Rightarrow> apply_update (rdoc r) b) of
                Inl er \<Rightarrow> (Some (DocErr er), r)
              | Inr d0 \<Rightarrow>
                  (let r = r\<lparr>rdoc := fold apply_or_skip (docUpdates d) d0,
                             sinceSnapshot := length (docUpdates d), folded := folded r @ Seqs d\<rparr>
                   in (None, room_measure w (io_now w) ((touchDocument r)\<lparr>u_measured := None\<rparr>)))))"

subsection \<open>The bus\<close>

definition publish :: "nat \<Rightarrow> bytes \<Rightarrow> Room \<Rightarrow> Room" where
  "publish kind payload r =
     (case pub r of
        None \<Rightarrow> r
      | Some q \<Rightarrow>
          if length q < publishQueue
          then r\<lparr>pub := Some (q @ [\<lparr>env_Origin = NodeID (cfg r), env_Kind = kind, Payload = payload\<rparr>])\<rparr>
          else r)"

definition publish_one :: "io \<Rightarrow> Envelope \<Rightarrow> Room \<Rightarrow> Room" where
  "publish_one w env r = (if io_bus w env then r\<lparr>relayed := relayed r @ [env]\<rparr> else r)"

definition publish_step :: "io \<Rightarrow> Room \<Rightarrow> Room" where
  "publish_step w r =
     (case pub r of
        Some (env # q) \<Rightarrow> publish_one w env (r\<lparr>pub := Some q\<rparr>)
      | _ \<Rightarrow> r)"

definition receive :: "Envelope \<Rightarrow> Room \<Rightarrow> Room" where
  "receive env r =
     (if \<not> subscribed r then r
      else if env_Origin env = NodeID (cfg r) then r
      else if length (remote r) < remoteQueue then r\<lparr>remote := remote r @ [env]\<rparr>
      else r)"

definition startFanout :: "io \<Rightarrow> Room \<Rightarrow> bool \<times> Room" where
  "startFanout w r =
     (if \<not> has_Bus (cfg r) then (True, r)
      else if \<not> io_joins w then (False, r)
      else (True, r\<lparr>subscribed := True\<rparr>))"

definition stopFanout :: "io \<Rightarrow> Room \<Rightarrow> Room" where
  "stopFanout w r =
     (let r = r\<lparr>subscribed := False\<rparr>
      in case pub r of
           None \<Rightarrow> r
         | Some q \<Rightarrow> fold (publish_one w) q (r\<lparr>pub := None\<rparr>))"

subsection \<open>Connections\<close>

definition conn_Send :: "io \<Rightarrow> Conn \<Rightarrow> bytes \<Rightarrow> Room \<Rightarrow> bool \<times> Room" where
  "conn_Send w c frame r =
     (if io_takes w c (sent r) frame then (True, r\<lparr>sent := sent r @ [(c, frame)]\<rparr>) else (False, r))"

definition conn_Close :: "Conn \<Rightarrow> nat \<Rightarrow> bytes \<Rightarrow> Room \<Rightarrow> Room" where
  "conn_Close c code reason r = r\<lparr>closes := closes r @ [(c, code, reason)]\<rparr>"

definition room_join :: "Conn \<Rightarrow> Room \<Rightarrow> Room" where
  "room_join c r =
     (if map_of (conns r) c \<noteq> None then r
      else r\<lparr>conns := conns r @ [(c, [])], lastEmpty := None\<rparr>)"

text \<open>
  \<open>leave\<close> removes a connection and retracts the cursors it announced: \<open>retract\<close> is its first part,
  with the payload to broadcast, if there is one.
\<close>

definition retract :: "io \<Rightarrow> Conn \<Rightarrow> nat list \<Rightarrow> Room \<Rightarrow> bytes option \<times> Room" where
  "retract w c ids r =
     (let r = r\<lparr>conns := AList.delete c (conns r)\<rparr>;
          r = (if conns r = [] then r\<lparr>lastEmpty := Some (io_now w)\<rparr> else r)
      in if ids = [] then (None, r)
         else case RemoveClients ids (io_now w) (aw r) of
           (a, Inl er) \<Rightarrow> (None, r\<lparr>aw := a\<rparr>)
         | (a, Inr (gone, payload)) \<Rightarrow> (if gone = [] then None else Some payload, r\<lparr>aw := a\<rparr>))"

primrec send_all :: "io \<Rightarrow> bytes \<Rightarrow> Conn option \<Rightarrow> Conn list \<Rightarrow> Room \<Rightarrow> Conn list \<times> Room" where
  "send_all w frame except [] r = ([], r)"
| "send_all w frame except (c # cs) r =
     (if Some c = except then send_all w frame except cs r
      else (let (ok, r) = conn_Send w c frame r;
                (slow, r) = send_all w frame except cs r
            in (if ok then slow else c # slow, r)))"

lemma conns_conn_Send [simp]: "conns (snd (conn_Send w c frame r)) = conns r"
  by (simp add: conn_Send_def)

lemma conns_send_all': "conns (snd (send_all w frame except cs r)) = conns r"
  by (induction cs arbitrary: r) (simp_all add: case_prod_unfold Let_def)

lemma conns_send_all: "send_all w frame except cs r = (slow, r') \<Longrightarrow> conns r' = conns r"
  using conns_send_all' [of w frame except cs r] by simp

lemma conns_publish [simp]: "conns (publish kind payload r) = conns r"
  by (simp add: publish_def split: option.split)

lemma conns_conn_Close [simp]: "conns (conn_Close c code reason r) = conns r"
  by (simp add: conn_Close_def)

lemma conns_retract: "retract w c ids r = (p, r') \<Longrightarrow> conns r' = AList.delete c (conns r)"
  by (auto simp: retract_def Let_def split: if_splits prod.splits sum.splits)

lemma retract_less:
  assumes "map_of (conns r) c = Some ids" "retract w c ids r = (p, r')"
  shows "length (conns r') < length (conns r)"
proof -
  have "(c, ids) \<in> set (conns r)" by (rule map_of_SomeD [OF assms(1)])
  then have "length (AList.delete c (conns r)) < length (conns r)"
    unfolding AList.delete_eq by (rule length_filter_less) simp
  then show ?thesis by (simp add: conns_retract [OF assms(2)])
qed

text \<open>
  Closing a slow connection can make others slow: leaving broadcasts the retraction, and whoever
  does not take that is closed as well. \<open>drop_slow\<close> is the closing of a list of connections, with
  \<open>leave\<close> and the broadcast it makes unfolded.
\<close>

function (sequential) drop_slow :: "io \<Rightarrow> Conn list \<Rightarrow> Room \<Rightarrow> Room" where
  "drop_slow w [] r = r"
| "drop_slow w (c # cs) r =
     (case map_of (conns r) c of
        None \<Rightarrow> drop_slow w cs (conn_Close c ClosePolicyViolation (str ''outbound buffer full'') r)
      | Some ids \<Rightarrow>
          (case retract w c ids r of
             (None, r') \<Rightarrow> drop_slow w cs (conn_Close c ClosePolicyViolation (str ''outbound buffer full'') r')
           | (Some payload, r') \<Rightarrow>
               (case send_all w (WriteAwareness payload) None (map fst (conns r')) r' of
                  (slow, r'') \<Rightarrow>
                    drop_slow w cs (conn_Close c ClosePolicyViolation (str ''outbound buffer full'')
                      (publish KindAwareness payload (drop_slow w slow r''))))))"
  by pat_completeness auto
termination
proof -
  have fewer: "length (conns (drop_slow w cs r)) \<le> length (conns r)" if "drop_slow_dom (w, cs, r)" for w cs r
    using that
  proof (induction rule: drop_slow.pinduct)
    case (2 w c cs r)
    show ?case
    proof (cases "map_of (conns r) c")
      case None
      then show ?thesis using 2(1,2) by (simp add: drop_slow.psimps)
    next
      case (Some ids)
      obtain p r' where p: "retract w c ids r = (p, r')" by fastforce
      note l = retract_less [OF Some p]
      show ?thesis
      proof (cases p)
        case None
        then show ?thesis using 2(1,3) Some p l by (fastforce simp: drop_slow.psimps)
      next
        case (Some payload)
        obtain slow r'' where s: "send_all w (WriteAwareness payload) None (map fst (conns r')) r' = (slow, r'')" by fastforce
        have a: "length (conns (drop_slow w slow r'')) \<le> length (conns r'')"
          using 2(4) [OF \<open>map_of (conns r) c = Some ids\<close> p [symmetric] Some s [symmetric]] .
        have b: "length (conns (drop_slow w cs (conn_Close c ClosePolicyViolation (str ''outbound buffer full'')
            (publish KindAwareness payload (drop_slow w slow r''))))) \<le> length (conns (drop_slow w slow r''))"
          using 2(5) [OF \<open>map_of (conns r) c = Some ids\<close> p [symmetric] Some s [symmetric]] by simp
        show ?thesis
          using 2(1) \<open>map_of (conns r) c = Some ids\<close> p Some s a b l conns_send_all [OF s]
          by (simp add: drop_slow.psimps)
      qed
    qed
  qed (simp add: drop_slow.psimps)
  have sends: "length (conns ya) < length (conns r)"
    if "map_of (conns r) c = Some ids" "(p, y) = retract w c ids r" "(xa, ya) = send_all w f e (map fst (conns y)) y"
    for w c r ids p y xa ya f e
    using retract_less [OF that(1) that(2) [symmetric]] conns_send_all [OF that(3) [symmetric]] by simp
  show ?thesis
  proof (relation "measures [\<lambda>(w, cs, r). length (conns r), \<lambda>(w, cs, r). length cs]", goal_cases)
    case (3 w c cs r ids x y)
    then show ?case using retract_less [of r c ids w x y] by simp
  next
    case (4 w c cs r ids x y payload xa ya)
    from sends [OF 4(1,2,4)] show ?case by (simp flip: 4(4))
  next
    case (5 w c cs r ids x y payload xa ya)
    from sends [OF 5(1,2,4)] fewer [of w xa ya] 5(5) show ?case by (simp flip: 5(4))
  qed simp_all
qed

definition broadcast :: "io \<Rightarrow> bytes \<Rightarrow> Conn option \<Rightarrow> Room \<Rightarrow> Room" where
  "broadcast w frame except r =
     (let (slow, r) = send_all w frame except (map fst (conns r)) r in drop_slow w slow r)"

definition leave :: "io \<Rightarrow> Conn \<Rightarrow> Room \<Rightarrow> Room" where
  "leave w c r =
     (case map_of (conns r) c of
        None \<Rightarrow> r
      | Some ids \<Rightarrow>
          (case retract w c ids r of
             (None, r) \<Rightarrow> r
           | (Some payload, r) \<Rightarrow>
               publish KindAwareness payload (broadcast w (WriteAwareness payload) None r)))"

definition room_drop :: "io \<Rightarrow> Conn \<Rightarrow> nat \<Rightarrow> bytes \<Rightarrow> Room \<Rightarrow> Room" where
  "room_drop w c code reason r = conn_Close c code reason (leave w c r)"

definition dropSlow :: "io \<Rightarrow> Conn \<Rightarrow> Room \<Rightarrow> Room" where
  "dropSlow w c r = room_drop w c ClosePolicyViolation (str ''outbound buffer full'') r"

lemma drop_slow_fold: "drop_slow w cs r = fold (dropSlow w) cs r"
  by (induction cs arbitrary: r)
    (simp_all add: dropSlow_def room_drop_def leave_def broadcast_def split: option.split prod.split)

definition deliver :: "io \<Rightarrow> Conn \<Rightarrow> bytes \<Rightarrow> Room \<Rightarrow> bool \<times> Room" where
  "deliver w c frame r =
     (let (ok, r) = conn_Send w c frame r in if ok then (True, r) else (False, dropSlow w c r))"

definition close_conns :: "Conn list \<Rightarrow> nat \<Rightarrow> bytes \<Rightarrow> Room \<Rightarrow> Room" where
  "close_conns cs code reason = fold (\<lambda>c. conn_Close c code reason) cs"

subsection \<open>Frames\<close>

definition isEmptyUpdate :: "bytes \<Rightarrow> bool" where
  "isEmptyUpdate u = (u = [] \<or> u = [0, 0])"

definition sendAll :: "io \<Rightarrow> Conn \<Rightarrow> Room \<Rightarrow> Room" where
  "sendAll w c r =
     (case EncodeAll (aw r) of
        Inl er \<Rightarrow> r
      | Inr payload \<Rightarrow> snd (deliver w c (WriteAwareness payload) r))"

definition syncStep1 :: "io \<Rightarrow> Conn \<Rightarrow> bytes \<Rightarrow> Room \<Rightarrow> Room" where
  "syncStep1 w c sv r =
     (case EncodeDiff (rdoc r) sv of
        Inl er \<Rightarrow> room_drop w c CloseProtocolError (str ''bad state vector'') r
      | Inr diff \<Rightarrow>
          (case deliver w c (WriteSyncStep2 diff) r of
             (False, r) \<Rightarrow> r
           | (True, r) \<Rightarrow>
               (case doc_EncodeStateVector (rdoc r) of
                  Inl er \<Rightarrow> r
                | Inr ours \<Rightarrow>
                    (case deliver w c (WriteSyncStep1 ours) r of
                       (False, r) \<Rightarrow> r
                     | (True, r) \<Rightarrow> if 0 < aw_Len (aw r) then sendAll w c r else r))))"

definition room_update :: "io \<Rightarrow> Conn \<Rightarrow> bytes \<Rightarrow> Room \<Rightarrow> Room" where
  "room_update w c u r =
     (if \<not> CanWrite c then
        (if isEmptyUpdate u then r
         else room_drop w c ClosePolicyViolation (str ''read-only'')
           (snd (conn_Send w c (WritePermissionDenied (str ''read-only: this token does not grant write access'')) r)))
      else (let r = touchDocument r
            in case apply_update (rdoc r) u of
                 Inl er \<Rightarrow> room_drop w c CloseProtocolError (str ''bad update'') r
               | Inr d \<Rightarrow>
                   (let r = room_record w u (r\<lparr>rdoc := d\<rparr>);
                        r = changed (r\<lparr>versionDirty := True\<rparr>);
                        r = broadcast w (WriteUpdate u) (Some c) r
                    in publish KindUpdate u r)))"

definition awareness_limit :: "err \<Rightarrow> bool" where
  "awareness_limit er = (case er of ErrStateTooLarge a b \<Rightarrow> True | ErrTooManyClients a \<Rightarrow> True | _ \<Rightarrow> False)"

definition add_clients :: "nat list \<Rightarrow> nat list \<Rightarrow> nat list" where
  "add_clients ids known = fold List.insert ids known"

definition room_awareness :: "io \<Rightarrow> Conn \<Rightarrow> bytes \<Rightarrow> Room \<Rightarrow> Room" where
  "room_awareness w c payload r =
     (case aw_ApplyUpdate payload (io_now w) (aw r) of
        (a, ids, Some er) \<Rightarrow>
          (let r = r\<lparr>aw := a\<rparr>
           in if awareness_limit er
              then room_drop w c ClosePolicyViolation (str ''awareness limit'')
                     (snd (conn_Send w c (WritePermissionDenied (io_text w er)) r))
              else room_drop w c CloseProtocolError (str ''bad awareness update'') r)
      | (a, ids, None) \<Rightarrow>
          (let r = r\<lparr>aw := a\<rparr>
           in if ids = [] then r
              else (let r = r\<lparr>conns := AList.map_entry c (add_clients ids) (conns r)\<rparr>
                    in case aw_Encode (aw r) ids of
                         Inl er \<Rightarrow> r
                       | Inr enc \<Rightarrow>
                           publish KindAwareness enc (broadcast w (WriteAwareness enc) (Some c) r))))"

definition room_frame :: "io \<Rightarrow> Conn \<Rightarrow> bytes \<Rightarrow> Room \<Rightarrow> Room" where
  "room_frame w c frame r =
     (if map_of (conns r) c = None then r
      else case Decode frame of
        Inl er \<Rightarrow> room_drop w c CloseProtocolError (str ''undecodable message'') r
      | Inr (SyncStep1Message sv) \<Rightarrow> syncStep1 w c sv r
      | Inr (SyncStep2Message u) \<Rightarrow> room_update w c u r
      | Inr (UpdateMessage u) \<Rightarrow> room_update w c u r
      | Inr (AwarenessMessage payload) \<Rightarrow> room_awareness w c payload r
      | Inr QueryAwarenessMessage \<Rightarrow> sendAll w c r
      | Inr (PermissionDeniedMessage reason) \<Rightarrow> r)"

subsection \<open>Envelopes from other replicas\<close>

definition remoteUpdate :: "io \<Rightarrow> bytes \<Rightarrow> Room \<Rightarrow> Room" where
  "remoteUpdate w u r =
     (let r = touchDocument r
      in case apply_update (rdoc r) u of
           Inl er \<Rightarrow> r
         | Inr d \<Rightarrow> broadcast w (WriteUpdate u) None (r\<lparr>rdoc := d, versionDirty := True\<rparr>))"

definition remoteAwareness :: "io \<Rightarrow> bytes \<Rightarrow> Room \<Rightarrow> Room" where
  "remoteAwareness w payload r =
     (case aw_ApplyUpdate payload (io_now w) (aw r) of
        (a, ids, Some er) \<Rightarrow> r\<lparr>aw := a\<rparr>
      | (a, ids, None) \<Rightarrow>
          (let r = r\<lparr>aw := a\<rparr>
           in if ids = [] then r
              else case aw_Encode (aw r) ids of
                Inl er \<Rightarrow> r
              | Inr enc \<Rightarrow> broadcast w (WriteAwareness enc) None r))"

definition answerStateVector :: "bytes \<Rightarrow> Room \<Rightarrow> Room" where
  "answerStateVector sv r =
     (case EncodeDiff (rdoc r) sv of
        Inl er \<Rightarrow> r
      | Inr diff \<Rightarrow> if isEmptyUpdate diff then r else publish KindUpdate diff r)"

definition remoteEnvelope :: "io \<Rightarrow> Envelope \<Rightarrow> Room \<Rightarrow> Room" where
  "remoteEnvelope w env r =
     (if env_Kind env = KindUpdate then remoteUpdate w (Payload env) r
      else if env_Kind env = KindAwareness then remoteAwareness w (Payload env) r
      else if env_Kind env = KindStateVector then answerStateVector (Payload env) r
      else r)"

definition announce :: "int \<Rightarrow> Room \<Rightarrow> Room" where
  "announce now r =
     (if pub r = None \<or> conns r = [] then r
      else if too_soon now (lastAnnounce r) (AntiEntropy (cfg r)) then r
      else case doc_EncodeStateVector (rdoc r) of
        Inl er \<Rightarrow> r
      | Inr sv \<Rightarrow> publish KindStateVector sv (r\<lparr>lastAnnounce := Some now\<rparr>))"

subsection \<open>Versions\<close>

definition failVersion :: "versionJob \<Rightarrow> Room \<Rightarrow> Room" where
  "failVersion job r = (if vj_waits job then r\<lparr>answers := answers r @ [VersionDone False]\<rparr> else r)"

definition queueVersion :: "io \<Rightarrow> versionJob \<Rightarrow> Room \<Rightarrow> Room" where
  "queueVersion w job r =
     (case EncodeStateAsUpdate (rdoc r) [] of
        Inl er \<Rightarrow> failVersion job r
      | Inr payload \<Rightarrow>
          (case doc_EncodeStateVector (rdoc r) of
             Inl er \<Rightarrow> failVersion job r
           | Inr sv \<Rightarrow>
               (let job = job\<lparr>vj_payload := payload, vj_stateVector := sv\<rparr>
                in if jobs r = None then failVersion job r else send_job w (PVersion job) r)))"

definition versionTick :: "io \<Rightarrow> int \<Rightarrow> Room \<Rightarrow> Room" where
  "versionTick w now r =
     (if \<not> versions r \<or> VersionInterval (cfg r) \<le> 0 then r
      else if \<not> versionDirty r then r
      else if too_soon now (lastVersion r) (VersionInterval (cfg r)) then r
      else queueVersion w \<lparr>vj_payload = [], vj_stateVector = [], vj_label = [],
             vj_minAge = VersionInterval (cfg r), vj_waits = False\<rparr>
             (r\<lparr>lastVersion := Some now, versionDirty := False\<rparr>))"

definition takeVersion :: "io \<Rightarrow> bytes \<Rightarrow> Room \<Rightarrow> Room" where
  "takeVersion w label r =
     (if \<not> versions r then r\<lparr>answers := answers r @ [VersionAnswer (Some ErrNoVersioning)]\<rparr>
      else (let r = queueVersion w \<lparr>vj_payload = [], vj_stateVector = [], vj_label = label, vj_minAge = 0,
                      vj_waits = True\<rparr> (r\<lparr>versionDirty := False, lastVersion := Some (io_now w)\<rparr>)
            in r\<lparr>answers := answers r @ [VersionAnswer None]\<rparr>))"

subsection \<open>Reading and merging\<close>

definition encodeSnapshot :: "doc \<Rightarrow> bytes \<Rightarrow> err + Snapshot" where
  "encodeSnapshot d sv =
     (case (if sv = [] then EncodeStateAsUpdate d [] else EncodeDiff d sv) of
        Inl er \<Rightarrow> Inl er
      | Inr u \<Rightarrow>
          (case doc_EncodeStateVector d of
             Inl er \<Rightarrow> Inl er
           | Inr ours \<Rightarrow> Inr \<lparr>sn_Update = u, sn_StateVector = ours, sn_Clients = - 1, sn_Resident = False, Skipped = 0\<rparr>))"

definition room_read :: "bytes \<Rightarrow> Room \<Rightarrow> Room" where
  "room_read sv r =
     r\<lparr>answers := answers r @ [ReadAnswer (case encodeSnapshot (rdoc r) sv of
          Inl er \<Rightarrow> Inl er
        | Inr sn \<Rightarrow> Inr (sn\<lparr>sn_Clients := int (length (conns r)), sn_Resident := True\<rparr>))]\<rparr>"

definition room_merge :: "io \<Rightarrow> bytes \<Rightarrow> Room \<Rightarrow> Room" where
  "room_merge w u r =
     (let r = touchDocument r
      in case apply_update (rdoc r) u of
           Inl er \<Rightarrow> r\<lparr>answers := answers r @ [MergeAnswer (Some er)]\<rparr>
         | Inr d \<Rightarrow>
             (let r = changed (room_record w u (r\<lparr>rdoc := d\<rparr>));
                  r = broadcast w (WriteUpdate u) None (r\<lparr>versionDirty := True\<rparr>);
                  r = publish KindUpdate u r
              in r\<lparr>answers := answers r @ [MergeAnswer None]\<rparr>))"

subsection \<open>Stopping\<close>

primrec close_joiner :: "nat \<Rightarrow> bytes \<Rightarrow> command \<Rightarrow> Room \<Rightarrow> Room" where
  "close_joiner code reason (JoinCmd c) r = conn_Close c code reason r"
| "close_joiner code reason (LeaveCmd c) r = r"
| "close_joiner code reason (FrameCmd c frame) r = r"
| "close_joiner code reason (TickCmd now) r = r"
| "close_joiner code reason (ReadCmd sv) r = r"
| "close_joiner code reason (MergeCmd u) r = r"
| "close_joiner code reason (VersionCmd label) r = r"
| "close_joiner code reason EvictCmd r = r"

definition room_stop :: "io \<Rightarrow> nat \<Rightarrow> bytes \<Rightarrow> Room \<Rightarrow> Room" where
  "room_stop w code reason r =
     (let r = emitHooks (io_now w) r;
          r = (close_conns (map fst (conns r)) code reason r)\<lparr>conns := []\<rparr>;
          r = emitHooks (io_now w) (finishPersisting w (stopFanout w r));
          r = r\<lparr>room_closed := True\<rparr>
      in (fold (close_joiner code reason) (mailbox r) r)\<lparr>mailbox := []\<rparr>)"

definition evict :: "io \<Rightarrow> Room \<Rightarrow> Room" where
  "evict w r = room_stop w CloseGoingAway (str ''room evicted'') r"

subsection \<open>The loop\<close>

definition room_tick :: "io \<Rightarrow> int \<Rightarrow> Room \<Rightarrow> bool \<times> Room" where
  "room_tick w now r =
     (let r = room_measure w now r;
          r = (case Sweep now (AwarenessTTL (cfg r)) (aw r) of
                 (a, Inl er) \<Rightarrow> r\<lparr>aw := a\<rparr>
               | (a, Inr (gone, payload)) \<Rightarrow>
                   if gone = [] then r\<lparr>aw := a\<rparr>
                   else broadcast w (WriteAwareness payload) None (r\<lparr>aw := a\<rparr>));
          r = versionTick w now (emitHooks now (announce now r))
      in case lastEmpty r of
           None \<Rightarrow> (False, r)
         | Some t \<Rightarrow>
             if conns r \<noteq> [] then (False, r)
             else if now - t < IdleTimeout (cfg r) then (False, r)
             else (True, evict w r))"

fun room_handle :: "io \<Rightarrow> command \<Rightarrow> Room \<Rightarrow> bool \<times> Room" where
  "room_handle w (JoinCmd c) r = (False, room_join c r)"
| "room_handle w (LeaveCmd c) r = (False, leave w c r)"
| "room_handle w (FrameCmd c frame) r = (False, room_frame w c frame r)"
| "room_handle w (TickCmd now) r = room_tick w now r"
| "room_handle w (ReadCmd sv) r = (False, room_read sv r)"
| "room_handle w (MergeCmd u) r = (False, room_merge w u r)"
| "room_handle w (VersionCmd label) r = (False, takeVersion w label r)"
| "room_handle w EvictCmd r =
     (if conns r \<noteq> [] then (False, r\<lparr>answers := answers r @ [EvictAnswer False]\<rparr>)
      else (let r = evict w r in (True, r\<lparr>answers := answers r @ [EvictAnswer True]\<rparr>)))"

definition room_send :: "command \<Rightarrow> Room \<Rightarrow> (room_error option \<times> Room) option" where
  "room_send c r =
     (if room_closed r then Some (Some ErrClosed, r)
      else if int (length (mailbox r)) < Mailbox (cfg r) then Some (None, r\<lparr>mailbox := mailbox r @ [c]\<rparr>)
      else None)"

definition Run_start :: "io \<Rightarrow> Room \<Rightarrow> Room" where
  "Run_start w r =
     (case startFanout w r of
        (False, r) \<Rightarrow> room_stop w CloseInternalError (str ''could not join the cluster'') (abandonPersisting r)
      | (True, r) \<Rightarrow>
          if \<not> has_Store (cfg r) then r
          else (case room_load w r of
                  (Some er, r) \<Rightarrow> room_stop w CloseInternalError (str ''could not load document'') (abandonPersisting r)
                | (None, r) \<Rightarrow> r))"

definition Fetch :: "io \<Rightarrow> (bytes \<Rightarrow> bytes) \<Rightarrow> bool \<Rightarrow> bytes \<Rightarrow> bytes \<Rightarrow> db \<Rightarrow> room_error + Snapshot" where
  "Fetch w sha1 persistent name sv s =
     (if \<not> persistent then Inl ErrNoDocument
      else case fst (LoadAny (io_down w 0) (io_inflate w) (io_now w) (DocumentID sha1 name) s) of
        Inl er \<Rightarrow> Inl (StoreErr er)
      | Inr d \<Rightarrow>
          if docSnapshot d = None \<and> docUpdates d = [] then Inl ErrNoDocument
          else (case (case docSnapshot d of None \<Rightarrow> Inr (NewDoc 0) | Some b \<Rightarrow> apply_update (NewDoc 0) b) of
                  Inl er \<Rightarrow> Inl (DocErr er)
                | Inr d0 \<Rightarrow>
                    (let (d1, n) = fold (\<lambda>u (d, n). case apply_update d u of Inl er \<Rightarrow> (d, n + 1) | Inr d' \<Rightarrow> (d', n))
                                     (docUpdates d) (d0, 0)
                     in case encodeSnapshot d1 sv of
                          Inl er \<Rightarrow> Inl (DocErr er)
                        | Inr sn \<Rightarrow> Inr (sn\<lparr>Skipped := n\<rparr>))))"

definition Import ::
  "io \<Rightarrow> (bytes \<Rightarrow> bytes) \<Rightarrow> bool \<Rightarrow> nat option \<Rightarrow> bytes \<Rightarrow> bytes \<Rightarrow> bytes \<Rightarrow> db
    \<Rightarrow> room_error option \<times> db \<times> Envelope list" where
  "Import w sha1 persistent bus tenant name u s =
     (if \<not> persistent then (Some ErrNoDocument, s, [])
      else case apply_update (NewDoc 0) u of
        Inl er \<Rightarrow> (Some (DocErr er), s, [])
      | Inr d \<Rightarrow>
          (let i = DocumentID sha1 name
           in case Ensure (io_down w 0) (io_now w) i name (OwnerID sha1 tenant) s of
                (Inl er, s) \<Rightarrow> (Some (StoreErr er), s, [])
              | (Inr found, s) \<Rightarrow>
                  if tenant \<noteq> [] \<and> found \<noteq> OwnerID sha1 tenant then (Some (StoreErr (ErrWrongOwner name)), s, [])
                  else (case Store_Append (io_down w 1) (io_now w) i [u] s of
                          (Inl er, s) \<Rightarrow> (Some (StoreErr er), s, [])
                        | (Inr seqs, s) \<Rightarrow>
                            (case bus of
                               None \<Rightarrow> (None, s, [])
                             | Some node \<Rightarrow>
                                 (let env = \<lparr>env_Origin = node, env_Kind = KindUpdate, Payload = u\<rparr>
                                  in if io_bus w env then (None, s, [env]) else (Some NotPublished, s, []))))))"

end
