(* ===== verification/Room_Steps.thy ===== *)
theory Room_Steps
  imports Room
begin

text \<open>
  What the handlers of a room do to its state, as relations between the room before and after.
  \<open>chatter\<close> is talking to connections: frames are sent, connections that do not take them are closed
  and retract their cursors, and nothing else of the room changes.
\<close>

subsection \<open>Talking to connections\<close>

definition rest :: "Room \<Rightarrow> Room" where
  "rest r = r\<lparr>conns := [], aw := NewAwareness, sent := [], closes := [], pub := None, lastEmpty := None\<rparr>"

lemma rest_update [simp]:
  "rest (r\<lparr>conns := a\<rparr>) = rest r" "rest (r\<lparr>aw := b\<rparr>) = rest r" "rest (r\<lparr>sent := c\<rparr>) = rest r"
  "rest (r\<lparr>closes := d\<rparr>) = rest r" "rest (r\<lparr>pub := e\<rparr>) = rest r" "rest (r\<lparr>lastEmpty := f\<rparr>) = rest r"
  by (simp_all add: rest_def)

lemma rest_fields:
  assumes "rest r' = rest r"
  shows "cfg r' = cfg r" "rdoc r' = rdoc r" "docID r' = docID r" "owner r' = owner r"
    "jobs r' = jobs r" "batch r' = batch r" "sinceSnapshot r' = sinceSnapshot r" "folded r' = folded r"
    "Store r' = Store r" "dbCalls r' = dbCalls r" "room_closed r' = room_closed r" "mailbox r' = mailbox r"
    "remote r' = remote r" "subscribed r' = subscribed r" "events r' = events r" "relayed r' = relayed r"
    "versions r' = versions r" "hooks r' = hooks r" "changes r' = changes r" "storedRows r' = storedRows r"
    "answers r' = answers r" "versionDirty r' = versionDirty r" "lastVersion r' = lastVersion r"
proof -
  have f: "f (rest r') = f (rest r)" for f :: "Room \<Rightarrow> 'x" using assms by simp
  show "cfg r' = cfg r" "rdoc r' = rdoc r" "docID r' = docID r" "owner r' = owner r"
    "jobs r' = jobs r" "batch r' = batch r" "sinceSnapshot r' = sinceSnapshot r" "folded r' = folded r"
    "Store r' = Store r" "dbCalls r' = dbCalls r" "room_closed r' = room_closed r" "mailbox r' = mailbox r"
    "remote r' = remote r" "subscribed r' = subscribed r" "events r' = events r" "relayed r' = relayed r"
    "versions r' = versions r" "hooks r' = hooks r" "changes r' = changes r" "storedRows r' = storedRows r"
    "answers r' = answers r" "versionDirty r' = versionDirty r" "lastVersion r' = lastVersion r"
    using arg_cong [OF assms, of cfg] arg_cong [OF assms, of rdoc] arg_cong [OF assms, of docID]
      arg_cong [OF assms, of owner] arg_cong [OF assms, of jobs] arg_cong [OF assms, of batch]
      arg_cong [OF assms, of sinceSnapshot] arg_cong [OF assms, of folded] arg_cong [OF assms, of Store]
      arg_cong [OF assms, of dbCalls] arg_cong [OF assms, of room_closed] arg_cong [OF assms, of mailbox]
      arg_cong [OF assms, of remote] arg_cong [OF assms, of subscribed] arg_cong [OF assms, of events]
      arg_cong [OF assms, of relayed] arg_cong [OF assms, of versions] arg_cong [OF assms, of hooks]
      arg_cong [OF assms, of changes] arg_cong [OF assms, of storedRows] arg_cong [OF assms, of answers]
      arg_cong [OF assms, of versionDirty] arg_cong [OF assms, of lastVersion]
    by (simp_all add: rest_def)
qed

definition announces :: "Room \<Rightarrow> Envelope \<Rightarrow> bool" where
  "announces r e \<longleftrightarrow> env_Kind e = KindAwareness \<and> env_Origin e = NodeID (cfg r)"

text \<open>
  The part of the invariant that talking can break: connections are distinct, the time since when the
  room is empty is known just when it is, the cursors are within their limits and the queue of the
  publisher is within its.
\<close>

definition conns_ok :: "Room \<Rightarrow> bool" where
  "conns_ok r \<longleftrightarrow> distinct (map fst (conns r)) \<and> (conns r = [] \<longleftrightarrow> lastEmpty r \<noteq> None)
     \<and> aware_ok (aw r) \<and> (case pub r of None \<Rightarrow> True | Some q \<Rightarrow> length q \<le> publishQueue)"

definition chatter :: "Conn set \<Rightarrow> Room \<Rightarrow> Room \<Rightarrow> bool" where
  "chatter L r r' \<longleftrightarrow> rest r' = rest r
     \<and> (\<exists>fs. sent r' = sent r @ fs) \<and> (\<exists>cs. closes r' = closes r @ cs)
     \<and> (\<exists>q. pub r' = map_option (\<lambda>p. p @ q) (pub r) \<and> list_all (announces r) q)
     \<and> set (conns r') \<subseteq> set (conns r)
     \<and> (\<forall>c \<in> fst ` set (conns r) - L. c \<in> fst ` set (conns r') \<or> c \<in> fst ` set (closes r'))
     \<and> (conns_ok r \<longrightarrow> conns_ok r')"

lemma chatterI:
  assumes "rest r' = rest r" "sent r' = sent r @ fs" "closes r' = closes r @ cs"
    and "pub r' = map_option (\<lambda>p. p @ q) (pub r)" "list_all (announces r) q" "set (conns r') \<subseteq> set (conns r)"
    and "\<And>c. c \<in> fst ` set (conns r) \<Longrightarrow> c \<notin> L \<Longrightarrow> c \<in> fst ` set (conns r') \<or> c \<in> fst ` set (closes r')"
    and "conns_ok r \<Longrightarrow> conns_ok r'"
  shows "chatter L r r'"
  using assms unfolding chatter_def by blast

lemma chatter_refl [simp]: "chatter L r r"
  by (rule chatterI [where fs = "[]" and cs = "[]" and q = "[]"]) (auto simp: map_option.id [unfolded id_def])

lemma chatter_trans:
  assumes "chatter L r1 r2" "chatter M r2 r3"
  shows "chatter (L \<union> M) r1 r3"
proof -
  obtain fs cs q where 1: "rest r2 = rest r1" "sent r2 = sent r1 @ fs" "closes r2 = closes r1 @ cs"
    "pub r2 = map_option (\<lambda>p. p @ q) (pub r1)" "list_all (announces r1) q" "set (conns r2) \<subseteq> set (conns r1)"
    using assms(1) unfolding chatter_def by blast
  obtain fs' cs' q' where 2: "rest r3 = rest r2" "sent r3 = sent r2 @ fs'" "closes r3 = closes r2 @ cs'"
    "pub r3 = map_option (\<lambda>p. p @ q') (pub r2)" "list_all (announces r2) q'" "set (conns r3) \<subseteq> set (conns r2)"
    using assms(2) unfolding chatter_def by blast
  have a: "announces r2 = announces r1" using rest_fields(1) [OF 1(1)] by (simp add: announces_def fun_eq_iff)
  show ?thesis
  proof (rule chatterI [where fs = "fs @ fs'" and cs = "cs @ cs'" and q = "q @ q'"])
    show "c \<in> fst ` set (conns r3) \<or> c \<in> fst ` set (closes r3)" if "c \<in> fst ` set (conns r1)" "c \<notin> L \<union> M" for c
    proof -
      have "c \<in> fst ` set (conns r2) \<or> c \<in> fst ` set (closes r2)"
        using assms(1) that unfolding chatter_def by blast
      then show ?thesis using assms(2) that(2) 2(3) unfolding chatter_def by auto
    qed
    show "conns_ok r1 \<Longrightarrow> conns_ok r3" using assms unfolding chatter_def by blast
    show "pub r3 = map_option (\<lambda>p. p @ q @ q') (pub r1)" using 1(4) 2(4) by (cases "pub r1") simp_all
  qed (use 1 2 a in auto)
qed

lemma chatter_mono: "chatter L r r' \<Longrightarrow> L \<subseteq> M \<Longrightarrow> chatter M r r'"
  unfolding chatter_def by blast

lemma chatter_trans_same: "chatter L r1 r2 \<Longrightarrow> chatter L r2 r3 \<Longrightarrow> chatter L r1 r3"
  using chatter_trans [of L r1 r2 L r3] by simp

lemma chatter_rest: "chatter L r r' \<Longrightarrow> rest r' = rest r"
  by (simp add: chatter_def)

lemma chatter_Send: "chatter L r (snd (conn_Send w c frame r))"
proof (cases "io_takes w c (sent r) frame")
  case True
  then show ?thesis
    by (intro chatterI [where fs = "[(c, frame)]" and cs = "[]" and q = "[]"])
      (auto simp: conn_Send_def conns_ok_def map_option.id [unfolded id_def])
qed (simp add: conn_Send_def)

lemma chatter_Close: "chatter L r (conn_Close c code reason r)"
  by (rule chatterI [where fs = "[]" and cs = "[(c, code, reason)]" and q = "[]"])
    (auto simp: conn_Close_def conns_ok_def map_option.id [unfolded id_def])

lemma chatter_publish: "chatter L r (publish KindAwareness payload r)"
proof (cases "pub r")
  case (Some q)
  let ?e = "\<lparr>env_Origin = NodeID (cfg r), env_Kind = KindAwareness, Payload = payload\<rparr>"
  show ?thesis
  proof (cases "length q < publishQueue")
    case True
    then show ?thesis
      using Some by (intro chatterI [where fs = "[]" and cs = "[]" and q = "[?e]"])
        (auto simp: publish_def conns_ok_def announces_def)
  qed (simp add: publish_def Some)
qed (simp add: publish_def)

lemma chatter_send_all: "chatter L r (snd (send_all w frame except cs r))"
proof (induction cs arbitrary: r)
  case (Cons c cs)
  then show ?case
    using chatter_trans_same [OF chatter_Send [of L r w c frame]] by (simp add: Let_def case_prod_unfold)
qed simp

lemma aw_retract: "aware_ok (aw r) \<Longrightarrow> aware_ok (aw (snd (retract w c ids r)))"
  using aware_ok_RemoveClients [of "aw r" ids "io_now w"]
  by (auto simp: retract_def Let_def split: prod.split sum.split)

lemma rest_retract: "rest (snd (retract w c ids r)) = rest r"
  "sent (snd (retract w c ids r)) = sent r" "closes (snd (retract w c ids r)) = closes r"
  "pub (snd (retract w c ids r)) = pub r"
  "lastEmpty (snd (retract w c ids r)) = (if AList.delete c (conns r) = [] then Some (io_now w) else lastEmpty r)"
  by (auto simp: retract_def Let_def split: prod.split sum.split)

lemma chatter_retract: "map_of (conns r) c \<noteq> None \<Longrightarrow> chatter {c} r (snd (retract w c ids r))"
proof (rule chatterI [where fs = "[]" and cs = "[]" and q = "[]"])
  assume c: "map_of (conns r) c \<noteq> None"
  have d: "conns (snd (retract w c ids r)) = AList.delete c (conns r)"
    using conns_retract [of w c ids r] by (metis prod.collapse)
  show "set (conns (snd (retract w c ids r))) \<subseteq> set (conns r)" by (auto simp: d AList.delete_eq)
  show "x \<in> fst ` set (conns (snd (retract w c ids r))) \<or> x \<in> fst ` set (closes (snd (retract w c ids r)))"
    if "x \<in> fst ` set (conns r)" "x \<notin> {c}" for x
    using that by (force simp: d AList.delete_eq)
  show "conns_ok (snd (retract w c ids r))" if "conns_ok r"
    using that c aw_retract [of r w c ids] by (auto simp: conns_ok_def d rest_retract AList.distinct_delete)
qed (simp_all add: rest_retract map_option.id [unfolded id_def])

lemma chatter_closed: "chatter (insert c L) r r' \<Longrightarrow> chatter L r (conn_Close c code reason r')"
proof -
  assume a: "chatter (insert c L) r r'"
  then have "chatter (insert c L) r (conn_Close c code reason r')"
    by (rule chatter_trans_same [OF _ chatter_Close])
  moreover have "c \<in> fst ` set (closes (conn_Close c code reason r'))" by (simp add: conn_Close_def)
  ultimately show ?thesis unfolding chatter_def by blast
qed

lemma chatter_drop_slow: "chatter L r (drop_slow w cs r)"
proof (induction w cs r rule: drop_slow.induct)
  case (2 w c cs r)
  show ?case
  proof (cases "map_of (conns r) c")
    case None
    then show ?thesis using chatter_trans_same [OF chatter_Close 2(1) [OF None]] by simp
  next
    case (Some ids)
    obtain p r' where p: "retract w c ids r = (p, r')" by fastforce
    have gone: "chatter (insert c L) r r'"
      using chatter_mono [OF chatter_retract [of r c w ids], of "insert c L"] Some p by simp
    show ?thesis
    proof (cases p)
      case None
      then show ?thesis
        using chatter_trans_same [OF chatter_closed [OF gone] 2(2)] p \<open>map_of (conns r) c = Some ids\<close> by simp
    next
      case (Some payload)
      obtain slow r'' where s: "send_all w (WriteAwareness payload) None (map fst (conns r')) r' = (slow, r'')" by fastforce
      have "chatter (insert c L) r' r''"
        using chatter_send_all [of "insert c L" r' w "WriteAwareness payload" None "map fst (conns r')"] s by simp
      moreover have "chatter (insert c L) r'' (drop_slow w slow r'')"
        using chatter_mono [OF 2(3) [OF \<open>map_of (conns r) c = Some ids\<close> p [symmetric] Some s [symmetric]]] by blast
      ultimately have "chatter (insert c L) r (publish KindAwareness payload (drop_slow w slow r''))"
        using gone chatter_trans_same chatter_publish by meson
      from chatter_trans_same [OF chatter_closed [OF this] 2(4) [OF \<open>map_of (conns r) c = Some ids\<close> p [symmetric] Some s [symmetric]]]
      show ?thesis using \<open>map_of (conns r) c = Some ids\<close> p s Some by simp
    qed
  qed
qed simp

lemma chatter_broadcast: "chatter L r (broadcast w frame except r)"
  using chatter_trans_same [OF chatter_send_all chatter_drop_slow]
  by (simp add: broadcast_def Let_def case_prod_unfold)

lemma chatter_leave: "chatter {c} r (leave w c r)"
proof (cases "map_of (conns r) c")
  case (Some ids)
  obtain p r' where p: "retract w c ids r = (p, r')" by fastforce
  then have "chatter {c} r r'" using chatter_retract [of r c w ids] Some by simp
  then show ?thesis
    using chatter_trans_same [OF _ chatter_trans_same [OF chatter_broadcast chatter_publish]] Some p
    by (cases p) (simp_all add: leave_def)
qed (simp add: leave_def)

lemma chatter_drop: "chatter L r (room_drop w c code reason r)"
  unfolding room_drop_def
  by (rule chatter_closed, rule chatter_mono [OF chatter_leave]) simp

lemma chatter_deliver: "chatter L r (snd (deliver w c frame r))"
proof -
  have "chatter L r (snd (conn_Send w c frame r))" "chatter L (snd (conn_Send w c frame r)) (dropSlow w c (snd (conn_Send w c frame r)))"
    by (simp_all add: chatter_Send dropSlow_def chatter_drop)
  then show ?thesis using chatter_trans_same by (auto simp: deliver_def case_prod_unfold Let_def)
qed

lemma chatter_sendAll: "chatter L r (sendAll w c r)"
  by (simp add: sendAll_def chatter_deliver split: sum.split)

lemma chatter_syncStep1: "chatter L r (syncStep1 w c sv r)"
proof (cases "EncodeDiff (rdoc r) sv")
  case (Inr diff)
  obtain ok r1 where 1: "deliver w c (WriteSyncStep2 diff) r = (ok, r1)" by fastforce
  have a: "chatter L r r1" using chatter_deliver [of L r w c "WriteSyncStep2 diff"] 1 by simp
  have b: "chatter L r1 (snd (deliver w c (WriteSyncStep1 ours) r1))" for ours by (rule chatter_deliver)
  have c: "chatter L r (snd (deliver w c (WriteSyncStep1 ours) r1))" for ours by (rule chatter_trans_same [OF a b])
  have d: "chatter L r (sendAll w c (snd (deliver w c (WriteSyncStep1 ours) r1)))" for ours
    by (rule chatter_trans_same [OF c chatter_sendAll])
  show ?thesis
  proof (cases "doc_EncodeStateVector (rdoc r1)")
    case (Inr ours)
    obtain ok' r2 where 2: "deliver w c (WriteSyncStep1 ours) r1 = (ok', r2)" by fastforce
    show ?thesis
      using \<open>EncodeDiff (rdoc r) sv = Inr diff\<close> 1 2 Inr a c [of ours] d [of ours]
      by (cases ok; cases ok') (simp_all add: syncStep1_def)
  qed (cases ok; use \<open>EncodeDiff (rdoc r) sv = Inr diff\<close> 1 a in \<open>simp add: syncStep1_def\<close>)
qed (simp add: syncStep1_def chatter_drop)

subsection \<open>Writing\<close>

definition front :: "Room \<Rightarrow> Room" where
  "front r = r\<lparr>Store := Open, dbCalls := 0, batch := [], folded := [], jobs := None, storedRows := 0,
     answers := [], sinceSnapshot := 0\<rparr>"

lemma front_update [simp]:
  "front (r\<lparr>Store := a\<rparr>) = front r" "front (r\<lparr>dbCalls := b\<rparr>) = front r" "front (r\<lparr>batch := c\<rparr>) = front r"
  "front (r\<lparr>folded := d\<rparr>) = front r" "front (r\<lparr>jobs := e\<rparr>) = front r" "front (r\<lparr>storedRows := f\<rparr>) = front r"
  "front (r\<lparr>answers := g\<rparr>) = front r" "front (r\<lparr>sinceSnapshot := h\<rparr>) = front r"
  by (simp_all add: front_def)

lemma front_fields:
  assumes "front r' = front r"
  shows "cfg r' = cfg r" "rdoc r' = rdoc r" "docID r' = docID r" "owner r' = owner r"
    "aw r' = aw r" "conns r' = conns r" "sent r' = sent r" "closes r' = closes r" "pub r' = pub r"
    "lastEmpty r' = lastEmpty r" "room_closed r' = room_closed r" "mailbox r' = mailbox r" "remote r' = remote r"
    "subscribed r' = subscribed r" "events r' = events r" "relayed r' = relayed r" "versions r' = versions r"
    "hooks r' = hooks r" "changes r' = changes r"
  using arg_cong [OF assms, of cfg] arg_cong [OF assms, of rdoc] arg_cong [OF assms, of docID]
    arg_cong [OF assms, of owner] arg_cong [OF assms, of aw] arg_cong [OF assms, of conns]
    arg_cong [OF assms, of sent] arg_cong [OF assms, of closes] arg_cong [OF assms, of pub]
    arg_cong [OF assms, of lastEmpty] arg_cong [OF assms, of room_closed] arg_cong [OF assms, of mailbox]
    arg_cong [OF assms, of remote] arg_cong [OF assms, of subscribed] arg_cong [OF assms, of events]
    arg_cong [OF assms, of relayed] arg_cong [OF assms, of versions] arg_cong [OF assms, of hooks]
    arg_cong [OF assms, of changes]
  by (simp_all add: front_def)

lemma front_stored [simp]: "front (stored n r) = front r"
  by (simp add: stored_def)

lemma stored_fields [simp]:
  "jobs (stored n r) = jobs r" "batch (stored n r) = batch r" "folded (stored n r) = folded r" "Store (stored n r) = Store r"
  "dbCalls (stored n r) = dbCalls r" "docID (stored n r) = docID r"
  by (simp_all add: stored_def)

lemma front_flush [simp]: "front (flush w r) = front r"
  by (simp add: flush_def split: prod.split sum.split)

lemma flush_fields [simp]: "jobs (flush w r) = jobs r" "batch (flush w r) = []"
  by (simp_all add: flush_def split: prod.split sum.split)

lemma front_compact [simp]: "front (room_compact w snap r) = front r"
  by (simp add: room_compact_def split: prod.split option.split)

lemma compact_fields [simp]: "jobs (room_compact w snap r) = jobs r" "batch (room_compact w snap r) = batch r"
  by (simp_all add: room_compact_def split: prod.split option.split)

lemma front_saveVersion [simp]: "front (saveVersion w job r) = front r"
  by (simp add: saveVersion_def Let_def split: prod.split sum.split)

lemma saveVersion_fields [simp]: "jobs (saveVersion w job r) = jobs r" "batch (saveVersion w job r) = batch r"
  "folded (saveVersion w job r) = folded r"
  by (simp_all add: saveVersion_def Let_def split: prod.split sum.split)

lemma front_persist_job [simp]: "front (persist_job w job r) = front r"
  by (cases job) (simp_all add: Let_def)

lemma jobs_persist_job [simp]: "jobs (persist_job w job r) = jobs r"
  by (cases job) (simp_all add: Let_def)

lemma batch_persist_job: "length (batch r) < maxBatch \<Longrightarrow> length (batch (persist_job w job r)) < maxBatch"
  by (cases job) (auto simp: Let_def maxBatch_def)

lemma front_fold_job [simp]: "front (fold (persist_job w) js r) = front r"
  by (induction js arbitrary: r) simp_all

lemma jobs_fold_job [simp]: "jobs (fold (persist_job w) js r) = jobs r"
  by (induction js arbitrary: r) simp_all

lemma batch_fold_job: "length (batch r) < maxBatch \<Longrightarrow> length (batch (fold (persist_job w) js r)) < maxBatch"
  by (induction js arbitrary: r) (simp_all add: batch_persist_job)

lemma front_persist_step [simp]: "front (persist_step w r) = front r"
  by (simp add: persist_step_def split: option.split list.split)

lemma front_persist_drain [simp]: "front (persist_drain w r) = front r"
  by (simp add: persist_drain_def split: option.split)

lemma front_send_job [simp]: "front (send_job w job r) = front r"
  by (simp add: send_job_def Let_def split: option.split)

lemma front_requestCompaction [simp]: "front (requestCompaction w r) = front r"
  by (simp add: requestCompaction_def split: sum.split)

lemma front_record [simp]: "front (room_record w u r) = front r"
  by (simp add: room_record_def Let_def)

definition writer_ok :: "Room \<Rightarrow> bool" where
  "writer_ok r \<longleftrightarrow> (case jobs r of None \<Rightarrow> True | Some js \<Rightarrow> length js \<le> persistQueue) \<and> length (batch r) < maxBatch"

lemma maxBatch_pos [simp]: "0 < maxBatch" "0 < persistQueue"
  by (simp_all add: maxBatch_def persistQueue_def)

lemma writer_ok_flush: "writer_ok r \<Longrightarrow> writer_ok (flush w r)"
  by (simp add: writer_ok_def)

lemma writer_ok_persist_step: "writer_ok r \<Longrightarrow> writer_ok (persist_step w r)"
  by (auto simp: writer_ok_def persist_step_def batch_persist_job split: option.splits list.splits)

lemma writer_ok_drain: "writer_ok r \<Longrightarrow> writer_ok (persist_drain w r)"
  by (auto simp: writer_ok_def persist_drain_def batch_fold_job split: option.splits)

lemma writer_ok_send: "writer_ok r \<Longrightarrow> writer_ok (send_job w job r)"
proof (cases "jobs r")
  case (Some js)
  assume ok: "writer_ok r"
  show ?thesis
  proof (cases "persistQueue \<le> length js")
    case True
    then obtain j js' where js: "js = j # js'" using maxBatch_pos(2) by (cases js) auto
    have "jobs (persist_step w r) = Some js'" by (simp add: persist_step_def Some js)
    then show ?thesis
      using writer_ok_persist_step [OF ok, of w] True Some ok js by (auto simp: send_job_def writer_ok_def)
  qed (use Some ok in \<open>auto simp: send_job_def writer_ok_def\<close>)
qed (simp add: send_job_def writer_ok_def)

lemma writer_ok_since [simp]: "writer_ok (r\<lparr>sinceSnapshot := n\<rparr>) = writer_ok r"
  by (simp add: writer_ok_def)

lemma writer_ok_request: "writer_ok r \<Longrightarrow> writer_ok (requestCompaction w r)"
  by (simp add: requestCompaction_def writer_ok_send split: sum.split)

lemma writer_ok_record: "writer_ok r \<Longrightarrow> writer_ok (room_record w u r)"
  by (simp add: room_record_def Let_def writer_ok_request writer_ok_drain writer_ok_send)

subsection \<open>The invariant\<close>

definition room_ok :: "Room \<Rightarrow> bool" where
  "room_ok r \<longleftrightarrow> 0 < Tick (cfg r) \<and> 0 < Mailbox (cfg r) \<and>
     reachable_doc (ServerClientID (cfg r)) (rdoc r) \<and> aware_ok (aw r) \<and> writer_ok r
     \<and> length (remote r) \<le> remoteQueue \<and> int (length (mailbox r)) \<le> Mailbox (cfg r)
     \<and> (if room_closed r then conns r = [] \<and> jobs r = None \<and> pub r = None \<and> mailbox r = [] \<and> \<not> subscribed r
        else conns_ok r)"

lemma writer_ok_cong: "jobs r' = jobs r \<Longrightarrow> batch r' = batch r \<Longrightarrow> writer_ok r' = writer_ok r"
  by (simp add: writer_ok_def)

lemma room_ok_chatter:
  assumes "room_ok r" "\<not> room_closed r" "chatter L r r'"
  shows "room_ok r'"
proof -
  note f = rest_fields [OF chatter_rest [OF assms(3)]]
  have c: "conns_ok r'" using assms by (simp add: room_ok_def chatter_def)
  then show ?thesis using assms(1,2) f writer_ok_cong [of r' r] by (simp add: room_ok_def conns_ok_def)
qed

lemma room_ok_front:
  assumes "room_ok r" "\<not> room_closed r" "front r' = front r" "writer_ok r'"
  shows "room_ok r'"
  using assms front_fields [OF assms(3)] by (simp add: room_ok_def conns_ok_def)

lemma chatter_open: "chatter L r r' \<Longrightarrow> room_closed r' = room_closed r"
  using rest_fields(11) [OF chatter_rest] .

text \<open>The fields that the invariant does not mention.\<close>

lemma room_ok_minor [simp]:
  "room_ok (r\<lparr>u_dirty := a\<rparr>) = room_ok r" "room_ok (r\<lparr>versionDirty := a\<rparr>) = room_ok r"
  "room_ok (r\<lparr>changes := n\<rparr>) = room_ok r" "room_ok (r\<lparr>answers := x\<rparr>) = room_ok r"
  "room_ok (r\<lparr>lastVersion := t\<rparr>) = room_ok r" "room_ok (r\<lparr>lastAnnounce := t\<rparr>) = room_ok r"
  "room_ok (r\<lparr>events := e\<rparr>) = room_ok r" "room_ok (r\<lparr>storedRows := n\<rparr>) = room_ok r"
  "room_ok (r\<lparr>u_bytes := k\<rparr>) = room_ok r" "room_ok (r\<lparr>u_structs := k\<rparr>) = room_ok r"
  "room_ok (r\<lparr>u_measured := t\<rparr>) = room_ok r" "room_ok (r\<lparr>Store := s\<rparr>) = room_ok r"
  "room_ok (r\<lparr>relayed := q\<rparr>) = room_ok r" "room_ok (r\<lparr>folded := js\<rparr>) = room_ok r"
  "room_ok (r\<lparr>dbCalls := k\<rparr>) = room_ok r" "room_ok (r\<lparr>sinceSnapshot := k\<rparr>) = room_ok r"
  by (simp_all add: room_ok_def conns_ok_def writer_ok_def)

lemma room_ok_touch [simp]: "room_ok (touchDocument r) = room_ok r"
  by (simp add: touchDocument_def)

lemma room_ok_changed [simp]: "room_ok (changed r) = room_ok r"
  by (simp add: changed_def)

lemma room_ok_measure [simp]: "room_ok (room_measure w now r) = room_ok r"
  by (simp add: room_measure_def Let_def)

lemma room_ok_emit [simp]: "room_ok (emitHooks now r) = room_ok r"
  by (simp add: emitHooks_def Let_def)

lemma ApplyUpdate_some:
  assumes "reachable_doc c d"
  shows "ApplyUpdate d b = Some (apply_update d b)"
  using ApplyUpdate_ok [OF reachable_wf [OF assms], of b] by (auto simp: apply_update_def)

lemma apply_update_reachable:
  assumes "reachable_doc c d" "apply_update d b = Inr d'"
  shows "reachable_doc c d'"
  using reachable_doc.upd [OF assms(1), of b d'] ApplyUpdate_some [OF assms(1), of b] assms(2) by simp

lemma room_ok_doc:
  assumes "room_ok r" "apply_update (rdoc r) b = Inr d"
  shows "room_ok (r\<lparr>rdoc := d\<rparr>)"
  using assms apply_update_reachable [OF _ assms(2)] by (simp add: room_ok_def conns_ok_def writer_ok_def split: if_splits)

lemma room_ok_aw:
  assumes "room_ok r" "aware_ok a"
  shows "room_ok (r\<lparr>aw := a\<rparr>)"
  using assms by (simp add: room_ok_def conns_ok_def writer_ok_def split: if_splits)

lemma room_ok_record:
  assumes "room_ok r" "\<not> room_closed r" shows "room_ok (room_record w u r)"
  using assms by (intro room_ok_front [OF assms]) (simp_all add: writer_ok_record room_ok_def)

lemma publish_closed [simp]: "room_closed (publish k p r) = room_closed r"
  by (simp add: publish_def split: option.split)

lemma room_ok_publish: "room_ok r \<Longrightarrow> room_ok (publish k p r)"
  by (auto simp: publish_def room_ok_def conns_ok_def writer_ok_def publishQueue_def split: option.split if_splits)

lemma record_closed [simp]: "room_closed (room_record w u r) = room_closed r"
  by (rule front_fields) simp

lemma minor_closed [simp]:
  "room_closed (touchDocument r) = room_closed r" "room_closed (changed r) = room_closed r"
  "room_closed (room_measure w now r) = room_closed r" "room_closed (emitHooks now r) = room_closed r"
  by (simp_all add: touchDocument_def changed_def room_measure_def emitHooks_def Let_def)

lemma room_ok_broadcast: "room_ok r \<Longrightarrow> \<not> room_closed r \<Longrightarrow> room_ok (broadcast w frame except r)"
  using room_ok_chatter [OF _ _ chatter_broadcast] by blast

lemma room_ok_drop: "room_ok r \<Longrightarrow> \<not> room_closed r \<Longrightarrow> room_ok (room_drop w c code reason r)"
  using room_ok_chatter [OF _ _ chatter_drop] by blast

lemma room_ok_Send: "room_ok r \<Longrightarrow> \<not> room_closed r \<Longrightarrow> room_ok (snd (conn_Send w c frame r))"
  using room_ok_chatter [OF _ _ chatter_Send] by blast

lemma Send_closed [simp]: "room_closed (snd (conn_Send w c frame r)) = room_closed r"
  by (simp add: conn_Send_def)

lemma broadcast_closed [simp]: "room_closed (broadcast w frame except r) = room_closed r"
  by (rule chatter_open [OF chatter_broadcast])

lemma rdoc_minor [simp]: "rdoc (touchDocument r) = rdoc r"
  by (simp add: touchDocument_def)

lemma room_ok_update:
  assumes "room_ok r" "\<not> room_closed r" shows "room_ok (room_update w c u r)"
proof (cases "CanWrite c")
  case False
  then show ?thesis
    using assms by (simp add: room_update_def room_ok_drop room_ok_Send)
next
  case True
  show ?thesis
  proof (cases "apply_update (rdoc r) u")
    case (Inr d)
    then have "room_ok ((touchDocument r)\<lparr>rdoc := d\<rparr>)" using room_ok_doc [of "touchDocument r" u d] assms by simp
    then show ?thesis
      using True Inr assms by (simp add: room_update_def Let_def room_ok_publish room_ok_broadcast room_ok_record)
  qed (use True assms in \<open>simp add: room_update_def room_ok_drop\<close>)
qed

lemma room_ok_awareness:
  assumes "room_ok r" "\<not> room_closed r" shows "room_ok (room_awareness w c payload r)"
proof -
  obtain a ids er where a: "aw_ApplyUpdate payload (io_now w) (aw r) = (a, ids, er)" by (cases "aw_ApplyUpdate payload (io_now w) (aw r)")
  have "aware_ok a" using aware_ok_ApplyUpdate [of "aw r" payload "io_now w"] a assms by (simp add: room_ok_def)
  then have r: "room_ok (r\<lparr>aw := a\<rparr>)" using room_ok_aw assms(1) by blast
  show ?thesis
  proof (cases er)
    case (Some e)
    then show ?thesis using a r assms by (simp add: room_awareness_def Let_def room_ok_drop room_ok_Send)
  next
    case None
    have m: "map fst (AList.map_entry c f xs) = map fst xs" "(AList.map_entry c f xs = []) = (xs = [])" for f and xs :: "(Conn \<times> nat list) list"
      by (induction xs) auto
    then have "room_ok (r\<lparr>aw := a, conns := AList.map_entry c (add_clients ids) (conns r)\<rparr>)"
      using r assms(2) by (simp add: room_ok_def conns_ok_def writer_ok_def)
    then show ?thesis
      using a r None assms by (simp add: room_awareness_def Let_def room_ok_broadcast room_ok_publish split: sum.split)
  qed
qed

lemma room_ok_frame:
  assumes "room_ok r" "\<not> room_closed r" shows "room_ok (room_frame w c frame r)"
  using assms room_ok_chatter [OF assms chatter_syncStep1] room_ok_chatter [OF assms chatter_sendAll]
  by (simp add: room_frame_def room_ok_drop room_ok_update room_ok_awareness split: sum.split Message.split)

lemma room_ok_remote:
  assumes "room_ok r" "\<not> room_closed r" shows "room_ok (remoteEnvelope w env r)"
proof -
  have u: "room_ok (remoteUpdate w b r)" for b
  proof (cases "apply_update (rdoc r) b")
    case (Inr d)
    then have "room_ok ((touchDocument r)\<lparr>rdoc := d\<rparr>)" using room_ok_doc [of "touchDocument r" b d] assms by simp
    then show ?thesis using Inr assms by (simp add: remoteUpdate_def room_ok_broadcast)
  qed (simp add: remoteUpdate_def assms)
  have a: "room_ok (remoteAwareness w b r)" for b
  proof -
    obtain a ids er where a: "aw_ApplyUpdate b (io_now w) (aw r) = (a, ids, er)" by (cases "aw_ApplyUpdate b (io_now w) (aw r)")
    have "aware_ok a" using aware_ok_ApplyUpdate [of "aw r" b "io_now w"] a assms by (simp add: room_ok_def)
    then have "room_ok (r\<lparr>aw := a\<rparr>)" using room_ok_aw assms(1) by blast
    then show ?thesis
      using a assms by (cases er) (simp_all add: remoteAwareness_def Let_def room_ok_broadcast split: sum.split)
  qed
  show ?thesis
    using u a assms by (simp add: remoteEnvelope_def answerStateVector_def room_ok_publish split: sum.split)
qed

subsection \<open>Stopping and the clock\<close>

lemma publish_one_fields [simp]:
  "front (publish_one w e r) = (front r)\<lparr>relayed := relayed (publish_one w e r)\<rparr>"
  "jobs (publish_one w e r) = jobs r" "batch (publish_one w e r) = batch r" "folded (publish_one w e r) = folded r"
  "Store (publish_one w e r) = Store r" "pub (publish_one w e r) = pub r" "conns (publish_one w e r) = conns r"
  "rdoc (publish_one w e r) = rdoc r" "cfg (publish_one w e r) = cfg r" "aw (publish_one w e r) = aw r"
  "remote (publish_one w e r) = remote r" "mailbox (publish_one w e r) = mailbox r"
  "room_closed (publish_one w e r) = room_closed r" "subscribed (publish_one w e r) = subscribed r"
  "docID (publish_one w e r) = docID r" "dbCalls (publish_one w e r) = dbCalls r" "closes (publish_one w e r) = closes r"
  by (simp_all add: publish_one_def front_def)

lemma fold_publish_fields [simp]:
  "jobs (fold (publish_one w) q r) = jobs r" "batch (fold (publish_one w) q r) = batch r"
  "folded (fold (publish_one w) q r) = folded r"
  "Store (fold (publish_one w) q r) = Store r" "pub (fold (publish_one w) q r) = pub r" "conns (fold (publish_one w) q r) = conns r"
  "rdoc (fold (publish_one w) q r) = rdoc r" "cfg (fold (publish_one w) q r) = cfg r" "aw (fold (publish_one w) q r) = aw r"
  "remote (fold (publish_one w) q r) = remote r" "mailbox (fold (publish_one w) q r) = mailbox r"
  "room_closed (fold (publish_one w) q r) = room_closed r" "subscribed (fold (publish_one w) q r) = subscribed r"
  "docID (fold (publish_one w) q r) = docID r" "dbCalls (fold (publish_one w) q r) = dbCalls r"
  "closes (fold (publish_one w) q r) = closes r"
  by (induction q arbitrary: r) simp_all

lemma stopFanout_fields [simp]:
  "jobs (stopFanout w r) = jobs r" "batch (stopFanout w r) = batch r" "folded (stopFanout w r) = folded r"
  "Store (stopFanout w r) = Store r" "pub (stopFanout w r) = None" "conns (stopFanout w r) = conns r"
  "rdoc (stopFanout w r) = rdoc r" "cfg (stopFanout w r) = cfg r" "aw (stopFanout w r) = aw r"
  "remote (stopFanout w r) = remote r" "mailbox (stopFanout w r) = mailbox r"
  "room_closed (stopFanout w r) = room_closed r" "subscribed (stopFanout w r) = False"
  "docID (stopFanout w r) = docID r" "dbCalls (stopFanout w r) = dbCalls r" "closes (stopFanout w r) = closes r"
  by (auto simp: stopFanout_def Let_def split: option.split)

lemma close_conns_eq: "close_conns cs code reason r = r\<lparr>closes := closes r @ map (\<lambda>c. (c, code, reason)) cs\<rparr>"
  unfolding close_conns_def by (induction cs arbitrary: r) (simp_all add: conn_Close_def)

definition joiners :: "command list \<Rightarrow> Conn list" where
  "joiners cs = List.map_filter (\<lambda>c. case c of JoinCmd x \<Rightarrow> Some x | _ \<Rightarrow> None) cs"

lemma close_joiner_eq:
  "close_joiner code reason c r = r\<lparr>closes := closes r @ map (\<lambda>x. (x, code, reason)) (joiners [c])\<rparr>"
  by (cases c) (simp_all add: joiners_def List.map_filter_def conn_Close_def)

lemma fold_close_joiner:
  "fold (close_joiner code reason) cs r = r\<lparr>closes := closes r @ map (\<lambda>x. (x, code, reason)) (joiners cs)\<rparr>"
proof (induction cs arbitrary: r)
  case (Cons c cs)
  then show ?case by (simp add: close_joiner_eq joiners_def List.map_filter_def split: option.split)
qed (simp add: joiners_def List.map_filter_def)

lemma front_finish [simp]: "front (finishPersisting w r) = front r"
  by (simp add: finishPersisting_def)

lemma finish_fields [simp]: "jobs (finishPersisting w r) = None"
  by (simp add: finishPersisting_def)

lemma writer_ok_finish: "writer_ok r \<Longrightarrow> writer_ok (finishPersisting w r)"
  by (simp add: finishPersisting_def) (simp add: writer_ok_def)

text \<open>What is left of a room that has stopped: everybody in it or about to join it has been closed.\<close>

lemma emit_fields [simp]:
  "jobs (emitHooks now r) = jobs r" "batch (emitHooks now r) = batch r" "folded (emitHooks now r) = folded r"
  "Store (emitHooks now r) = Store r" "pub (emitHooks now r) = pub r" "conns (emitHooks now r) = conns r"
  "rdoc (emitHooks now r) = rdoc r" "cfg (emitHooks now r) = cfg r" "aw (emitHooks now r) = aw r"
  "remote (emitHooks now r) = remote r" "mailbox (emitHooks now r) = mailbox r"
  "subscribed (emitHooks now r) = subscribed r" "lastEmpty (emitHooks now r) = lastEmpty r"
  "docID (emitHooks now r) = docID r" "dbCalls (emitHooks now r) = dbCalls r" "closes (emitHooks now r) = closes r"
  "owner (emitHooks now r) = owner r"
  by (simp_all add: emitHooks_def Let_def)

definition before_writing :: "io \<Rightarrow> nat \<Rightarrow> bytes \<Rightarrow> Room \<Rightarrow> Room" where
  "before_writing w code reason r =
     stopFanout w ((close_conns (map fst (conns r)) code reason (emitHooks (io_now w) r))\<lparr>conns := []\<rparr>)"

lemma room_stop_eq:
  "room_stop w code reason r =
     (let r' = emitHooks (io_now w) (finishPersisting w (before_writing w code reason r))
      in r'\<lparr>room_closed := True, closes := closes r' @ map (\<lambda>x. (x, code, reason)) (joiners (mailbox r')), mailbox := []\<rparr>)"
  by (simp add: room_stop_def Let_def fold_close_joiner before_writing_def)

lemma before_writing_fields [simp]:
  "jobs (before_writing w code reason r) = jobs r" "batch (before_writing w code reason r) = batch r"
  "folded (before_writing w code reason r) = folded r" "Store (before_writing w code reason r) = Store r"
  "pub (before_writing w code reason r) = None" "conns (before_writing w code reason r) = []"
  "rdoc (before_writing w code reason r) = rdoc r" "cfg (before_writing w code reason r) = cfg r"
  "aw (before_writing w code reason r) = aw r" "remote (before_writing w code reason r) = remote r"
  "mailbox (before_writing w code reason r) = mailbox r" "subscribed (before_writing w code reason r) = False"
  "docID (before_writing w code reason r) = docID r" "dbCalls (before_writing w code reason r) = dbCalls r"
  "closes (before_writing w code reason r) = closes r @ map (\<lambda>c. (c, code, reason)) (map fst (conns r))"
  by (simp_all add: before_writing_def close_conns_eq)

lemma room_stop_fields:
  "room_closed (room_stop w code reason r)" "conns (room_stop w code reason r) = []" "jobs (room_stop w code reason r) = None"
  "pub (room_stop w code reason r) = None" "mailbox (room_stop w code reason r) = []" "\<not> subscribed (room_stop w code reason r)"
  "closes (room_stop w code reason r) = closes r @ map (\<lambda>c. (c, code, reason)) (map fst (conns r) @ joiners (mailbox r))"
  "rdoc (room_stop w code reason r) = rdoc r" "cfg (room_stop w code reason r) = cfg r" "aw (room_stop w code reason r) = aw r"
  "remote (room_stop w code reason r) = remote r"
  "Store (room_stop w code reason r) = Store (finishPersisting w (before_writing w code reason r))"
  using front_fields [OF front_finish [of w "before_writing w code reason r"]]
  by (simp_all add: room_stop_eq Let_def)

lemma batch_room_stop: "batch (room_stop w code reason r) = batch (finishPersisting w (before_writing w code reason r))"
  by (simp add: room_stop_eq Let_def)

lemma room_ok_stop:
  assumes "room_ok r" shows "room_ok (room_stop w code reason r)"
proof -
  have "writer_ok (before_writing w code reason r)" using assms writer_ok_cong [of "before_writing w code reason r" r] by (simp add: room_ok_def)
  then have "writer_ok (finishPersisting w (before_writing w code reason r))" by (rule writer_ok_finish)
  then have "writer_ok (room_stop w code reason r)"
    using writer_ok_cong [of "room_stop w code reason r" "finishPersisting w (before_writing w code reason r)"]
    by (simp add: room_stop_fields batch_room_stop)
  then show ?thesis using assms by (simp add: room_ok_def room_stop_fields)
qed

lemma room_ok_announce: "room_ok r \<Longrightarrow> room_ok (announce now r)"
  by (simp add: announce_def room_ok_publish split: sum.split)

lemma announce_closed [simp]: "room_closed (announce now r) = room_closed r"
  by (simp add: announce_def split: sum.split)

lemma front_failVersion [simp]: "front (failVersion job r) = front r" "jobs (failVersion job r) = jobs r" "batch (failVersion job r) = batch r"
  by (simp_all add: failVersion_def)

lemma front_queueVersion [simp]: "front (queueVersion w job r) = front r"
  by (simp add: queueVersion_def Let_def split: sum.split)

lemma writer_ok_queueVersion: "writer_ok r \<Longrightarrow> writer_ok (queueVersion w job r)"
  using writer_ok_cong [of "failVersion _ r" r]
  by (auto simp: queueVersion_def Let_def writer_ok_send split: sum.split)

lemma queueVersion_closed [simp]: "room_closed (queueVersion w job r) = room_closed r"
  by (rule front_fields) simp

lemma room_ok_queueVersion: "room_ok r \<Longrightarrow> \<not> room_closed r \<Longrightarrow> room_ok (queueVersion w job r)"
  by (rule room_ok_front) (simp_all add: writer_ok_queueVersion room_ok_def)

lemma room_ok_versionTick: "room_ok r \<Longrightarrow> \<not> room_closed r \<Longrightarrow> room_ok (versionTick w now r)"
  by (simp add: versionTick_def room_ok_queueVersion)

lemma versionTick_closed [simp]: "room_closed (versionTick w now r) = room_closed r"
  by (simp add: versionTick_def)

definition swept :: "io \<Rightarrow> int \<Rightarrow> Room \<Rightarrow> Room" where
  "swept w now r =
     (case Sweep now (AwarenessTTL (cfg r)) (aw r) of
        (a, Inl er) \<Rightarrow> r\<lparr>aw := a\<rparr>
      | (a, Inr (gone, payload)) \<Rightarrow>
          if gone = [] then r\<lparr>aw := a\<rparr> else broadcast w (WriteAwareness payload) None (r\<lparr>aw := a\<rparr>))"

lemma room_tick_eq:
  "room_tick w now r =
     (let r' = versionTick w now (emitHooks now (announce now (swept w now (room_measure w now r))))
      in case lastEmpty r' of
           None \<Rightarrow> (False, r')
         | Some t \<Rightarrow> if conns r' \<noteq> [] \<or> now - t < IdleTimeout (cfg r') then (False, r') else (True, evict w r'))"
  by (simp add: room_tick_def swept_def Let_def split: option.split)

lemma room_ok_swept:
  assumes "room_ok r" "\<not> room_closed r" shows "room_ok (swept w now r)"
proof -
  obtain a res where a: "Sweep now (AwarenessTTL (cfg r)) (aw r) = (a, res)" by fastforce
  have "aware_ok a" using aware_ok_Sweep [of "aw r" now "AwarenessTTL (cfg r)"] a assms by (simp add: room_ok_def)
  then have "room_ok (r\<lparr>aw := a\<rparr>)" using room_ok_aw assms(1) by blast
  then show ?thesis using a assms by (auto simp: swept_def room_ok_broadcast split: sum.split)
qed

lemma swept_closed [simp]: "room_closed (swept w now r) = room_closed r"
  by (auto simp: swept_def split: prod.split sum.split)

lemma room_ok_tick:
  assumes "room_ok r" "\<not> room_closed r" shows "room_ok (snd (room_tick w now r))"
proof -
  have "room_ok (versionTick w now (emitHooks now (announce now (swept w now (room_measure w now r)))))"
    using assms by (simp add: room_ok_versionTick room_ok_announce room_ok_swept)
  then show ?thesis by (auto simp: room_tick_eq Let_def evict_def room_ok_stop split: option.split)
qed

lemma room_ok_handle:
  assumes "room_ok r" "\<not> room_closed r" shows "room_ok (snd (room_handle w c r))"
proof (cases c)
  case (JoinCmd x)
  have "room_ok (r\<lparr>conns := conns r @ [(x, [])], lastEmpty := None\<rparr>)" if "map_of (conns r) x = None"
    using assms that by (simp add: room_ok_def conns_ok_def writer_ok_def map_of_eq_None_iff)
  then show ?thesis using JoinCmd assms by (simp add: room_join_def)
next
  case (LeaveCmd x)
  then show ?thesis using room_ok_chatter [OF assms chatter_leave] by simp
next
  case (MergeCmd u)
  show ?thesis
  proof (cases "apply_update (rdoc r) u")
    case (Inr d)
    then have "room_ok ((touchDocument r)\<lparr>rdoc := d\<rparr>)" using room_ok_doc [of "touchDocument r" u d] assms by simp
    then show ?thesis
      using MergeCmd Inr assms by (simp add: room_merge_def Let_def room_ok_publish room_ok_broadcast room_ok_record)
  qed (use MergeCmd assms in \<open>simp add: room_merge_def Let_def\<close>)
next
  case EvictCmd
  then show ?thesis using assms by (simp add: evict_def room_ok_stop Let_def)
qed (use assms in \<open>simp_all add: room_ok_frame room_ok_tick room_read_def takeVersion_def Let_def room_ok_queueVersion\<close>)

subsection \<open>Runs\<close>

lemma room_ok_send:
  assumes "room_send c r = Some (e, r')" "room_ok r" shows "room_ok r'"
  using assms by (auto simp: room_send_def room_ok_def writer_ok_def conns_ok_def split: if_splits)

lemma room_ok_mailbox: "mailbox r = c # cs \<Longrightarrow> room_ok r \<Longrightarrow> room_ok (r\<lparr>mailbox := cs\<rparr>)"
  by (auto simp: room_ok_def writer_ok_def conns_ok_def)

lemma room_ok_taken: "remote r = e # es \<Longrightarrow> room_ok r \<Longrightarrow> room_ok (r\<lparr>remote := es\<rparr>)"
  by (auto simp: room_ok_def writer_ok_def conns_ok_def)

lemma room_ok_receive: "room_ok r \<Longrightarrow> room_ok (receive e r)"
  by (auto simp: receive_def room_ok_def writer_ok_def conns_ok_def)

lemma room_ok_publish_step: "room_ok r \<Longrightarrow> room_ok (publish_step w r)"
  by (auto simp: publish_step_def publish_one_def room_ok_def writer_ok_def conns_ok_def split: option.split list.split)

lemma room_ok_persist: "room_ok r \<Longrightarrow> room_ok (persist_step w r)"
proof (cases "room_closed r")
  case False
  assume "room_ok r"
  then show ?thesis
    by (rule room_ok_front [OF _ False]) (use \<open>room_ok r\<close> in \<open>simp_all add: writer_ok_persist_step room_ok_def\<close>)
qed (simp add: room_ok_def persist_step_def)

lemma room_ok_flush: "room_ok r \<Longrightarrow> \<not> room_closed r \<Longrightarrow> room_ok (flush w r)"
  by (rule room_ok_front) (simp_all add: writer_ok_flush room_ok_def)

text \<open>
  A room between two turns of its loop, together with the writer, the publisher, the subscription
  and the callers that share its channels. \<open>accepted\<close> is what a command makes the room answer for: the
  update of a connection that may write, or of a merge, when the document takes it. Between two turns
  the database may change in any way, because other replicas write to it.
\<close>

definition taken :: "Room \<Rightarrow> bytes \<Rightarrow> bytes set" where
  "taken r u = (case apply_update (rdoc r) u of Inl er \<Rightarrow> {} | Inr d \<Rightarrow> {u})"

definition accepted :: "command \<Rightarrow> Room \<Rightarrow> bytes set" where
  "accepted c r =
     (case c of
        FrameCmd x frame \<Rightarrow>
          if map_of (conns r) x = None \<or> \<not> CanWrite x then {}
          else (case Decode frame of
                  Inr (SyncStep2Message u) \<Rightarrow> taken r u
                | Inr (UpdateMessage u) \<Rightarrow> taken r u
                | _ \<Rightarrow> {})
      | MergeCmd u \<Rightarrow> taken r u
      | _ \<Rightarrow> {})"

inductive room_turn :: "io \<Rightarrow> bytes set \<Rightarrow> Room \<Rightarrow> Room \<Rightarrow> bool" for w where
  turn_send: "room_send c r = Some (e, r') \<Longrightarrow> room_turn w {} r r'"
| turn_handle: "\<not> room_closed r \<Longrightarrow> mailbox r = c # cs \<Longrightarrow> room_turn w (accepted c r) r (snd (room_handle w c (r\<lparr>mailbox := cs\<rparr>)))"
| turn_ticker: "\<not> room_closed r \<Longrightarrow> room_turn w {} r (snd (room_tick w now r))"
| turn_remote: "\<not> room_closed r \<Longrightarrow> remote r = e # es \<Longrightarrow> room_turn w {} r (remoteEnvelope w e (r\<lparr>remote := es\<rparr>))"
| turn_cancel: "\<not> room_closed r \<Longrightarrow> room_turn w {} r (room_stop w CloseGoingAway (str ''server shutting down'') r)"
| turn_receive: "room_turn w {} r (receive e r)"
| turn_persist: "room_turn w {} r (persist_step w r)"
| turn_flush: "\<not> room_closed r \<Longrightarrow> room_turn w {} r (flush w r)"
| turn_publish: "room_turn w {} r (publish_step w r)"

inductive reachable_room :: "Room \<Rightarrow> bool" where
  room_started: "int (length cs) \<le> Mailbox (cfg (NewRoom sha1 random now s c))
     \<Longrightarrow> reachable_room (Run_start w ((NewRoom sha1 random now s c)\<lparr>mailbox := cs\<rparr>))"
| room_turned: "reachable_room r \<Longrightarrow> room_turn w A r r' \<Longrightarrow> reachable_room r'"
| room_overwritten: "reachable_room r \<Longrightarrow> reachable_room (r\<lparr>Store := s\<rparr>)"

inductive_cases room_turnE: "room_turn w A r r'"

lemma room_ok_turn: "room_turn w A r r' \<Longrightarrow> room_ok r \<Longrightarrow> room_ok r'"
proof (induction rule: room_turn.induct)
  case (turn_handle r c cs)
  then show ?case using room_ok_handle [OF room_ok_mailbox] by simp
next
  case (turn_remote r e es)
  then show ?case using room_ok_remote [OF room_ok_taken] by simp
qed (simp_all add: room_ok_send room_ok_tick room_ok_stop room_ok_receive room_ok_persist room_ok_flush room_ok_publish_step)

lemma aware_ok_new: "aware_ok (NewAwarenessWithLimits l)"
  by (simp add: aware_ok_def NewAwarenessWithLimits_def aw_Len_def aw_Entries_def)

lemma room_ok_NewRoom:
  "int (length cs) \<le> Mailbox (cfg (NewRoom sha1 random now s c)) \<Longrightarrow> room_ok ((NewRoom sha1 random now s c)\<lparr>mailbox := cs\<rparr>)"
  by (simp add: NewRoom_def Let_def room_ok_def writer_ok_def conns_ok_def remoteQueue_def aware_ok_new reachable_doc.new setDefaults_def
      DefaultTick_def DefaultMailbox_def time_Second_def)

lemma apply_or_skip_reachable: "reachable_doc cid d \<Longrightarrow> reachable_doc cid (apply_or_skip u d)"
  by (auto simp: apply_or_skip_def intro: apply_update_reachable split: sum.split)

lemma fold_skip_reachable: "reachable_doc cid d \<Longrightarrow> reachable_doc cid (fold apply_or_skip us d)"
  by (induction us arbitrary: d) (simp_all add: apply_or_skip_reachable)

lemma room_ok_load:
  assumes "room_ok r" shows "room_ok (snd (room_load w r))"
proof -
  have d: "room_ok (r'\<lparr>rdoc := d\<rparr>)" if "room_ok r'" "reachable_doc (ServerClientID (cfg r')) d" for r' d
    using that by (simp add: room_ok_def writer_ok_def conns_ok_def split: if_splits)
  have s: "room_ok (r\<lparr>Store := s, dbCalls := n\<rparr>)" for s n using assms by simp
  show ?thesis
  proof (cases "fst (Load (io_down w (dbCalls r)) (io_inflate w) (io_now w) (docID r) (cfg_Name (cfg r)) (owner r) (Store r))")
    case (Inl er)
    then show ?thesis using s by (auto simp: room_load_def split: prod.split)
  next
    case (Inr l)
    show ?thesis
    proof (cases "case docSnapshot l of None \<Rightarrow> Inr (rdoc r) | Some b \<Rightarrow> apply_update (rdoc r) b")
      case (Inl er)
      then show ?thesis using s \<open>fst _ = Inr l\<close> by (auto simp: room_load_def Let_def split: prod.split option.splits)
    next
      case (Inr d0)
      have "reachable_doc (ServerClientID (cfg r)) d0"
        using Inr assms apply_update_reachable by (auto simp: room_ok_def split: option.splits)
      from fold_skip_reachable [OF this] show ?thesis
        using Inr s d \<open>fst _ = Inr l\<close> by (auto simp: room_load_def Let_def split: prod.split option.splits)
    qed
  qed
qed

lemma abandon_closed [simp]: "room_closed (abandonPersisting r) = room_closed r"
  by (simp add: abandonPersisting_def)

lemma room_ok_abandon: "room_ok r \<Longrightarrow> room_ok (abandonPersisting r)"
  by (simp add: abandonPersisting_def room_ok_def writer_ok_def conns_ok_def split: if_splits)

lemma room_ok_Run_start:
  assumes "room_ok r" "\<not> room_closed r" shows "room_ok (Run_start w r)"
proof -
  have f: "room_ok (snd (startFanout w r))" using assms by (simp add: startFanout_def room_ok_def writer_ok_def conns_ok_def)
  have l: "room_ok (snd (room_load w (snd (startFanout w r))))" by (rule room_ok_load [OF f])
  show ?thesis using f l
    by (auto simp: Run_start_def room_ok_stop room_ok_abandon split: prod.splits bool.splits option.splits)
qed

lemma reachable_room_ok: "reachable_room r \<Longrightarrow> room_ok r"
proof (induction rule: reachable_room.induct)
  case (room_started cs sha1 random now s c w)
  then show ?case by (intro room_ok_Run_start room_ok_NewRoom) (simp_all add: NewRoom_def Let_def)
qed (simp_all add: room_ok_turn)

end
