(* ===== verification/Room_Durability.thy ===== *)
theory Room_Durability
  imports Room_Steps
begin

text \<open>
  Nothing a room has accepted is lost. An accepted update is, at every moment, in the queue of the
  writer, in its batch, in a row of the log, or in a document that a stored snapshot encodes; and a
  snapshot waiting in the queue encodes a document with everything accepted before it. Both hold
  across every turn of the room and of its writer, whatever else of the database fails, as long as
  the writer's appends succeed and no other replica compacts the same document.
\<close>

subsection \<open>What a document has taken in\<close>

inductive took_in :: "bytes \<Rightarrow> doc \<Rightarrow> bool" for u where
  applied: "reachable_doc client d \<Longrightarrow> ApplyUpdate d u = Some (Inr d') \<Longrightarrow> took_in u d'"
| later: "took_in u d \<Longrightarrow> ApplyUpdate d v = Some (Inr d') \<Longrightarrow> took_in u d'"
| reloaded: "took_in u d \<Longrightarrow> EncodeStateAsUpdate d [] = Inr b \<Longrightarrow> reachable_doc client d0
    \<Longrightarrow> ApplyUpdate d0 b = Some (Inr d') \<Longrightarrow> took_in u d'"

lemma took_in_apply:
  assumes "reachable_doc client d" "apply_update d v = Inr d'"
  shows "took_in v d'" "took_in u d \<Longrightarrow> took_in u d'"
  using ApplyUpdate_some [OF assms(1), of v] assms took_in.applied [of client d v d'] took_in.later [of u d v d']
  by simp_all

definition snapshot_has :: "bytes \<Rightarrow> bytes \<Rightarrow> bool" where
  "snapshot_has s u \<longleftrightarrow> (\<exists>d. EncodeStateAsUpdate d [] = Inr s \<and> took_in u d)"

subsection \<open>Watermarks\<close>

definition mark_ok :: "uuid \<Rightarrow> db \<Rightarrow> bool" where
  "mark_ok i s \<longleftrightarrow> (\<forall>r. map_of (documents s) i = Some r \<longrightarrow>
     snapshot_seq r < next_seq s \<and> snapshot_seq r \<notin> fst ` set (row_log i s))"

lemma row_seq: "db_ok s \<Longrightarrow> k \<in> fst ` set (row_log i s) \<Longrightarrow> k < next_seq s"
  by (auto simp: row_log_def rows_of_def db_ok_def)

lemma mark_ok_Append:
  assumes "db_ok s" "mark_ok i s" shows "mark_ok i (snd (Store_Append down now i ps s))"
proof (cases "map_of (documents s) i \<noteq> None \<and> \<not> down (Statement 0)")
  case True
  have z: "k < next_seq s \<Longrightarrow> k \<notin> fst ` set (zip [next_seq s ..< next_seq s + length ps] ps)" for k
    by (auto dest: set_zip_leftD)
  have d: "documents (snd (Store_Append down now i ps s)) = documents s"
    "next_seq s \<le> next_seq (snd (Store_Append down now i ps s))" by (simp_all add: Store_Append_def)
  have l: "row_log i (snd (Store_Append down now i ps s)) = row_log i s @ zip [next_seq s ..< next_seq s + length ps] ps"
    using row_log_Append [OF assms(1), of i down i now ps] True by simp
  show ?thesis unfolding mark_ok_def l d(1)
  proof (intro allI impI)
    fix r assume "map_of (documents s) i = Some r"
    then have "snapshot_seq r < next_seq s" "snapshot_seq r \<notin> fst ` set (row_log i s)" using assms(2) by (simp_all add: mark_ok_def)
    then show "snapshot_seq r < next_seq (snd (Store_Append down now i ps s)) \<and>
        snapshot_seq r \<notin> fst ` set (row_log i s @ zip [next_seq s ..< next_seq s + length ps] ps)"
      using z [of "snapshot_seq r"] d(2) by (simp add: image_Un)
  qed
qed (use assms in \<open>auto simp: Store_Append_def\<close>)

lemma fold_max_in: "xs \<noteq> [] \<Longrightarrow> fold max xs (0 :: nat) \<in> set xs"
proof -
  have "fold max ys a \<in> insert a (set ys)" for a :: nat and ys
    by (induction ys arbitrary: a) (auto simp: max_def)
  then show "xs \<noteq> [] \<Longrightarrow> fold max xs (0 :: nat) \<in> set xs" by (cases xs) (simp, metis fold_simps(2) insertE list.set(2) max_0R)
qed

lemma mark_ok_same:
  "mark_ok i s \<Longrightarrow> documents s' = documents s \<Longrightarrow> doc_updates s' = doc_updates s \<Longrightarrow> next_seq s' = next_seq s \<Longrightarrow> mark_ok i s'"
  by (simp add: mark_ok_def row_log_def rows_of_def)

lemma row_log_compacted:
  "row_log i (compacted down now i ks packed cdc r s) = filter (\<lambda>(k, p). k \<notin> set ks) (row_log i s)"
  using row_log_filter [of "compacted down now i ks packed cdc r s" i ks s i]
  by (simp add: compacted_def Let_def prune_log_def)

lemma mark_ok_Compact:
  assumes "db_ok s" "mark_ok i s" "set ks \<subseteq> fst ` set (row_log i s)"
  shows "mark_ok i (snd (Compact down deflate now i snap ks s))"
proof -
  obtain packed cdc where p: "Pack deflate snap = (packed, cdc)" by fastforce
  let ?w = "fold max ks 0"
  have c: "mark_ok i (compacted down now i ks packed cdc r s)" if "ks \<noteq> []" for r
  proof -
    have w: "?w \<in> set ks" "?w < next_seq s" using fold_max_in [OF that] assms(3) row_seq [OF assms(1), of ?w i] by auto
    have "next_seq (compacted down now i ks packed cdc r s) = next_seq s"
      by (simp add: compacted_def Let_def prune_log_def)
    moreover have "snapshot_seq x = ?w" if "map_of (documents (compacted down now i ks packed cdc r s)) i = Some x" for x
      using that by (auto simp: compacted_def Let_def prune_log_def write_snapshot_def AList.update_conv' split: if_splits)
    moreover have "?w \<notin> fst ` set (row_log i (compacted down now i ks packed cdc r s))"
      using w(1) by (auto simp: row_log_compacted)
    ultimately show ?thesis using w(2) by (simp add: mark_ok_def)
  qed
  have "mark_ok i (put_snapshot i ?w packed s)" "mark_ok i (dropBlob down key (put_snapshot i ?w packed s))" for key
    by (rule mark_ok_same [OF assms(2)]; simp)+
  then show ?thesis using c assms(2) by (simp add: Compact_eq [OF p] Let_def split: option.split)
qed

lemma snapshotKey_mark: "snapshotKey i v = snapshotKey i w \<Longrightarrow> v = w"
proof -
  assume "snapshotKey i v = snapshotKey i w"
  then have "FormatInt (int v) = FormatInt (int w)" by (simp only: snapshotKey_def same_append_eq)
  then have "decimal v = decimal w" by (simp add: FormatInt_def)
  then show "v = w" using parse_decimal [of v] parse_decimal [of w] by (metis option.inject)
qed

lemma mark_free:
  assumes "blob_ok s" "mark_ok i s" "set ks \<subseteq> fst ` set (row_log i s)" "ks \<noteq> []"
  shows "watermark_free i ks s"
proof (cases "map_of (documents s) i")
  case (Some r)
  have "snapshot_key r \<noteq> snapshotKey i (fold max ks 0)"
  proof
    assume k: "snapshot_key r = snapshotKey i (fold max ks 0)"
    then have "snapshot_key r = snapshotKey i (snapshot_seq r)"
      using key_okD(2) [of s i r] assms(1) map_of_SomeD [OF Some] by (simp add: blob_ok_def)
    then have "snapshot_seq r = fold max ks 0" using k snapshotKey_mark by metis
    then show False using assms(2,3) fold_max_in [OF assms(4)] Some by (auto simp: mark_ok_def)
  qed
  then show ?thesis by (simp add: watermark_free_def Some)
qed (simp add: watermark_free_def)

subsection \<open>Names of versions\<close>

lemma key_free_dropBlob [simp]:
  "key_free k (dropBlob down key s) = key_free k s" "key_free k (dropBlobs down keys s) = key_free k s"
  by (simp_all add: key_free_def)

lemma key_free_objects [simp]: "key_free k (s\<lparr>objects := x\<rparr>) = key_free k s"
  by (simp add: key_free_def)

lemma key_free_Append [simp]: "key_free k (snd (Store_Append down now i ps s)) = key_free k s"
  by (simp add: Store_Append_def key_free_def)

lemma set_update_subset: "set (AList.update k v al) \<subseteq> insert (k, v) (set al)"
  by (induction al) auto

lemma key_free_Compact:
  assumes "key_free (versionKey x j) s" shows "key_free (versionKey x j) (snd (Compact down deflate now i snap ks s))"
proof -
  obtain packed cdc where p: "Pack deflate snap = (packed, cdc)" by fastforce
  have "put_key i v s \<noteq> versionKey x j" for v
    using snapshot_not_version [of i v x j] versionKey_nonempty [of x j] by (auto simp: put_key_def simp del: versionKey_nonempty)
  then have c: "key_free (versionKey x j) (compacted down now i ks packed cdc r s)" for r
    using assms by (auto simp: compacted_def Let_def key_free_def prune_log_def write_snapshot_def list_all_iff
        dest!: set_mp [OF set_update_subset])
  have put: "key_free (versionKey x j) (put_snapshot i v packed s)" for v
    using assms by (simp add: put_snapshot_def)
  show ?thesis using assms c put by (simp add: Compact_eq [OF p] Let_def split: option.split)
qed

lemma key_free_SaveVersion:
  assumes "key_free k s" "k \<noteq> versionKey rand i" "k \<noteq> []"
  shows "key_free k (snd (SaveVersion down deflate rand now i v minAge s))"
proof -
  obtain packed cdc where p: "Pack deflate (verPayload v) = (packed, cdc)" by fastforce
  have put: "key_free k (put_version key packed s)" for key
    using assms by (simp add: put_version_def)
  show ?thesis
    using assms put by (auto simp: SaveVersion_eq [OF p] Let_def key_free_def version_row_of_def)
qed

lemma key_free_Prune:
  assumes "key_free k s" shows "key_free k (snd (PruneVersions down i keep s))"
  using assms by (auto simp: PruneVersions_def Let_def key_free_def list_all_iff)

lemma SaveVersion_tables [simp]:
  "documents (snd (SaveVersion down deflate rand now i v minAge s)) = documents s"
  "doc_updates (snd (SaveVersion down deflate rand now i v minAge s)) = doc_updates s"
  "next_seq (snd (SaveVersion down deflate rand now i v minAge s)) = next_seq s"
proof -
  obtain packed cdc where p: "Pack deflate (verPayload v) = (packed, cdc)" by fastforce
  show "documents (snd (SaveVersion down deflate rand now i v minAge s)) = documents s"
    "doc_updates (snd (SaveVersion down deflate rand now i v minAge s)) = doc_updates s"
    "next_seq (snd (SaveVersion down deflate rand now i v minAge s)) = next_seq s"
    by (simp_all add: SaveVersion_eq [OF p] Let_def put_version_def)
qed

lemma Prune_tables [simp]:
  "documents (snd (PruneVersions down i keep s)) = documents s"
  "doc_updates (snd (PruneVersions down i keep s)) = doc_updates s"
  "next_seq (snd (PruneVersions down i keep s)) = next_seq s"
  by (simp_all add: PruneVersions_def Let_def)

lemma owner_Compact: "owner_of j (snd (Compact down deflate now i snap ks s)) = owner_of j s"
proof -
  obtain packed cdc where p: "Pack deflate snap = (packed, cdc)" by fastforce
  have "owner_of j (compacted down now i ks packed cdc r s) = owner_of j s" if "map_of (documents s) i = Some r" for r
    using that by (simp add: compacted_def Let_def owner_of_def prune_log_def write_snapshot_def AList.update_conv')
  then show ?thesis by (simp add: Compact_eq [OF p] Let_def owner_of_def split: option.split)
qed

subsection \<open>The queue of the writer\<close>

definition queued :: "persistJob list \<Rightarrow> bytes set" where
  "queued js = {u. \<exists>b. PPayload u b \<in> set js}"

fun covered :: "bytes set \<Rightarrow> persistJob list \<Rightarrow> bool" where
  "covered A [] = True"
| "covered A (PSnapshot s # js) =
     ((\<exists>d. EncodeStateAsUpdate d [] = Inr s \<and> (\<forall>u \<in> A. took_in u d \<or> u \<in> queued js)) \<and> covered A js)"
| "covered A (job # js) = covered A js"

lemma queued_simps [simp]:
  "queued [] = {}" "queued (PPayload u b # js) = insert u (queued js)" "queued (PSnapshot s # js) = queued js"
  "queued (PVersion v # js) = queued js" "queued (js @ js') = queued js \<union> queued js'"
  by (auto simp: queued_def)

lemma covered_payload: "covered A js \<Longrightarrow> covered (insert u A) (js @ [PPayload u b])"
  by (induction A js rule: covered.induct) auto

lemma covered_version: "covered A (js @ [PVersion v]) = covered A js"
  by (induction A js rule: covered.induct) auto

lemma covered_snapshot:
  assumes "covered A js" "EncodeStateAsUpdate d [] = Inr s" "\<forall>u \<in> A. took_in u d"
  shows "covered A (js @ [PSnapshot s])"
  using assms by (induction A js rule: covered.induct) auto

definition in_database :: "(bytes \<Rightarrow> bytes option) \<Rightarrow> uuid \<Rightarrow> db \<Rightarrow> bytes \<Rightarrow> bool" where
  "in_database inflate i s u \<longleftrightarrow> (\<exists>snap log. contents inflate i s = Some (Inr snap, log)
     \<and> (u \<in> snd ` set log \<or> (\<exists>b. snap = Some b \<and> snapshot_has b u)))"

definition db_fine :: "(bytes \<Rightarrow> bytes option) \<Rightarrow> (bytes \<Rightarrow> bytes option) \<Rightarrow> Room \<Rightarrow> bool" where
  "db_fine deflate inflate r \<longleftrightarrow> reachable_db deflate inflate (Store r) \<and> length (docID r) = 16
     \<and> mark_ok (docID r) (Store r) \<and> set (folded r) \<subseteq> fst ` set (row_log (docID r) (Store r))
     \<and> owner_of (docID r) (Store r) = Some (owner r)"

definition durable ::
  "(bytes \<Rightarrow> bytes option) \<Rightarrow> (bytes \<Rightarrow> bytes option) \<Rightarrow> bytes set \<Rightarrow> persistJob list \<Rightarrow> Room \<Rightarrow> bool" where
  "durable deflate inflate A js r \<longleftrightarrow> db_fine deflate inflate r
     \<and> (\<forall>u \<in> A. took_in u (rdoc r)) \<and> covered A js
     \<and> (\<forall>u \<in> A. u \<in> queued js \<or> u \<in> set (batch r)
          \<or> in_database inflate (docID r) (Store r) u)"

definition calm :: "(bytes \<Rightarrow> bytes option) \<Rightarrow> (bytes \<Rightarrow> bytes option) \<Rightarrow> io \<Rightarrow> Room \<Rightarrow> bool" where
  "calm deflate inflate w r \<longleftrightarrow> io_deflate w = deflate \<and> io_inflate w = inflate \<and> codec_ok deflate inflate
     \<and> (\<forall>n. \<not> io_down w n (Statement 0)) \<and> inj (\<lambda>n. versionKey (io_rand w n) (docID r))
     \<and> (\<forall>n \<ge> dbCalls r. key_free (versionKey (io_rand w n) (docID r)) (Store r))"

lemma durable_cong:
  assumes "Store r' = Store r" "docID r' = docID r" "folded r' = folded r" "owner r' = owner r" "cfg r' = cfg r"
    "rdoc r' = rdoc r" "batch r' = batch r"
  shows "durable deflate inflate A js r' = durable deflate inflate A js r"
  using assms by (simp add: durable_def db_fine_def)

lemma calm_cong:
  assumes "Store r' = Store r" "docID r' = docID r" "dbCalls r' = dbCalls r"
  shows "calm deflate inflate w r' = calm deflate inflate w r"
  using assms by (simp add: calm_def)

lemma durable_flush:
  assumes "durable deflate inflate A js r" "calm deflate inflate w r"
  shows "durable deflate inflate A js (flush w r) \<and> calm deflate inflate w (flush w r)"
proof (cases "batch r = []")
  case False
  let ?i = "docID r" and ?s = "Store r"
  have f: "db_fine deflate inflate r" using assms(1) by (simp add: durable_def)
  have d: "map_of (documents ?s) ?i \<noteq> None" using f by (auto simp: db_fine_def owner_of_def)
  have ok: "db_ok ?s" using reachable_db_ok [of deflate inflate ?s] f assms(2) by (simp add: db_fine_def calm_def)
  define p where "p = Store_Append (io_down w (dbCalls r)) (io_now w) ?i (batch r) ?s"
  define seqs where "seqs = [next_seq ?s ..< next_seq ?s + length (batch r)]"
  have a: "fst p = Inr seqs" using d assms(2) False by (simp add: p_def seqs_def Store_Append_def calm_def)
  have r': "flush w r = stored (length (batch r)) (r\<lparr>Store := snd p, dbCalls := dbCalls r + 1, folded := folded r @ seqs, batch := []\<rparr>)"
    using False a by (auto simp: flush_def p_def split: prod.split)
  have reach: "reachable_db deflate inflate (snd p)"
    using reachable_db.step [of deflate inflate ?s "Op_Append (io_now w) ?i (batch r)" "io_down w (dbCalls r)"] f by (simp add: p_def db_fine_def)
  have log: "row_log ?i (snd p) = row_log ?i ?s @ zip seqs (batch r)"
    using row_log_Append [OF ok d, of "io_down w (dbCalls r)" ?i "io_now w" "batch r"] assms(2) by (simp add: p_def seqs_def calm_def)
  have c: "contents inflate ?i (snd p) = map_option (\<lambda>(snap, log). (snap, log @ zip seqs (batch r))) (contents inflate ?i ?s)"
    using contents_Append(1) [OF ok, of "io_down w (dbCalls r)" "io_now w" ?i "batch r" seqs inflate ?i] a by (simp add: p_def)
  have len: "length seqs = length (batch r)" by (simp add: seqs_def)
  have fine: "db_fine deflate inflate (flush w r)"
  proof -
    have "owner_of ?i (snd p) = owner_of ?i ?s" by (simp add: p_def Store_Append_def owner_of_def)
    moreover have "mark_ok ?i (snd p)" using mark_ok_Append [OF ok] f by (simp add: p_def db_fine_def)
    moreover have "set seqs \<subseteq> fst ` set (zip seqs (batch r))" using len by (metis map_fst_zip set_map subset_refl)
    ultimately show ?thesis using f reach by (auto simp: r' db_fine_def log image_Un stored_def)
  qed
  have kept: "in_database inflate ?i (snd p) u" if "u \<in> set (batch r) \<or> in_database inflate ?i ?s u" for u
  proof -
    obtain x where x: "contents inflate ?i ?s = Some (Inr x, row_log ?i ?s)"
      using reachable_load [of deflate inflate ?s ?i "owner r" 0 "[]"] f assms(2) d
      by (auto simp: db_fine_def calm_def contents_def)
    have s: "snd ` set (zip seqs (batch r)) = set (batch r)" using len by (metis map_snd_zip set_map)
    show ?thesis using that x c s by (auto simp: in_database_def image_Un)
  qed
  show ?thesis
  proof
    show "durable deflate inflate A js (flush w r)"
      using assms(1) fine kept unfolding durable_def by (simp add: r' stored_def) blast
    show "calm deflate inflate w (flush w r)" using assms(2) by (simp add: r' calm_def p_def stored_def)
  qed
qed (use assms in \<open>simp add: flush_def\<close>)

lemma durable_compact:
  assumes "durable deflate inflate A (PSnapshot s # js) r" "batch r = []" "calm deflate inflate w r"
  shows "durable deflate inflate A js (room_compact w s r) \<and> calm deflate inflate w (room_compact w s r)"
proof (cases "folded r = []")
  case True
  then show ?thesis using assms by (auto simp: room_compact_def durable_def)
next
  case False
  let ?i = "docID r" and ?s = "Store r"
  have f: "db_fine deflate inflate r" using assms(1) by (simp add: durable_def)
  have codec: "codec_ok deflate inflate" using assms(3) by (simp add: calm_def)
  have ok: "db_ok ?s" "blob_ok ?s" using reachable_db_ok [OF codec, of ?s] f by (simp_all add: db_fine_def)
  have free: "watermark_free ?i (folded r) ?s" using mark_free [OF ok(2)] f False by (simp add: db_fine_def)
  define p where "p = Compact (io_down w (dbCalls r)) deflate (io_now w) ?i s (folded r) ?s"
  have r': "room_compact w s r = r\<lparr>Store := snd p, dbCalls := dbCalls r + 1,
      folded := (if fst p = None \<or> fst p = Some ErrStaleSnapshot then [] else folded r)\<rparr>"
    using False assms(3) by (auto simp: room_compact_def p_def calm_def split: prod.split option.split)
  have c: "contents inflate ?i (snd p) = (if fst p = None then Some (Inr (Some s), filter (\<lambda>(k, q). k \<notin> set (folded r)) (row_log ?i ?s))
      else contents inflate ?i ?s)"
    using Compact_contents [OF ok(2,1) codec _ free, of ?i "io_down w (dbCalls r)" "io_now w" s] f False
    by (simp add: p_def db_fine_def)
  have reach: "reachable_db deflate inflate (snd p)"
    using reachable_db.step [of deflate inflate ?s "Op_Compact (io_now w) ?i s (folded r)" "io_down w (dbCalls r)"] f free
    by (simp add: p_def db_fine_def)
  have same: "row_log ?i (snd p) = row_log ?i ?s" if "fst p \<noteq> None"
    using c that f by (auto simp: contents_def db_fine_def owner_of_def)
  have own: "owner_of ?i (snd p) = owner_of ?i ?s" by (simp add: p_def owner_Compact)
  have fine: "db_fine deflate inflate (room_compact w s r)"
    using f reach mark_ok_Compact [OF ok(1), of ?i "folded r"] same own by (auto simp: r' db_fine_def p_def)
  obtain d where d: "EncodeStateAsUpdate d [] = Inr s" "\<forall>u \<in> A. took_in u d \<or> u \<in> queued js"
    using assms(1) by (auto simp: durable_def)
  have kept: "u \<in> queued js \<or> in_database inflate ?i (snd p) u" if "u \<in> A" for u
  proof (cases "fst p = None")
    case True
    then show ?thesis using c d that by (auto simp: in_database_def snapshot_has_def)
  next
    case False
    then show ?thesis using c that assms(1,2) by (auto simp: in_database_def durable_def)
  qed
  show ?thesis
  proof
    show "durable deflate inflate A js (room_compact w s r)"
      using assms(1,2) fine kept unfolding durable_def by (simp add: r')
    show "calm deflate inflate w (room_compact w s r)"
      using assms(3) by (simp add: r' calm_def p_def key_free_Compact)
  qed
qed

lemma db_fine_tables:
  assumes "db_fine deflate inflate r" "reachable_db deflate inflate s"
    and "documents s = documents (Store r)" "doc_updates s = doc_updates (Store r)" "next_seq s = next_seq (Store r)"
  shows "db_fine deflate inflate (r\<lparr>Store := s\<rparr>)"
proof -
  have "mark_ok (docID r) s" using mark_ok_same [OF _ assms(3-5)] assms(1) by (simp add: db_fine_def)
  then show ?thesis using assms by (simp add: db_fine_def row_log_def rows_of_def owner_of_def)
qed

lemma durable_stored:
  assumes "durable deflate inflate A js r" "reachable_db deflate inflate s"
    and "documents s = documents (Store r)" "doc_updates s = doc_updates (Store r)" "next_seq s = next_seq (Store r)"
    and "contents inflate (docID r) s = contents inflate (docID r) (Store r)"
  shows "durable deflate inflate A js (r\<lparr>Store := s, dbCalls := n, answers := x\<rparr>)"
proof -
  have "durable deflate inflate A js (r\<lparr>Store := s\<rparr>)"
    using assms db_fine_tables [OF _ assms(2-5)] by (simp add: durable_def in_database_def)
  then show ?thesis using durable_cong [of "r\<lparr>Store := s, dbCalls := n, answers := x\<rparr>" "r\<lparr>Store := s\<rparr>"] by simp
qed

lemma durable_SaveVersion:
  assumes "durable deflate inflate A js r" "calm deflate inflate w r"
    and s: "s = snd (SaveVersion (io_down w (dbCalls r)) deflate (io_rand w (dbCalls r)) (io_now w) (docID r) v minAge (Store r))"
  shows "durable deflate inflate A js (r\<lparr>Store := s, dbCalls := Suc (dbCalls r), answers := x\<rparr>)
    \<and> calm deflate inflate w (r\<lparr>Store := s, dbCalls := Suc (dbCalls r), answers := x\<rparr>)"
proof
  let ?k = "\<lambda>n. versionKey (io_rand w n) (docID r)"
  have free: "key_free (?k (dbCalls r)) (Store r)" using assms(2) by (simp add: calm_def)
  have reach: "reachable_db deflate inflate s"
    using reachable_db.step [of deflate inflate "Store r" "Op_SaveVersion (io_rand w (dbCalls r)) (io_now w) (docID r) v minAge"
        "io_down w (dbCalls r)"] assms(1) free
    by (simp add: s durable_def db_fine_def)
  show "durable deflate inflate A js (r\<lparr>Store := s, dbCalls := Suc (dbCalls r), answers := x\<rparr>)"
    by (rule durable_stored [OF assms(1) reach]) (simp_all add: s contents_SaveVersion key_freeD [OF free])
  have "key_free (?k n) s" if "Suc (dbCalls r) \<le> n" for n
  proof -
    have "?k n \<noteq> ?k (dbCalls r)" using assms(2) that injD [of "?k" n "dbCalls r"] by (auto simp: calm_def)
    then show ?thesis using key_free_SaveVersion [of "?k n" "Store r" "io_rand w (dbCalls r)" "docID r"] assms(2) that
      by (simp add: s calm_def)
  qed
  then show "calm deflate inflate w (r\<lparr>Store := s, dbCalls := Suc (dbCalls r), answers := x\<rparr>)"
    using assms(2) by (simp add: calm_def)
qed

lemma durable_Prune:
  assumes "durable deflate inflate A js r" "calm deflate inflate w r"
    and s: "s = snd (PruneVersions (io_down w (dbCalls r)) (docID r) keep (Store r))"
  shows "durable deflate inflate A js (r\<lparr>Store := s, dbCalls := Suc (dbCalls r)\<rparr>)
    \<and> calm deflate inflate w (r\<lparr>Store := s, dbCalls := Suc (dbCalls r)\<rparr>)"
proof
  have b: "blob_ok (Store r)" using reachable_db_ok [of deflate inflate "Store r"] assms(1,2) by (simp add: durable_def db_fine_def calm_def)
  have reach: "reachable_db deflate inflate s"
    using reachable_db.step [of deflate inflate "Store r" "Op_PruneVersions (docID r) keep" "io_down w (dbCalls r)"] assms(1)
    by (simp add: s durable_def db_fine_def)
  show "durable deflate inflate A js (r\<lparr>Store := s, dbCalls := Suc (dbCalls r)\<rparr>)"
    using durable_stored [OF assms(1) reach, of "answers r" "Suc (dbCalls r)"] contents_PruneVersions [OF b]
    by (simp add: s)
  show "calm deflate inflate w (r\<lparr>Store := s, dbCalls := Suc (dbCalls r)\<rparr>)"
    using assms(2) by (simp add: calm_def s key_free_Prune)
qed

lemma durable_saveVersion:
  assumes "durable deflate inflate A js r" "calm deflate inflate w r"
  shows "durable deflate inflate A js (saveVersion w job r) \<and> calm deflate inflate w (saveVersion w job r)"
proof -
  have def: "io_deflate w = deflate" using assms(2) by (simp add: calm_def)
  let ?v = "\<lparr>verID = 0, CreatedAt = 0, StateVector = vj_stateVector job, Label = vj_label job, verBytes = 0, verPayload = vj_payload job\<rparr>"
  obtain res s where p: "SaveVersion (io_down w (dbCalls r)) deflate (io_rand w (dbCalls r)) (io_now w) (docID r) ?v (vj_minAge job) (Store r) = (res, s)"
    by fastforce
  define r' where "r' = r\<lparr>Store := s, dbCalls := Suc (dbCalls r),
     answers := answers r @ (if vj_waits job then [VersionDone (res = Inr True)] else [])\<rparr>"
  have 1: "durable deflate inflate A js r' \<and> calm deflate inflate w r'"
    using durable_SaveVersion [OF assms, of s ?v "vj_minAge job"] p by (simp add: r'_def)
  have "saveVersion w job r = r' \<or> saveVersion w job r
      = r'\<lparr>Store := snd (PruneVersions (io_down w (dbCalls r')) (docID r') (VersionKeep (cfg r')) (Store r')), dbCalls := Suc (dbCalls r')\<rparr>"
    using p def by (cases res) (simp_all add: saveVersion_def r'_def Let_def)
  then show ?thesis using 1 durable_Prune [of deflate inflate A js r' w, OF _ _ refl] by auto
qed

lemma durable_persist_job:
  assumes "durable deflate inflate A (job # js) r" "calm deflate inflate w r"
  shows "durable deflate inflate A js (persist_job w job r) \<and> calm deflate inflate w (persist_job w job r)"
proof (cases job)
  case (PVersion v)
  then have "durable deflate inflate A js r" using assms(1) by (simp add: durable_def)
  then show ?thesis using durable_saveVersion assms(2) PVersion by simp
next
  case (PSnapshot s)
  then show ?thesis using durable_flush [OF assms] durable_compact [of deflate inflate A s js "flush w r" w] by simp
next
  case (PPayload u b)
  let ?r = "r\<lparr>batch := batch r @ [u]\<rparr>"
  have "durable deflate inflate A js ?r" using assms(1) PPayload by (auto simp: durable_def db_fine_def)
  moreover have "calm deflate inflate w ?r" using assms(2) calm_cong [of ?r r] by simp
  ultimately show ?thesis using durable_flush PPayload by (auto simp: Let_def)
qed

lemma durable_fold_job:
  assumes "durable deflate inflate A (js @ js') r" "calm deflate inflate w r"
  shows "durable deflate inflate A js' (fold (persist_job w) js r) \<and> calm deflate inflate w (fold (persist_job w) js r)"
  using assms by (induction js arbitrary: r) (simp_all add: durable_persist_job)

definition held :: "(bytes \<Rightarrow> bytes option) \<Rightarrow> (bytes \<Rightarrow> bytes option) \<Rightarrow> bytes set \<Rightarrow> Room \<Rightarrow> bool" where
  "held deflate inflate A r \<longleftrightarrow> (\<exists>js. jobs r = Some js \<and> durable deflate inflate A js r)"

lemma held_persist_step:
  assumes "held deflate inflate A r" "calm deflate inflate w r"
  shows "held deflate inflate A (persist_step w r) \<and> calm deflate inflate w (persist_step w r)"
proof -
  obtain js where js: "jobs r = Some js" "durable deflate inflate A js r" using assms(1) by (auto simp: held_def)
  show ?thesis
  proof (cases js)
    case (Cons job js')
    let ?r = "r\<lparr>jobs := Some js'\<rparr>"
    have "durable deflate inflate A (job # js') ?r" "calm deflate inflate w ?r"
      using js(2) Cons assms(2) durable_cong [of ?r r] calm_cong [of ?r r] by simp_all
    from durable_persist_job [OF this] show ?thesis using js Cons by (simp add: persist_step_def held_def)
  qed (use js assms in \<open>simp add: persist_step_def\<close>)
qed

lemma held_drain:
  assumes "held deflate inflate A r" "calm deflate inflate w r"
  shows "held deflate inflate A (persist_drain w r) \<and> calm deflate inflate w (persist_drain w r)
    \<and> jobs (persist_drain w r) = Some []"
proof -
  obtain js where js: "jobs r = Some js" "durable deflate inflate A js r" using assms(1) by (auto simp: held_def)
  let ?r = "r\<lparr>jobs := Some []\<rparr>"
  have "durable deflate inflate A (js @ []) ?r" "calm deflate inflate w ?r"
    using js(2) assms(2) durable_cong [of ?r r] calm_cong [of ?r r] by simp_all
  from durable_fold_job [OF this] show ?thesis using js by (simp add: persist_drain_def held_def)
qed

lemma held_send:
  assumes "held deflate inflate A r" "calm deflate inflate w r"
    and add: "\<And>js r'. durable deflate inflate A js r' \<Longrightarrow> rdoc r' = rdoc r \<Longrightarrow> cfg r' = cfg r
      \<Longrightarrow> durable deflate inflate B (js @ [job]) r'"
  shows "held deflate inflate B (send_job w job r) \<and> calm deflate inflate w (send_job w job r)"
proof -
  define r1 where "r1 = (case jobs r of Some js \<Rightarrow> if persistQueue \<le> length js then persist_step w r else r | None \<Rightarrow> r)"
  have 1: "held deflate inflate A r1 \<and> calm deflate inflate w r1"
    using assms(1,2) held_persist_step [OF assms(1,2)] by (simp add: r1_def split: option.split)
  have "front r1 = front r" by (simp add: r1_def split: option.split)
  note f = front_fields [OF this]
  obtain js where js: "jobs r1 = Some js" "durable deflate inflate A js r1" using 1 by (auto simp: held_def)
  let ?r = "r1\<lparr>jobs := Some (js @ [job])\<rparr>"
  have "durable deflate inflate B (js @ [job]) ?r" "calm deflate inflate w ?r"
    using add [OF js(2)] f durable_cong [of ?r r1] calm_cong [of ?r r1] 1 by simp_all
  moreover have "send_job w job r = ?r" using js(1) by (simp add: send_job_def r1_def [symmetric] Let_def)
  ultimately show ?thesis by (simp add: held_def)
qed

lemma held_payload:
  assumes "held deflate inflate A r" "calm deflate inflate w r" "took_in u (rdoc r)"
  shows "held deflate inflate (insert u A) (send_job w (PPayload u b) r) \<and> calm deflate inflate w (send_job w (PPayload u b) r)"
  by (rule held_send [OF assms(1,2)]) (use assms(3) in \<open>auto simp: durable_def covered_payload\<close>)

lemma held_request:
  assumes "held deflate inflate A r" "calm deflate inflate w r"
  shows "held deflate inflate A (requestCompaction w r) \<and> calm deflate inflate w (requestCompaction w r)"
proof (cases "EncodeStateAsUpdate (rdoc r) []")
  case (Inr snap)
  obtain js where "jobs r = Some js" using assms(1) by (auto simp: held_def)
  have "held deflate inflate A (send_job w (PSnapshot snap) r) \<and> calm deflate inflate w (send_job w (PSnapshot snap) r)"
    by (rule held_send [OF assms]) (use Inr in \<open>auto simp: durable_def intro!: covered_snapshot\<close>)
  then show ?thesis
    using Inr \<open>jobs r = Some js\<close> durable_cong [of "(send_job w (PSnapshot snap) r)\<lparr>sinceSnapshot := 0\<rparr>" "send_job w (PSnapshot snap) r"]
      calm_cong [of "(send_job w (PSnapshot snap) r)\<lparr>sinceSnapshot := 0\<rparr>" "send_job w (PSnapshot snap) r"]
    by (simp add: requestCompaction_def held_def)
qed (use assms in \<open>simp add: requestCompaction_def\<close>)

lemma held_version:
  assumes "held deflate inflate A r" "calm deflate inflate w r"
  shows "held deflate inflate A (send_job w (PVersion v) r) \<and> calm deflate inflate w (send_job w (PVersion v) r)"
  by (rule held_send [OF assms]) (simp add: durable_def covered_version)

subsection \<open>The rest of the room\<close>

definition core :: "Room \<Rightarrow> db \<times> uuid \<times> nat list \<times> uuid \<times> Config \<times> doc \<times> bytes list \<times> persistJob list option \<times> nat \<times> bool" where
  "core r = (Store r, docID r, folded r, owner r, cfg r, rdoc r, batch r, jobs r, dbCalls r, room_closed r)"

lemma core_update [simp]:
  "core (r\<lparr>sinceSnapshot := n\<rparr>) = core r" "core (r\<lparr>u_dirty := a\<rparr>) = core r" "core (r\<lparr>versionDirty := a\<rparr>) = core r"
  "core (r\<lparr>changes := n\<rparr>) = core r" "core (r\<lparr>answers := x\<rparr>) = core r" "core (r\<lparr>lastVersion := t\<rparr>) = core r"
  "core (r\<lparr>lastAnnounce := t\<rparr>) = core r" "core (r\<lparr>events := e\<rparr>) = core r" "core (r\<lparr>storedRows := n\<rparr>) = core r"
  "core (r\<lparr>u_bytes := k\<rparr>) = core r" "core (r\<lparr>u_structs := k\<rparr>) = core r" "core (r\<lparr>u_measured := t\<rparr>) = core r"
  "core (r\<lparr>aw := b\<rparr>) = core r" "core (r\<lparr>conns := cs\<rparr>) = core r" "core (r\<lparr>lastEmpty := t\<rparr>) = core r"
  "core (r\<lparr>mailbox := q\<rparr>) = core r" "core (r\<lparr>remote := es\<rparr>) = core r" "core (r\<lparr>pub := p\<rparr>) = core r"
  "core (r\<lparr>relayed := p'\<rparr>) = core r"
  by (simp_all add: core_def)

lemma core_fields:
  assumes "core r' = core r"
  shows "Store r' = Store r" "docID r' = docID r" "folded r' = folded r" "owner r' = owner r" "cfg r' = cfg r"
    "rdoc r' = rdoc r" "batch r' = batch r" "jobs r' = jobs r" "dbCalls r' = dbCalls r" "room_closed r' = room_closed r"
  using assms by (simp_all add: core_def)

lemma held_core: "core r' = core r \<Longrightarrow> held deflate inflate A r' = held deflate inflate A r"
  using durable_cong [of r' r] core_fields [of r' r] by (simp add: held_def)

lemma calm_core: "core r' = core r \<Longrightarrow> calm deflate inflate w r' = calm deflate inflate w r"
  using calm_cong [of r' r] core_fields [of r' r] by simp

lemma core_chatter: "chatter L r r' \<Longrightarrow> core r' = core r"
  using rest_fields [OF chatter_rest] by (simp add: core_def)

lemma core_talk [simp]:
  "core (snd (conn_Send w c frame r)) = core r" "core (broadcast w frame except r) = core r" "core (leave w c r) = core r"
  "core (room_drop w c code reason r) = core r" "core (sendAll w c r) = core r" "core (syncStep1 w c sv r) = core r"
  by (rule core_chatter [OF chatter_Send], rule core_chatter [OF chatter_broadcast], rule core_chatter [OF chatter_leave],
      rule core_chatter [OF chatter_drop], rule core_chatter [OF chatter_sendAll], rule core_chatter [OF chatter_syncStep1])

lemma core_minor [simp]:
  "core (publish k p r) = core r" "core (touchDocument r) = core r" "core (changed r) = core r"
  "core (room_measure w now r) = core r" "core (room_join c r) = core r"
  "core (room_read sv r) = core r" "core (receive e r) = core r" "core (failVersion job r) = core r"
  by (simp_all add: publish_def touchDocument_def changed_def Let_def room_measure_def room_join_def room_read_def
      receive_def failVersion_def split: option.split)

lemma core_emit [simp]: "core (emitHooks now r) = core r"
  by (simp add: emitHooks_def Let_def)

lemma core_publish_step [simp]: "core (publish_step w r) = core r"
  by (simp add: publish_step_def publish_one_def split: option.split list.split)

lemma core_awareness [simp]: "core (room_awareness w c payload r) = core r" "core (remoteAwareness w payload r) = core r"
proof -
  obtain a ids er where a: "aw_ApplyUpdate payload (io_now w) (aw r) = (a, ids, er)" by (cases "aw_ApplyUpdate payload (io_now w) (aw r)")
  show "core (room_awareness w c payload r) = core r"
    by (cases er; cases "aw_Encode a ids") (simp_all add: room_awareness_def a Let_def)
  show "core (remoteAwareness w payload r) = core r"
    by (cases er; cases "aw_Encode a ids") (simp_all add: remoteAwareness_def a Let_def)
qed

lemma core_announce [simp]: "core (announce now r) = core r"
  by (simp add: announce_def split: sum.split)

lemma core_answer [simp]: "core (answerStateVector sv r) = core r"
  by (simp add: answerStateVector_def split: sum.split)

lemma core_swept [simp]: "core (swept w now r) = core r"
  by (simp add: swept_def split: prod.split sum.split)

lemma held_record:
  assumes "held deflate inflate A r" "calm deflate inflate w r" "took_in u (rdoc r)"
  shows "held deflate inflate (insert u A) (room_record w u r) \<and> calm deflate inflate w (room_record w u r)"
proof -
  define r1 where "r1 = (if FlushInterval (cfg r) < 0 then persist_drain w (send_job w (PPayload u True) r)
    else send_job w (PPayload u False) r)"
  define r2 where "r2 = r1\<lparr>sinceSnapshot := sinceSnapshot r1 + 1\<rparr>"
  have "held deflate inflate (insert u A) r1 \<and> calm deflate inflate w r1"
    using held_payload [OF assms] held_drain [of deflate inflate "insert u A" "send_job w (PPayload u True) r" w] by (simp add: r1_def)
  then have 2: "held deflate inflate (insert u A) r2 \<and> calm deflate inflate w r2"
    using held_core [of r2 r1] calm_core [of r2 r1] by (simp add: r2_def)
  obtain js where "jobs r = Some js" using assms(1) by (auto simp: held_def)
  then have "room_record w u r = (if CompactAfter (cfg r2) \<le> int (sinceSnapshot r2) then requestCompaction w r2 else r2)"
    by (simp add: room_record_def r1_def r2_def Let_def)
  then show ?thesis using 2 held_request [of deflate inflate "insert u A" r2 w] by simp
qed

lemma held_grows:
  assumes "held deflate inflate A r" "reachable_doc (ServerClientID (cfg r)) (rdoc r)" "apply_update (rdoc r) u = Inr d"
  shows "held deflate inflate A (r\<lparr>rdoc := d\<rparr>)" "took_in u d"
  using assms took_in_apply [OF assms(2,3)] by (auto simp: held_def durable_def db_fine_def)

lemma held_accept:
  assumes "held deflate inflate A r" "calm deflate inflate w r" "reachable_doc (ServerClientID (cfg r)) (rdoc r)"
    and "apply_update (rdoc r) u = Inr d"
  shows "held deflate inflate (insert u A) (room_record w u ((touchDocument r)\<lparr>rdoc := d\<rparr>))
    \<and> calm deflate inflate w (room_record w u ((touchDocument r)\<lparr>rdoc := d\<rparr>))"
proof -
  let ?r = "touchDocument r"
  have f: "held deflate inflate A ?r" "calm deflate inflate w ?r"
    using assms(1,2) held_core [of ?r r] calm_core [of ?r r] by simp_all
  have g: "cfg ?r = cfg r" "rdoc ?r = rdoc r" by (simp_all add: touchDocument_def)
  have "held deflate inflate A (?r\<lparr>rdoc := d\<rparr>)" "took_in u d"
    using held_grows [OF f(1), of u d] assms(3,4) g by simp_all
  moreover have "calm deflate inflate w (?r\<lparr>rdoc := d\<rparr>)" using f(2) calm_cong [of "?r\<lparr>rdoc := d\<rparr>" ?r] by simp
  ultimately show ?thesis using held_record [of deflate inflate A "?r\<lparr>rdoc := d\<rparr>" w u] g by simp
qed

subsection \<open>Turns\<close>

definition stored_all :: "(bytes \<Rightarrow> bytes option) \<Rightarrow> (bytes \<Rightarrow> bytes option) \<Rightarrow> bytes set \<Rightarrow> Room \<Rightarrow> bool" where
  "stored_all deflate inflate A r \<longleftrightarrow> db_fine deflate inflate r \<and> (\<forall>u \<in> A. took_in u (rdoc r))
     \<and> (\<forall>u \<in> A. in_database inflate (docID r) (Store r) u)"

definition lasting :: "(bytes \<Rightarrow> bytes option) \<Rightarrow> (bytes \<Rightarrow> bytes option) \<Rightarrow> bytes set \<Rightarrow> Room \<Rightarrow> bool" where
  "lasting deflate inflate A r \<longleftrightarrow>
     (if room_closed r then stored_all deflate inflate A r else held deflate inflate A r)"

lemma stored_core: "core r' = core r \<Longrightarrow> stored_all deflate inflate A r' = stored_all deflate inflate A r"
  using core_fields [of r' r] by (simp add: stored_all_def db_fine_def)

lemma lasting_core: "core r' = core r \<Longrightarrow> lasting deflate inflate A r' = lasting deflate inflate A r"
  using core_fields(10) [of r' r] held_core [of r' r] stored_core [of r' r] by (simp add: lasting_def)

lemma core_fold_publish [simp]: "core (fold (publish_one w) q r) = core r"
  by (induction q arbitrary: r) (simp_all add: publish_one_def)

lemma core_subscribed: "core (r\<lparr>subscribed := b\<rparr>) = core r"
  by (simp add: core_def)

lemma core_before: "core (before_writing w code reason r) = core r"
proof -
  let ?r = "(close_conns (map fst (conns r)) code reason (emitHooks (io_now w) r))\<lparr>conns := []\<rparr>"
  have "core (stopFanout w ?r) = core ?r" by (cases "pub ?r") (simp_all add: stopFanout_def Let_def core_subscribed)
  moreover have "core ?r = core (emitHooks (io_now w) r)" by (simp add: close_conns_eq core_def)
  ultimately show ?thesis by (simp add: before_writing_def)
qed

lemma finish_stores:
  assumes "held deflate inflate A r" "calm deflate inflate w r"
  shows "stored_all deflate inflate A (finishPersisting w r)"
proof -
  let ?r = "persist_drain w (requestCompaction w r)"
  have "held deflate inflate A ?r \<and> calm deflate inflate w ?r \<and> jobs ?r = Some []"
    using held_drain held_request [OF assms] by blast
  then have "durable deflate inflate A [] (flush w ?r)" using durable_flush by (auto simp: held_def)
  moreover have "batch (flush w ?r) = []" by simp
  ultimately have "stored_all deflate inflate A (flush w ?r)" by (simp add: durable_def stored_all_def)
  moreover obtain js where "jobs r = Some js" using assms(1) by (auto simp: held_def)
  ultimately show ?thesis by (simp add: finishPersisting_def stored_all_def db_fine_def)
qed

lemma lasting_stop:
  assumes "held deflate inflate A r" "calm deflate inflate w r"
  shows "lasting deflate inflate A (room_stop w code reason r)"
proof -
  let ?b = "before_writing w code reason r"
  have "stored_all deflate inflate A (finishPersisting w ?b)"
    using finish_stores [of deflate inflate A ?b w] assms held_core [OF core_before] calm_core [OF core_before] by metis
  then have "stored_all deflate inflate A (emitHooks (io_now w) (finishPersisting w ?b))"
    using stored_core [OF core_emit] by blast
  then have "stored_all deflate inflate A (room_stop w code reason r)"
    by (simp add: room_stop_eq Let_def stored_all_def db_fine_def)
  then show ?thesis by (simp add: lasting_def room_stop_fields)
qed

lemma held_queueVersion:
  assumes "held deflate inflate A r" "calm deflate inflate w r"
  shows "held deflate inflate A (queueVersion w job r) \<and> calm deflate inflate w (queueVersion w job r)"
  using assms held_version held_core [OF core_minor(8)] calm_core [OF core_minor(8)]
  by (simp add: queueVersion_def Let_def split: sum.split)

lemma held_versionTick:
  assumes "held deflate inflate A r" "calm deflate inflate w r"
  shows "held deflate inflate A (versionTick w now r) \<and> calm deflate inflate w (versionTick w now r)"
proof -
  let ?r = "r\<lparr>lastVersion := Some now, versionDirty := False\<rparr>"
  have "held deflate inflate A ?r" "calm deflate inflate w ?r"
    using assms held_core [of ?r r] calm_core [of ?r r] by simp_all
  then show ?thesis using assms held_queueVersion by (simp add: versionTick_def)
qed

lemma lasting_held: "held deflate inflate A r \<Longrightarrow> \<not> room_closed r \<Longrightarrow> lasting deflate inflate A r"
  by (simp add: lasting_def)

lemma lasting_tick:
  assumes "held deflate inflate A r" "calm deflate inflate w r" "\<not> room_closed r"
  shows "lasting deflate inflate A (snd (room_tick w now r))"
proof -
  let ?r = "emitHooks now (announce now (swept w now (room_measure w now r)))"
  have c: "core ?r = core r" by simp
  have "held deflate inflate A ?r" "calm deflate inflate w ?r"
    using assms held_core [OF c] calm_core [OF c] by simp_all
  from held_versionTick [OF this, of now] show ?thesis
    using assms(3) lasting_stop by (auto simp: room_tick_eq Let_def evict_def lasting_held split: option.split)
qed

lemma lasting_update:
  assumes "held deflate inflate A r" "calm deflate inflate w r" "reachable_doc (ServerClientID (cfg r)) (rdoc r)" "\<not> room_closed r"
  shows "lasting deflate inflate (A \<union> (if CanWrite c then taken r u else {})) (room_update w c u r)"
proof (cases "CanWrite c")
  case False
  then have "core (room_update w c u r) = core r" by (simp add: room_update_def)
  from lasting_core [OF this] show ?thesis using False assms by (simp add: lasting_held)
next
  case True
  show ?thesis
  proof (cases "apply_update (rdoc r) u")
    case (Inl er)
    then have "core (room_update w c u r) = core r" using True by (simp add: room_update_def)
    from lasting_core [OF this] show ?thesis using Inl assms by (simp add: lasting_held taken_def)
  next
    case (Inr d)
    let ?r = "room_record w u ((touchDocument r)\<lparr>rdoc := d\<rparr>)"
    have "core (room_update w c u r) = core ?r" using True Inr by (simp add: room_update_def Let_def)
    from lasting_core [OF this] show ?thesis
      using held_accept [OF assms(1-3) Inr] Inr True assms(4) by (simp add: lasting_held taken_def)
  qed
qed

lemma lasting_merge:
  assumes "held deflate inflate A r" "calm deflate inflate w r" "reachable_doc (ServerClientID (cfg r)) (rdoc r)" "\<not> room_closed r"
  shows "lasting deflate inflate (A \<union> taken r u) (room_merge w u r)"
proof (cases "apply_update (rdoc r) u")
  case (Inl er)
  then have "core (room_merge w u r) = core r" by (simp add: room_merge_def Let_def)
  from lasting_core [OF this] show ?thesis using Inl assms by (simp add: lasting_held taken_def)
next
  case (Inr d)
  let ?r = "room_record w u ((touchDocument r)\<lparr>rdoc := d\<rparr>)"
  have "core (room_merge w u r) = core ?r" using Inr by (simp add: room_merge_def Let_def)
  from lasting_core [OF this] show ?thesis
    using held_accept [OF assms(1-3) Inr] Inr assms(4) by (simp add: lasting_held taken_def)
qed

lemma lasting_remote:
  assumes "held deflate inflate A r" "reachable_doc (ServerClientID (cfg r)) (rdoc r)" "\<not> room_closed r"
  shows "lasting deflate inflate A (remoteEnvelope w env r)"
proof -
  have u: "lasting deflate inflate A (remoteUpdate w u r)" for u
  proof (cases "apply_update (rdoc r) u")
    case (Inl er)
    then have "core (remoteUpdate w u r) = core r" by (simp add: remoteUpdate_def)
    from lasting_core [OF this] show ?thesis using assms by (simp add: lasting_held)
  next
    case (Inr d)
    then have "core (remoteUpdate w u r) = core (r\<lparr>rdoc := d\<rparr>)" by (simp add: remoteUpdate_def touchDocument_def) (simp add: core_def)
    from lasting_core [OF this] show ?thesis using held_grows(1) [OF assms(1,2) Inr] assms(3) by (simp add: lasting_held)
  qed
  have "core (remoteAwareness w p r) = core r" "core (answerStateVector p r) = core r" for p by simp_all
  then have "lasting deflate inflate A (remoteAwareness w p r)" "lasting deflate inflate A (answerStateVector p r)" for p
    using lasting_core [of "remoteAwareness w p r" r] lasting_core [of "answerStateVector p r" r] assms by (simp_all add: lasting_held)
  then show ?thesis using u assms by (simp add: remoteEnvelope_def lasting_held)
qed

lemma accepted_mailbox [simp]: "accepted c (r\<lparr>mailbox := cs\<rparr>) = accepted c r"
proof -
  have "taken (r\<lparr>mailbox := cs\<rparr>) = taken r" by (simp add: taken_def fun_eq_iff)
  then show ?thesis by (cases c) (simp_all add: accepted_def split: sum.split Message.split)
qed

lemma lasting_frame:
  assumes "held deflate inflate A r" "calm deflate inflate w r" "reachable_doc (ServerClientID (cfg r)) (rdoc r)" "\<not> room_closed r"
  shows "lasting deflate inflate (A \<union> accepted (FrameCmd c frame) r) (room_frame w c frame r)"
proof -
  have same: "lasting deflate inflate A r'" if "core r' = core r" for r'
    using lasting_core [OF that] assms by (simp add: lasting_held)
  note up = lasting_update [OF assms, of c]
  show ?thesis
  proof (cases "map_of (conns r) c = None")
    case True
    then show ?thesis using assms by (simp add: room_frame_def accepted_def lasting_held)
  next
    case False
    show ?thesis
    proof (cases "Decode frame")
      case (Inl er)
      then show ?thesis using False same by (auto simp: room_frame_def accepted_def)
    next
      case (Inr m)
      show ?thesis
      proof (cases m)
        case (SyncStep2Message u)
        then show ?thesis using False Inr up [of u] by (cases "CanWrite c") (auto simp: room_frame_def accepted_def)
      next
        case (UpdateMessage u)
        then show ?thesis using False Inr up [of u] by (cases "CanWrite c") (auto simp: room_frame_def accepted_def)
      qed (use False Inr same in \<open>auto simp: room_frame_def accepted_def\<close>)
    qed
  qed
qed

lemma lasting_handle:
  assumes "held deflate inflate A r" "calm deflate inflate w r" "reachable_doc (ServerClientID (cfg r)) (rdoc r)" "\<not> room_closed r"
  shows "lasting deflate inflate (A \<union> accepted c r) (snd (room_handle w c r))"
proof -
  have same: "lasting deflate inflate A r'" if "core r' = core r" for r'
    using lasting_core [OF that] assms by (simp add: lasting_held)
  show ?thesis
  proof (cases c)
    case (FrameCmd x frame)
    then show ?thesis using lasting_frame [OF assms] by simp
  next
    case (TickCmd now)
    then show ?thesis using lasting_tick [OF assms(1,2,4)] by (simp add: accepted_def)
  next
    case (MergeCmd u)
    then show ?thesis using lasting_merge [OF assms] by (simp add: accepted_def)
  next
    case (VersionCmd label)
    let ?r = "r\<lparr>versionDirty := False, lastVersion := Some (io_now w)\<rparr>"
    have "held deflate inflate A ?r" "calm deflate inflate w ?r"
      using assms held_core [of ?r r] calm_core [of ?r r] by simp_all
    then have "lasting deflate inflate A (queueVersion w job ?r)" for job
      using held_queueVersion [of deflate inflate A ?r w job] assms(4) by (simp add: lasting_held)
    then have "lasting deflate inflate A ((queueVersion w job ?r)\<lparr>answers := x\<rparr>)" for job x
      using lasting_core [of "(queueVersion w job ?r)\<lparr>answers := x\<rparr>" "queueVersion w job ?r"] by simp
    then show ?thesis using VersionCmd same by (simp add: accepted_def takeVersion_def Let_def)
  next
    case EvictCmd
    have "lasting deflate inflate A ((evict w r)\<lparr>answers := x\<rparr>)" for x
      using lasting_core [of "(evict w r)\<lparr>answers := x\<rparr>" "evict w r"] lasting_stop [OF assms(1,2)] by (simp add: evict_def)
    then show ?thesis using EvictCmd same by (simp add: accepted_def Let_def)
  qed (use same in \<open>auto simp: accepted_def\<close>)
qed

lemma lasting_turn:
  assumes "room_turn w B r r'" "lasting deflate inflate A r" "calm deflate inflate w r" "room_ok r"
  shows "lasting deflate inflate (A \<union> B) r'"
  using assms
proof (induction rule: room_turn.induct)
  case (turn_send c r e r')
  then have "core r' = core r" by (auto simp: room_send_def split: if_splits)
  then show ?case using turn_send lasting_core [of r' r] by simp
next
  case (turn_handle r c cs)
  let ?r = "r\<lparr>mailbox := cs\<rparr>"
  have "held deflate inflate A ?r" "calm deflate inflate w ?r"
    using turn_handle held_core [of ?r r] calm_core [of ?r r] by (simp_all add: lasting_def)
  from lasting_handle [OF this] show ?case using turn_handle by (simp add: room_ok_def)
next
  case (turn_remote r e es)
  let ?r = "r\<lparr>remote := es\<rparr>"
  have "held deflate inflate A ?r" using turn_remote held_core [of ?r r] by (simp add: lasting_def)
  from lasting_remote [OF this] show ?case using turn_remote by (simp add: room_ok_def)
next
  case (turn_receive r e)
  then show ?case using lasting_core [of "receive e r" r] by simp
next
  case (turn_publish r)
  then show ?case using lasting_core [of "publish_step w r" r] by simp
next
  case (turn_persist r)
  then show ?case
    using held_persist_step [of deflate inflate A r w] front_fields(11) [OF front_persist_step [of w r]]
    by (cases "room_closed r") (auto simp: lasting_def persist_step_def room_ok_def)
next
  case (turn_flush r)
  then have "held deflate inflate A (flush w r)" using durable_flush by (fastforce simp: lasting_def held_def)
  then show ?case using turn_flush front_fields(11) [OF front_flush [of w r]] by (simp add: lasting_def)
next
  case (turn_ticker r now)
  then have "held deflate inflate A r" by (simp add: lasting_def)
  then show ?case using lasting_tick turn_ticker by simp
next
  case (turn_cancel r)
  then have "held deflate inflate A r" by (simp add: lasting_def)
  then show ?case using lasting_stop turn_cancel by simp
qed

subsection \<open>Starting on what is stored\<close>

lemma took_in_decodes: "took_in u d \<Longrightarrow> \<exists>x. DecodeUpdate u = Inr x"
  by (induction rule: took_in.induct) (auto simp: ApplyUpdate_def split: sum.splits)

lemma took_in_loaded:
  assumes "reachable_doc client d" "took_in u d \<or> u \<in> set us \<and> (\<exists>x. DecodeUpdate u = Inr x)"
  shows "took_in u (fold apply_or_skip us d)"
  using assms
proof (induction us arbitrary: d)
  case (Cons v us)
  have r: "reachable_doc client (apply_or_skip v d)" by (rule apply_or_skip_reachable [OF Cons(2)])
  have "took_in u (apply_or_skip v d) \<or> u \<in> set us \<and> (\<exists>x. DecodeUpdate u = Inr x)"
  proof (cases "took_in u d")
    case True
    then show ?thesis using took_in_apply(2) [OF Cons(2), of v _ u] by (auto simp: apply_or_skip_def split: sum.split)
  next
    case False
    then consider "v = u" "\<exists>x. DecodeUpdate u = Inr x" | "u \<in> set us" "\<exists>x. DecodeUpdate u = Inr x" using Cons(3) by auto
    then show ?thesis
    proof cases
      case 1
      then obtain d' where "apply_update d u = Inr d'"
        using ApplyUpdate_ok [OF reachable_wf [OF Cons(2)], of u] by (auto simp: apply_update_def)
      then show ?thesis using took_in_apply(1) [OF Cons(2)] 1 by (auto simp: apply_or_skip_def)
    qed simp
  qed
  from Cons(1) [OF r this] show ?case by simp
qed simp

lemma mark_ok_Load:
  assumes "db_ok s" "mark_ok i s" shows "mark_ok i (snd (Load down inflate now i name own s))"
proof -
  have "mark_ok i tx" if "ensureIn down now i name own s = Inr (found, tx)" for found tx
    using ensureIn_cases [OF that]
  proof (elim disjE exE conjE)
    assume n: "map_of (documents s) i = None" and tx: "tx = s\<lparr>documents := (i, new_row now own name) # documents s\<rparr>"
    have "row_log i tx = []" using no_row_no_log [OF assms(1) n] by (simp add: row_log_def rows_of_def tx)
    then show ?thesis using assms(1) by (simp add: mark_ok_def tx new_row_def db_ok_def)
  qed (use assms in simp)
  then show ?thesis using assms by (auto simp: Load_def load_document_def split: sum.splits if_splits)
qed

lemma started:
  assumes "has_Store (cfg r)" "\<not> room_closed (Run_start w r)"
  obtains l s d0 where
    "Load (io_down w (dbCalls r)) (io_inflate w) (io_now w) (docID r) (cfg_Name (cfg r)) (owner r) (Store r) = (Inr l, s)"
    "(case docSnapshot l of None \<Rightarrow> Inr (rdoc r) | Some b \<Rightarrow> apply_update (rdoc r) b) = Inr d0"
    "core (Run_start w r) = core (r\<lparr>Store := s, dbCalls := dbCalls r + 1, folded := folded r @ Seqs l,
        rdoc := fold apply_or_skip (docUpdates l) d0\<rparr>)"
proof -
  obtain r1 where f: "startFanout w r = (True, r1)" using assms(2) by (auto simp: Run_start_def room_stop_fields split: prod.splits bool.splits)
  have c: "core r1 = core r" using f by (auto simp: startFanout_def core_subscribed split: if_splits)
  note cf = core_fields [OF c]
  obtain r2 where l: "room_load w r1 = (None, r2)" "Run_start w r = r2"
    using assms f cf by (auto simp: Run_start_def room_stop_fields split: prod.splits option.splits)
  obtain l s where ld: "Load (io_down w (dbCalls r)) (io_inflate w) (io_now w) (docID r) (cfg_Name (cfg r)) (owner r) (Store r) = (Inr l, s)"
    using l(1) cf by (auto simp: room_load_def split: prod.splits sum.splits)
  obtain d0 where d0: "(case docSnapshot l of None \<Rightarrow> Inr (rdoc r) | Some b \<Rightarrow> apply_update (rdoc r) b) = Inr d0"
    using l(1) ld cf by (auto simp: room_load_def Let_def split: sum.splits option.splits)
  let ?r = "r1\<lparr>Store := s, dbCalls := dbCalls r1 + 1, rdoc := fold apply_or_skip (docUpdates l) d0, sinceSnapshot := length (docUpdates l),
      folded := folded r1 @ Seqs l\<rparr>"
  have "r2 = room_measure w (io_now w) ((touchDocument ?r)\<lparr>u_measured := None\<rparr>)"
    using l(1) ld cf d0 by (auto simp: room_load_def Let_def split: option.splits)
  then have "core r2 = core ?r" by simp
  also have "core ?r = core (r\<lparr>Store := s, dbCalls := dbCalls r + 1, folded := folded r @ Seqs l,
        rdoc := fold apply_or_skip (docUpdates l) d0\<rparr>)" using cf by (simp add: core_def)
  finally show ?thesis using that ld d0 l(2) by blast
qed

lemma held_started:
  assumes "has_Store (cfg r)" "\<not> room_closed (Run_start w r)" "io_inflate w = inflate" "codec_ok deflate inflate"
    and "reachable_db deflate inflate (Store r)" "mark_ok (docID r) (Store r)" "length (docID r) = 16"
    and "jobs r = Some []" "batch r = []" "folded r = []" "reachable_doc (ServerClientID (cfg r)) (rdoc r)"
    and "\<forall>u \<in> A. in_database inflate (docID r) (Store r) u \<and> (\<exists>x. DecodeUpdate u = Inr x)"
  shows "held deflate inflate A (Run_start w r)"
proof -
  obtain l s d0 where ld: "Load (io_down w (dbCalls r)) inflate (io_now w) (docID r) (cfg_Name (cfg r)) (owner r) (Store r) = (Inr l, s)"
    and d0: "(case docSnapshot l of None \<Rightarrow> Inr (rdoc r) | Some b \<Rightarrow> apply_update (rdoc r) b) = Inr d0"
    and c: "core (Run_start w r) = core (r\<lparr>Store := s, dbCalls := dbCalls r + 1, folded := folded r @ Seqs l,
        rdoc := fold apply_or_skip (docUpdates l) d0\<rparr>)"
    using started [OF assms(1,2)] assms(3) by metis
  have ok: "db_ok (Store r)" using reachable_db_ok [OF assms(4,5)] by simp
  have co: "contents inflate (docID r) s = Some (Inr (docSnapshot l), zip (Seqs l) (docUpdates l))"
    "length (Seqs l) = length (docUpdates l)" "owner_of (docID r) s = Some (owner r)"
    using Load_result(1) [OF ok ld, of l] by simp_all
  have reach: "reachable_db deflate inflate s"
    using reachable_db.step [OF assms(5), of "Op_Load (io_now w) (docID r) (cfg_Name (cfg r)) (owner r)" "io_down w (dbCalls r)"] ld assms(7)
    by simp
  have mark: "mark_ok (docID r) s"
    using mark_ok_Load [OF ok assms(6), of "io_down w (dbCalls r)" inflate "io_now w" "cfg_Name (cfg r)" "owner r"] ld by simp
  have log: "row_log (docID r) s = zip (Seqs l) (docUpdates l)" using co(1) by (auto simp: contents_def)
  have kept: "in_database inflate (docID r) s u" if "u \<in> A" for u
    using Load_result(3) [OF ok ld, of "docID r"] assms(12) that by (auto simp: in_database_def)
  have rd0: "reachable_doc (ServerClientID (cfg r)) d0"
    using d0 assms(11) apply_update_reachable by (auto split: option.splits)
  have took: "took_in u (fold apply_or_skip (docUpdates l) d0)" if uA: "u \<in> A" for u
  proof (rule took_in_loaded [OF rd0])
    consider "u \<in> set (docUpdates l)" | b where "docSnapshot l = Some b" "snapshot_has b u"
      using kept [OF uA] co by (auto simp: in_database_def dest: set_zip_rightD)
    then show "took_in u d0 \<or> u \<in> set (docUpdates l) \<and> (\<exists>x. DecodeUpdate u = Inr x)"
    proof cases
      case (2 b)
      then obtain d where d: "EncodeStateAsUpdate d [] = Inr b" "took_in u d" by (auto simp: snapshot_has_def)
      have "ApplyUpdate (rdoc r) b = Some (Inr d0)" using 2(1) d0 ApplyUpdate_some [OF assms(11), of b] by simp
      then show ?thesis using took_in.reloaded [OF d(2,1) assms(11)] by blast
    qed (use assms(12) uA in blast)
  qed
  have "set (Seqs l) \<subseteq> fst ` set (zip (Seqs l) (docUpdates l))" using co(2) by (metis map_fst_zip set_map subset_refl)
  then have "durable deflate inflate A [] (r\<lparr>Store := s, dbCalls := dbCalls r + 1, folded := folded r @ Seqs l,
        rdoc := fold apply_or_skip (docUpdates l) d0\<rparr>)"
    using reach mark log co(3) kept took assms(7,10) by (auto simp: durable_def db_fine_def)
  then show ?thesis using held_core [OF c] assms(8) by (simp add: held_def)
qed

text \<open>
  A document served by one replica at a time: a first room on a database, the turns of a room while
  its appends succeed, and a next room on what the room before it left behind. The set is what the
  rooms have accepted.
\<close>

inductive serves :: "(bytes \<Rightarrow> bytes option) \<Rightarrow> (bytes \<Rightarrow> bytes option) \<Rightarrow> bytes set \<Rightarrow> Room \<Rightarrow> bool"
  for deflate inflate where
  serves_first: "codec_ok deflate inflate \<Longrightarrow> reachable_db deflate inflate s \<Longrightarrow> (\<And>x. length (sha1 x) = 20)
    \<Longrightarrow> r = Run_start w ((NewRoom sha1 random now s c)\<lparr>mailbox := cs\<rparr>) \<Longrightarrow> int (length cs) \<le> Mailbox (cfg (NewRoom sha1 random now s c))
    \<Longrightarrow> io_inflate w = inflate \<Longrightarrow> has_Store c \<Longrightarrow> \<not> room_closed r \<Longrightarrow> mark_ok (docID r) s
    \<Longrightarrow> serves deflate inflate {} r"
| serves_again: "serves deflate inflate A r0 \<Longrightarrow> room_closed r0
    \<Longrightarrow> r = Run_start w ((NewRoom sha1 random now (Store r0) c)\<lparr>mailbox := cs\<rparr>)
    \<Longrightarrow> int (length cs) \<le> Mailbox (cfg (NewRoom sha1 random now (Store r0) c))
    \<Longrightarrow> io_inflate w = inflate \<Longrightarrow> has_Store c \<Longrightarrow> \<not> room_closed r \<Longrightarrow> docID r = docID r0
    \<Longrightarrow> serves deflate inflate A r"
| serves_turn: "serves deflate inflate A r \<Longrightarrow> room_turn w B r r' \<Longrightarrow> calm deflate inflate w r \<Longrightarrow> serves deflate inflate (A \<union> B) r'"

lemma NewRoom_fields [simp]:
  "has_Store (cfg (NewRoom sha1 random now s c)) = has_Store c" "Store (NewRoom sha1 random now s c) = s"
  "docID (NewRoom sha1 random now s c) = DocumentID sha1 (cfg_Name c)" "batch (NewRoom sha1 random now s c) = []"
  "folded (NewRoom sha1 random now s c) = []" "jobs (NewRoom sha1 random now s c) = (if has_Store c then Some [] else None)"
  "rdoc (NewRoom sha1 random now s c) = NewDoc (ServerClientID c)" "\<not> room_closed (NewRoom sha1 random now s c)"
  "ServerClientID (cfg (NewRoom sha1 random now s c)) = ServerClientID c"
  by (simp_all add: NewRoom_def Let_def setDefaults_def)

lemma docID_started:
  assumes "has_Store (cfg r)" "\<not> room_closed (Run_start w r)" shows "docID (Run_start w r) = docID r"
  by (rule started [OF assms], drule core_fields(2)) simp

lemma serves_lasting:
  assumes "serves deflate inflate A r"
  shows "codec_ok deflate inflate \<and> room_ok r \<and> lasting deflate inflate A r"
  using assms
proof (induction rule: serves.induct)
  case (serves_first s sha1 r w cs random now c)
  let ?n = "(NewRoom sha1 random now s c)\<lparr>mailbox := cs\<rparr>"
  have n: "has_Store (cfg ?n)" "\<not> room_closed (Run_start w ?n)" using serves_first by simp_all
  have "held deflate inflate {} (Run_start w ?n)"
    by (rule held_started [OF n serves_first(6,1)])
      (use serves_first docID_started [OF n] in \<open>simp_all add: DocumentID_facts(1) reachable_doc.new\<close>)
  then show ?case using serves_first room_ok_Run_start [OF room_ok_NewRoom, of cs sha1 random now s c w] by (simp add: lasting_held)
next
  case (serves_again A r0 r w cs sha1 random now c)
  let ?n = "(NewRoom sha1 random now (Store r0) c)\<lparr>mailbox := cs\<rparr>"
  have n: "has_Store (cfg ?n)" "\<not> room_closed (Run_start w ?n)" using serves_again by simp_all
  have st: "stored_all deflate inflate A r0" using serves_again by (simp add: lasting_def)
  have i: "DocumentID sha1 (cfg_Name c) = docID r0" using docID_started [OF n] serves_again by simp
  have "held deflate inflate A (Run_start w ?n)"
    by (rule held_started [OF n serves_again(5)])
      (use serves_again st i took_in_decodes in \<open>auto simp: stored_all_def db_fine_def reachable_doc.new\<close>)
  then show ?case using serves_again room_ok_Run_start [OF room_ok_NewRoom, of cs sha1 random now "Store r0" c w] by (simp add: lasting_held)
next
  case (serves_turn A r w B r')
  then show ?case using lasting_turn room_ok_turn by blast
qed

lemma stored_loads:
  assumes "codec_ok deflate inflate" "stored_all deflate inflate A r" "u \<in> A"
  shows "\<exists>l. Load up inflate now (docID r) name (owner r) (Store r) = (Inr l, Store r)
    \<and> (u \<in> set (docUpdates l) \<or> (\<exists>b. docSnapshot l = Some b \<and> snapshot_has b u))"
proof -
  obtain l where l: "Load up inflate now (docID r) name (owner r) (Store r) = (Inr l, Store r)"
    "contents inflate (docID r) (Store r) = Some (Inr (docSnapshot l), zip (Seqs l) (docUpdates l))"
    using reachable_load [OF assms(1), of "Store r" "docID r" "owner r" now name] assms(2) by (auto simp: stored_all_def db_fine_def)
  have "in_database inflate (docID r) (Store r) u" using assms(2,3) by (simp add: stored_all_def)
  then show ?thesis using l by (auto simp: in_database_def dest: set_zip_rightD)
qed

subsection \<open>Durable writes\<close>

lemma batch_waits: "batch (persist_job w (PPayload u True) r) = []"
  by (simp add: Let_def)

lemma send_jobs: "jobs r = Some js \<Longrightarrow> \<exists>js'. jobs (send_job w job r) = Some (js' @ [job])"
  by (auto simp: send_job_def Let_def persist_step_def split: list.split)

lemma drained:
  assumes "jobs r = Some js"
  shows "batch (persist_drain w (send_job w (PPayload u True) r)) = []"
    and "jobs (persist_drain w (send_job w (PPayload u True) r)) = Some []"
proof -
  obtain js' where "jobs (send_job w (PPayload u True) r) = Some (js' @ [PPayload u True])" using send_jobs [OF assms] by blast
  then show "batch (persist_drain w (send_job w (PPayload u True) r)) = []"
    and "jobs (persist_drain w (send_job w (PPayload u True) r)) = Some []"
    by (simp_all add: persist_drain_def batch_waits)
qed

lemma request_idle:
  assumes "jobs r = Some []" shows "Store (requestCompaction w r) = Store r"
  using assms by (simp add: requestCompaction_def send_job_def Let_def persistQueue_def split: sum.split)

lemma record_durable:
  assumes "held deflate inflate A r" "calm deflate inflate w r" "took_in u (rdoc r)" "FlushInterval (cfg r) < 0"
  shows "\<forall>v \<in> insert u A. in_database inflate (docID r) (Store (room_record w u r)) v"
proof -
  let ?s = "send_job w (PPayload u True) r"
  let ?r = "persist_drain w ?s"
  obtain js where js: "jobs r = Some js" using assms(1) by (auto simp: held_def)
  have "held deflate inflate (insert u A) ?r"
    using held_drain held_payload [OF assms(1-3)] by blast
  then have "\<forall>v \<in> insert u A. in_database inflate (docID ?r) (Store ?r) v"
    using drained [OF js, of w u] by (simp add: held_def durable_def)
  moreover have "docID ?r = docID r"
    by (rule front_fields(3), simp)
  moreover have "Store (room_record w u r) = Store ?r"
    using js assms(4) drained(2) [OF js, of w u] by (simp add: room_record_def Let_def request_idle)
  ultimately show ?thesis by simp
qed

lemma handle_durable:
  assumes "held deflate inflate A r" "calm deflate inflate w r" "reachable_doc (ServerClientID (cfg r)) (rdoc r)"
    and "FlushInterval (cfg r) < 0" "u \<in> accepted c r"
  shows "in_database inflate (docID r) (Store (snd (room_handle w c r))) u"
proof -
  obtain d where d: "apply_update (rdoc r) u = Inr d"
    using assms(5) by (auto simp: accepted_def taken_def split: command.splits if_splits sum.splits Message.splits)
  let ?t = "touchDocument r"
  let ?r = "?t\<lparr>rdoc := d\<rparr>"
  have f: "held deflate inflate A ?t" "calm deflate inflate w ?t"
    using assms(1,2) held_core [of ?t r] calm_core [of ?t r] by simp_all
  have g: "cfg ?t = cfg r" "rdoc ?t = rdoc r" "docID ?t = docID r" by (simp_all add: touchDocument_def)
  have h: "held deflate inflate A ?r" "took_in u d" using held_grows [OF f(1), of u d] assms(3) d g by simp_all
  have "calm deflate inflate w ?r" using f(2) calm_cong [of ?r ?t] by simp
  then have st: "in_database inflate (docID r) (Store (room_record w u ?r)) u"
    using record_durable [OF h(1), of w u] h(2) assms(4) g by simp
  have up: "Store (room_update w x u r) = Store (room_record w u ?r)" if "CanWrite x" for x
  proof -
    have "core (room_update w x u r) = core (room_record w u ?r)" using that d by (simp add: room_update_def Let_def)
    then show ?thesis by (rule core_fields)
  qed
  have "Store (room_merge w u r) = Store (room_record w u ?r)"
  proof -
    have "core (room_merge w u r) = core (room_record w u ?r)" using d by (simp add: room_merge_def Let_def)
    then show ?thesis by (rule core_fields)
  qed
  then show ?thesis
    using assms(5) st up
    by (auto simp: accepted_def taken_def room_frame_def split: command.splits if_splits sum.splits Message.splits)
qed

subsection \<open>Nobody is left behind\<close>

lemma send_all_reaches:
  assumes "x \<in> set cs" "Some x \<noteq> except"
  shows "x \<in> set (fst (send_all w frame except cs r)) \<or> (x, frame) \<in> set (drop (length (sent r)) (sent (snd (send_all w frame except cs r))))"
  using assms(1)
proof (induction cs arbitrary: r)
  case (Cons c cs)
  let ?r = "snd (conn_Send w c frame r)"
  obtain fs where fs: "sent (snd (send_all w frame except cs ?r)) = sent ?r @ fs"
    using chatter_send_all [of "{}" ?r w frame except cs] by (auto simp: chatter_def)
  obtain gs where gs: "sent (snd (send_all w frame except cs r)) = sent r @ gs"
    using chatter_send_all [of "{}" r w frame except cs] by (auto simp: chatter_def)
  show ?case
  proof (cases "x = c")
    case True
    then show ?thesis
      using fs assms(2) by (cases "io_takes w c (sent r) frame") (auto simp: Let_def case_prod_unfold conn_Send_def)
  next
    case False
    then have "x \<in> set cs" using Cons(2) by simp
    from Cons(1) [OF this, of r] Cons(1) [OF this, of ?r] show ?thesis
      using fs gs by (cases "io_takes w c (sent r) frame") (auto simp: Let_def case_prod_unfold conn_Send_def)
  qed
qed simp

lemma drop_slow_closes:
  assumes "x \<in> set cs" shows "x \<in> fst ` set (drop (length (closes r)) (closes (drop_slow w cs r)))"
  using assms unfolding drop_slow_fold
proof (induction cs arbitrary: r)
  case (Cons c cs)
  let ?r = "dropSlow w c r"
  obtain ds where ds: "closes (fold (dropSlow w) cs ?r) = closes ?r @ ds"
    using chatter_drop_slow [of "{}" ?r w cs] by (auto simp: chatter_def drop_slow_fold)
  obtain es where es: "closes (leave w c r) = closes r @ es" using chatter_leave [of c r w] by (auto simp: chatter_def)
  have one: "closes ?r = closes r @ es @ [(c, ClosePolicyViolation, str ''outbound buffer full'')]"
    by (simp add: dropSlow_def room_drop_def conn_Close_def es)
  show ?case
  proof (cases "x = c")
    case True
    then show ?thesis using ds one by simp
  next
    case False
    then have "x \<in> fst ` set (drop (length (closes ?r)) (closes (fold (dropSlow w) cs ?r)))" using Cons by simp
    then show ?thesis using ds one by auto
  qed
qed simp

lemma broadcast_reaches:
  assumes "x \<in> fst ` set (conns r)" "Some x \<noteq> except"
  shows "(x, frame) \<in> set (drop (length (sent r)) (sent (broadcast w frame except r)))
    \<or> x \<in> fst ` set (drop (length (closes r)) (closes (broadcast w frame except r)))"
proof -
  obtain slow r1 where s: "send_all w frame except (map fst (conns r)) r = (slow, r1)" by fastforce
  have b: "broadcast w frame except r = drop_slow w slow r1" by (simp add: broadcast_def s)
  obtain fs where fs: "sent r1 = sent r @ fs"
    using chatter_send_all [of "{}" r w frame except "map fst (conns r)"] s by (auto simp: chatter_def)
  have c: "closes r1 = closes r"
  proof -
    have "closes (snd (send_all w frame except cs r)) = closes r" for cs r
      by (induction cs arbitrary: r) (simp_all add: Let_def case_prod_unfold conn_Send_def)
    then show ?thesis using s by (metis snd_conv)
  qed
  obtain gs where gs: "sent (drop_slow w slow r1) = sent r1 @ gs" using chatter_drop_slow [of "{}" r1 w slow] by (auto simp: chatter_def)
  show ?thesis
    using send_all_reaches [of x "map fst (conns r)" except w frame r] drop_slow_closes [of x slow r1 w] assms s b c fs gs
    by auto
qed

end
