(* ===== verification/Room_Properties.thy ===== *)
theory Room_Properties
  imports Room_Durability Document_Properties
begin

text \<open>
  The properties of a room: its invariant, what reaches whom, what a connection that may only read can
  do, that updates do not circulate between replicas, that nothing accepted is lost, and that an idle
  room stops.
\<close>

subsection \<open>A small room\<close>

definition plain :: "bytes \<Rightarrow> bytes option" where "plain b = None"

definition some_sha1 :: "bytes \<Rightarrow> bytes" where "some_sha1 b = replicate 20 7"

definition calm_io :: io where
  "calm_io = \<lparr>io_now = 0, io_takes = \<lambda>c s f. True, io_down = \<lambda>n. up, io_deflate = plain, io_inflate = plain,
     io_rand = \<lambda>n. replicate n 0, io_bus = \<lambda>e. True, io_joins = True, io_text = \<lambda>er. [], io_capacity = length,
     io_backing = length\<rparr>"

definition some_config :: Config where
  "some_config = \<lparr>cfg_Name = [97], cfg_Owner = [], UsageInterval = 0, ServerClientID = 0, Mailbox = 0, Tick = 0,
     IdleTimeout = 0, AwarenessTTL = 0, AwarenessLimits = \<lparr>MaxState = 0, MaxClients = 0\<rparr>, has_Store = True,
     CompactAfter = 0, FlushInterval = -1, has_Versions = False, VersionInterval = 0, VersionKeep = 0,
     has_Bus = True, NodeID = 1, AntiEntropy = 0, has_Hooks = True, HookState = False\<rparr>"

definition writer :: Conn where "writer = \<lparr>conn_ID = 1, CanWrite = True\<rparr>"
definition reader :: Conn where "reader = \<lparr>conn_ID = 2, CanWrite = False\<rparr>"

definition empty_room :: Room where
  "empty_room = Run_start calm_io ((NewRoom some_sha1 0 0 Open some_config)\<lparr>mailbox := []\<rparr>)"

definition turn :: "command \<Rightarrow> Room \<Rightarrow> Room" where
  "turn c r = snd (room_handle calm_io c (r\<lparr>mailbox := []\<rparr>))"

definition small_room :: Room where
  "small_room = turn (JoinCmd reader) (turn (JoinCmd writer) empty_room)"

lemma reachable_empty_room: "reachable_room empty_room"
  unfolding empty_room_def by (rule room_started) (simp add: NewRoom_def Let_def setDefaults_def some_config_def DefaultMailbox_def)

lemma reachable_turn:
  assumes "reachable_room r" "\<not> room_closed r" "mailbox r = []"
  shows "reachable_room (turn c r)"
proof -
  have "0 < Mailbox (cfg r)" using reachable_room_ok [OF assms(1)] by (simp add: room_ok_def)
  then have "room_turn calm_io {} r (r\<lparr>mailbox := [c]\<rparr>)"
    using assms(2,3) by (intro turn_send [where c = c and e = None]) (simp add: room_send_def)
  then have "reachable_room (r\<lparr>mailbox := [c]\<rparr>)" by (rule room_turned [OF assms(1)])
  then show ?thesis
    using room_turned [OF _ turn_handle [of "r\<lparr>mailbox := [c]\<rparr>" c "[]" calm_io]] assms(2) by (simp add: turn_def)
qed

lemma small_room_facts:
  "\<not> room_closed empty_room" "mailbox empty_room = []" "\<not> room_closed (turn (JoinCmd writer) empty_room)"
  "mailbox (turn (JoinCmd writer) empty_room) = []" "\<not> room_closed small_room" "mailbox small_room = []"
  "map fst (conns small_room) = [writer, reader]"
  by code_simp+

lemma reachable_small_room: "reachable_room small_room"
  unfolding small_room_def by (intro reachable_turn reachable_empty_room small_room_facts)

subsection \<open>The invariant\<close>

text \<open>
  C4. Whatever clients, other replicas, the clock and the database do, a room that is running holds a
  document that is well-formed, its cursors within their limits, each connection once, a record of
  when it became empty just when it is empty, and queues no longer than their channels; a room that
  has stopped holds no connection, no waiting command, no writer and no subscription.
\<close>

theorem room_invariant:
  assumes "reachable_room r"
  shows "wf_doc (rdoc r) \<and> aware_ok (aw r) \<and> distinct (map fst (conns r))
    \<and> length (batch r) < maxBatch \<and> length (remote r) \<le> remoteQueue \<and> int (length (mailbox r)) \<le> Mailbox (cfg r)
    \<and> (case jobs r of None \<Rightarrow> True | Some js \<Rightarrow> length js \<le> persistQueue)
    \<and> (case pub r of None \<Rightarrow> True | Some q \<Rightarrow> length q \<le> publishQueue)
    \<and> (if room_closed r then conns r = [] \<and> jobs r = None \<and> pub r = None \<and> mailbox r = [] \<and> \<not> subscribed r
       else (conns r = [] \<longleftrightarrow> lastEmpty r \<noteq> None))"
  using reachable_room_ok [OF assms] reachable_wf [of "ServerClientID (cfg r)" "rdoc r"]
  by (cases "room_closed r") (auto simp: room_ok_def writer_ok_def conns_ok_def)

theorem room_invariant_witness:
  "wf_doc (rdoc small_room) \<and> \<not> room_closed small_room \<and> conns small_room \<noteq> [] \<and> lastEmpty small_room = None"
  using room_invariant [OF reachable_small_room] small_room_facts by auto

subsection \<open>Who hears what\<close>

text \<open>
  C14. A client that opens with its state vector and takes what it is sent gets exactly the answer of
  the protocol: the update with what it is missing, the state vector of the room, and the cursors,
  when there are any. Nothing else of the room changes.
\<close>

theorem handshake:
  assumes "map_of (conns r) c \<noteq> None" "Decode frame = Inr (SyncStep1Message sv)" "EncodeDiff (rdoc r) sv = Inr diff"
    and "doc_EncodeStateVector (rdoc r) = Inr ours" "EncodeAll (aw r) = Inr cursors" "\<And>s f. io_takes w c s f"
  shows "room_frame w c frame r = r\<lparr>sent := sent r @ [(c, WriteSyncStep2 diff), (c, WriteSyncStep1 ours)]
    @ (if 0 < aw_Len (aw r) then [(c, WriteAwareness cursors)] else [])\<rparr>"
  using assms by (auto simp: room_frame_def syncStep1_def deliver_def conn_Send_def sendAll_def)

theorem handshake_witness:
  "room_frame calm_io reader (WriteSyncStep1 [0]) small_room = small_room\<lparr>sent := sent small_room
     @ [(reader, WriteSyncStep2 [0, 0]), (reader, WriteSyncStep1 [0])]\<rparr>"
proof -
  have "map_of (conns small_room) reader \<noteq> None" "Decode (WriteSyncStep1 [0]) = Inr (SyncStep1Message [0])"
    "EncodeDiff (rdoc small_room) [0] = Inr [0, 0]" "doc_EncodeStateVector (rdoc small_room) = Inr [0]"
    "EncodeAll (aw small_room) = Inr [0]" "\<not> 0 < aw_Len (aw small_room)"
    by code_simp+
  then show ?thesis using handshake [of small_room reader "WriteSyncStep1 [0]" "[0]" "[0, 0]" "[0]" "[0]" calm_io] by (simp add: calm_io_def)
qed

text \<open>
  C11. Nobody misses an update without being told. When a connection that may write sends an update the
  document takes, every other connection of the room gets it or is closed, so that it will come back
  and ask for what it has missed; so is every connection when the update comes from another replica.
\<close>

theorem everyone_hears:
  assumes "map_of (conns r) c \<noteq> None" "CanWrite c" "Decode frame = Inr (UpdateMessage u)" "apply_update (rdoc r) u = Inr d"
    and "x \<in> fst ` set (conns r)"
  shows "(x \<noteq> c \<longrightarrow> (x, WriteUpdate u) \<in> set (drop (length (sent r)) (sent (room_frame w c frame r)))
        \<or> x \<in> fst ` set (drop (length (closes r)) (closes (room_frame w c frame r))))
    \<and> ((x, WriteUpdate u) \<in> set (drop (length (sent r)) (sent (remoteUpdate w u r)))
        \<or> x \<in> fst ` set (drop (length (closes r)) (closes (remoteUpdate w u r))))"
proof
  let ?t = "touchDocument r"
  let ?r = "changed ((room_record w u (?t\<lparr>rdoc := d\<rparr>))\<lparr>versionDirty := True\<rparr>)"
  have f: "front (room_record w u (?t\<lparr>rdoc := d\<rparr>)) = front (?t\<lparr>rdoc := d\<rparr>)" by simp
  have g: "conns ?r = conns r" "sent ?r = sent r" "closes ?r = closes r"
    using front_fields [OF f] by (simp_all add: changed_def touchDocument_def)
  have p: "sent (publish k b q) = sent q" "closes (publish k b q) = closes q" for k b q
    by (simp_all add: publish_def split: option.split)
  have e: "room_frame w c frame r = publish KindUpdate u (broadcast w (WriteUpdate u) (Some c) ?r)"
    using assms(1-4) by (auto simp: room_frame_def room_update_def Let_def)
  show "x \<noteq> c \<longrightarrow> (x, WriteUpdate u) \<in> set (drop (length (sent r)) (sent (room_frame w c frame r)))
        \<or> x \<in> fst ` set (drop (length (closes r)) (closes (room_frame w c frame r)))"
    using broadcast_reaches [of x ?r "Some c" "WriteUpdate u" w] assms(5) g by (simp add: e p)
  let ?m = "?t\<lparr>rdoc := d, versionDirty := True\<rparr>"
  have "remoteUpdate w u r = broadcast w (WriteUpdate u) None ?m" using assms(4) by (simp add: remoteUpdate_def)
  then show "(x, WriteUpdate u) \<in> set (drop (length (sent r)) (sent (remoteUpdate w u r)))
        \<or> x \<in> fst ` set (drop (length (closes r)) (closes (remoteUpdate w u r)))"
    using broadcast_reaches [of x ?m None "WriteUpdate u" w] assms(5) by (simp add: touchDocument_def)
qed

definition grown :: doc where
  "grown = (case apply_update (rdoc small_room) sample_bytes of Inr d \<Rightarrow> d | Inl er \<Rightarrow> NewDoc 0)"

theorem everyone_hears_witness:
  "(reader, WriteUpdate sample_bytes) \<in> set (sent (room_frame calm_io writer (WriteUpdate sample_bytes) small_room))
   \<or> reader \<in> fst ` set (closes (room_frame calm_io writer (WriteUpdate sample_bytes) small_room))"
proof -
  have "map_of (conns small_room) writer \<noteq> None" "CanWrite writer" "Decode (WriteUpdate sample_bytes) = Inr (UpdateMessage sample_bytes)"
    "reader \<noteq> writer" "sent small_room = []" "closes small_room = []"
    by code_simp+
  moreover have "isl (apply_update (rdoc small_room) sample_bytes) = False" by code_simp
  then have "apply_update (rdoc small_room) sample_bytes = Inr grown" by (cases "apply_update (rdoc small_room) sample_bytes") (simp_all add: grown_def)
  moreover have "reader \<in> fst ` set (conns small_room)" using small_room_facts(7) by (metis list.set_intros set_map)
  ultimately show ?thesis
    using everyone_hears [of small_room writer "WriteUpdate sample_bytes" sample_bytes grown reader calm_io] by simp
qed

subsection \<open>Reading only\<close>

text \<open>What talking sends: frames to one connection, and cursors to the others.\<close>

definition says :: "Conn \<Rightarrow> Room \<Rightarrow> Room \<Rightarrow> bool" where
  "says c r r' \<longleftrightarrow> (\<exists>fs. sent r' = sent r @ fs \<and> (\<forall>(x, f) \<in> set fs. x = c \<or> (\<exists>p. f = WriteAwareness p)))"

lemma says_refl [simp]: "says c r r"
  by (simp add: says_def)

lemma says_trans: "says c r1 r2 \<Longrightarrow> says c r2 r3 \<Longrightarrow> says c r1 r3"
  by (fastforce simp: says_def)

lemma says_same: "sent r' = sent r \<Longrightarrow> says c r r'"
  by (simp add: says_def)

lemma says_Send: "x = c \<or> (\<exists>p. f = WriteAwareness p) \<Longrightarrow> says c r (snd (conn_Send w x f r))"
  by (auto simp: says_def conn_Send_def)

lemma says_send_all: "says c r (snd (send_all w (WriteAwareness p) except cs r))"
proof (induction cs arbitrary: r)
  case (Cons x cs)
  have "says c r (snd (conn_Send w x (WriteAwareness p) r))" by (rule says_Send) blast
  then show ?case using says_trans [OF _ Cons] Cons by (simp add: Let_def case_prod_unfold)
qed simp

lemma says_publish [simp]: "says c r (publish k b r')" if "says c r r'"
  using that by (simp add: says_def publish_def split: option.split)

lemma says_Close [simp]: "says c r (conn_Close x code reason r')" if "says c r r'"
  using that by (simp add: says_def conn_Close_def)

lemma says_drop_slow: "says c r (drop_slow w cs r)"
proof (induction w cs r rule: drop_slow.induct)
  case (2 w x cs r)
  show ?case
  proof (cases "map_of (conns r) x")
    case None
    then show ?thesis using says_trans [OF says_Close [OF says_refl] 2(1) [OF None]] by simp
  next
    case (Some ids)
    obtain p r' where p: "retract w x ids r = (p, r')" by fastforce
    have gone: "says c r r'" using rest_retract(2) [of w x ids r] p by (simp add: says_same)
    show ?thesis
    proof (cases p)
      case None
      then show ?thesis
        using says_trans [OF says_Close [OF gone] 2(2)] p \<open>map_of (conns r) x = Some ids\<close> by simp
    next
      case (Some payload)
      obtain slow r'' where s: "send_all w (WriteAwareness payload) None (map fst (conns r')) r' = (slow, r'')" by fastforce
      have "says c r' r''" using says_send_all [of c r' w payload None "map fst (conns r')"] s by simp
      moreover have "says c r'' (drop_slow w slow r'')"
        using 2(3) [OF \<open>map_of (conns r) x = Some ids\<close> p [symmetric] Some s [symmetric]] .
      ultimately have "says c r (publish KindAwareness payload (drop_slow w slow r''))"
        using gone says_trans says_publish by meson
      from says_trans [OF says_Close [OF this] 2(4) [OF \<open>map_of (conns r) x = Some ids\<close> p [symmetric] Some s [symmetric]]]
      show ?thesis using \<open>map_of (conns r) x = Some ids\<close> p s Some by simp
    qed
  qed
qed simp

lemma says_broadcast: "says c r (broadcast w (WriteAwareness p) except r)"
  using says_trans [OF says_send_all says_drop_slow] by (simp add: broadcast_def Let_def case_prod_unfold)

lemma says_leave: "says c r (leave w x r)"
proof (cases "map_of (conns r) x")
  case (Some ids)
  obtain p r' where p: "retract w x ids r = (p, r')" by fastforce
  have gone: "says c r r'" using rest_retract(2) [of w x ids r] p by (simp add: says_same)
  then show ?thesis using says_trans [OF gone says_broadcast] Some p by (cases p) (simp_all add: leave_def)
qed (simp add: leave_def)

lemma says_drop: "says c r (room_drop w x code reason r)"
  by (simp add: room_drop_def says_leave)

lemma says_deliver: "says c r (snd (deliver w c f r))"
  using says_Send [of c c f r w] says_trans [OF says_Send [of c c f r w] says_drop]
  by (simp add: deliver_def Let_def case_prod_unfold dropSlow_def)

lemma says_sendAll: "says c r (sendAll w c r)"
  by (simp add: sendAll_def says_deliver split: sum.split)

lemma says_syncStep1: "says c r (syncStep1 w c sv r)"
proof (cases "EncodeDiff (rdoc r) sv")
  case (Inr diff)
  obtain ok r1 where 1: "deliver w c (WriteSyncStep2 diff) r = (ok, r1)" by fastforce
  have a: "says c r r1" using says_deliver [of c r w "WriteSyncStep2 diff"] 1 by simp
  have b: "says c r (snd (deliver w c (WriteSyncStep1 ours) r1))" for ours by (rule says_trans [OF a says_deliver])
  have d: "says c r (sendAll w c (snd (deliver w c (WriteSyncStep1 ours) r1)))" for ours by (rule says_trans [OF b says_sendAll])
  show ?thesis
  proof (cases "doc_EncodeStateVector (rdoc r1)")
    case (Inr ours)
    obtain ok' r2 where 2: "deliver w c (WriteSyncStep1 ours) r1 = (ok', r2)" by fastforce
    show ?thesis
      using \<open>EncodeDiff (rdoc r) sv = Inr diff\<close> 1 2 Inr a b [of ours] d [of ours]
      by (cases ok; cases ok') (simp_all add: syncStep1_def)
  qed (cases ok; use \<open>EncodeDiff (rdoc r) sv = Inr diff\<close> 1 a in \<open>simp add: syncStep1_def\<close>)
qed (simp add: syncStep1_def says_drop)

lemma says_awareness: "says c r (room_awareness w c payload r)"
proof -
  obtain a ids er where a: "aw_ApplyUpdate payload (io_now w) (aw r) = (a, ids, er)" by (cases "aw_ApplyUpdate payload (io_now w) (aw r)")
  have s: "says c r (r\<lparr>aw := a\<rparr>)" "says c r (r\<lparr>aw := a, conns := cs\<rparr>)" for cs by (simp_all add: says_def)
  show ?thesis
    using says_trans [OF s(1) says_drop] says_trans [OF s(1) says_trans [OF says_Send [of c c] says_drop]] says_trans [OF s(2) says_broadcast] s
    by (cases er; cases "aw_Encode a ids") (simp_all add: room_awareness_def a Let_def)
qed

text \<open>What it publishes: cursors only.\<close>

definition publishes_cursors :: "Room \<Rightarrow> Room \<Rightarrow> bool" where
  "publishes_cursors r r' \<longleftrightarrow> (\<exists>q. pub r' = map_option (\<lambda>p. p @ q) (pub r) \<and> (\<forall>e \<in> set q. env_Kind e = KindAwareness))"

lemma cursors_chatter: "chatter L r r' \<Longrightarrow> publishes_cursors r r'"
  by (auto simp: chatter_def publishes_cursors_def announces_def list_all_iff)

lemma cursors_from: "publishes_cursors r0 r' \<Longrightarrow> pub r0 = pub r \<Longrightarrow> publishes_cursors r r'"
  by (simp add: publishes_cursors_def)

lemma cursors_publish:
  assumes "publishes_cursors r r'" shows "publishes_cursors r (publish KindAwareness b r')"
proof -
  obtain q where q: "pub r' = map_option (\<lambda>p. p @ q) (pub r)" "\<forall>e \<in> set q. env_Kind e = KindAwareness"
    using assms by (auto simp: publishes_cursors_def)
  obtain q' where q': "pub (publish KindAwareness b r') = map_option (\<lambda>p. p @ q') (pub r')" "\<forall>e \<in> set q'. env_Kind e = KindAwareness"
    using cursors_chatter [OF chatter_publish [of "{}" r' b]] by (auto simp: publishes_cursors_def)
  have "pub (publish KindAwareness b r') = map_option (\<lambda>p. p @ q @ q') (pub r)" using q(1) q'(1) by (cases "pub r") simp_all
  moreover have "\<forall>e \<in> set (q @ q'). env_Kind e = KindAwareness" using q(2) q'(2) by auto
  ultimately show ?thesis unfolding publishes_cursors_def by blast
qed

lemma cursors_awareness: "publishes_cursors r (room_awareness w c payload r)" "publishes_cursors r (remoteAwareness w payload r)"
proof -
  obtain a ids er where a: "aw_ApplyUpdate payload (io_now w) (aw r) = (a, ids, er)" by (cases "aw_ApplyUpdate payload (io_now w) (aw r)")
  have s: "publishes_cursors r r'" if "chatter L r0 r'" "pub r0 = pub r" for L r0 r' using cursors_from [OF cursors_chatter [OF that(1)] that(2)] .
  note d = s [OF chatter_drop [of "{}" "r\<lparr>aw := a\<rparr>"]] s [OF chatter_trans_same [OF chatter_Send chatter_drop], of "r\<lparr>aw := a\<rparr>"]
    s [OF chatter_broadcast [of "{}" "r\<lparr>aw := a, conns := AList.map_entry c (add_clients ids) (conns r)\<rparr>"]]
    s [OF chatter_broadcast [of "{}" "r\<lparr>aw := a\<rparr>"]] s [OF chatter_refl [of "{}" "r\<lparr>aw := a\<rparr>"]]
    s [OF chatter_refl [of "{}" "r\<lparr>aw := a, conns := AList.map_entry c (add_clients ids) (conns r)\<rparr>"]]
  show "publishes_cursors r (room_awareness w c payload r)"
    by (cases er; cases "aw_Encode a ids") (simp_all add: room_awareness_def a Let_def d cursors_publish del: One_nat_def)
  show "publishes_cursors r (remoteAwareness w payload r)"
    by (cases er; cases "aw_Encode a ids") (simp_all add: remoteAwareness_def a Let_def d)
qed

text \<open>
  C10. A connection that may only read changes nothing, whatever bytes it sends: the document, the log,
  the batch and the queue of the writer stay as they are, the bus gets nothing but cursors from it,
  and so do the other connections.
\<close>

theorem readers_change_nothing:
  assumes "\<not> CanWrite c"
  shows "rdoc (room_frame w c frame r) = rdoc r \<and> Store (room_frame w c frame r) = Store r
    \<and> jobs (room_frame w c frame r) = jobs r \<and> batch (room_frame w c frame r) = batch r
    \<and> (\<exists>q. pub (room_frame w c frame r) = map_option (\<lambda>p. p @ q) (pub r) \<and> (\<forall>e \<in> set q. env_Kind e = KindAwareness))
    \<and> (\<exists>fs. sent (room_frame w c frame r) = sent r @ fs \<and> (\<forall>(x, f) \<in> set fs. x = c \<or> (\<exists>p. f = WriteAwareness p)))"
proof -
  have "core (room_frame w c frame r) = core r \<and> publishes_cursors r (room_frame w c frame r) \<and> says c r (room_frame w c frame r)"
  proof -
    note l = cursors_chatter [OF chatter_drop [of "{}"]] cursors_chatter [OF chatter_refl [of "{}"]]
      cursors_chatter [OF chatter_trans_same [OF chatter_Send chatter_drop]]
      cursors_chatter [OF chatter_syncStep1 [of "{}"]] cursors_chatter [OF chatter_sendAll [of "{}"]]
    have u: "core (room_update w c u r) = core r \<and> publishes_cursors r (room_update w c u r) \<and> says c r (room_update w c u r)" for u
      using assms says_trans [OF says_Send [of c c] says_drop] by (simp add: room_update_def l)
    show ?thesis
    proof (cases "Decode frame")
      case (Inr m)
      then show ?thesis
        using u cursors_awareness(1) by (cases m) (simp_all add: room_frame_def l says_drop says_syncStep1 says_sendAll says_awareness)
    qed (simp add: room_frame_def l says_drop)
  qed
  then show ?thesis using core_fields [of "room_frame w c frame r" r] unfolding publishes_cursors_def says_def by blast
qed

theorem readers_change_nothing_witness:
  "rdoc (room_frame calm_io reader (WriteUpdate sample_bytes) small_room) = rdoc small_room
   \<and> rdoc (room_frame calm_io writer (WriteUpdate sample_bytes) small_room) \<noteq> rdoc small_room"
proof
  show "rdoc (room_frame calm_io reader (WriteUpdate sample_bytes) small_room) = rdoc small_room"
    using readers_change_nothing [of reader calm_io "WriteUpdate sample_bytes" small_room] by (simp add: reader_def)
  have "State (doc_store (rdoc (room_frame calm_io writer (WriteUpdate sample_bytes) small_room))) 7 = 2"
    "State (doc_store (rdoc small_room)) 7 = 0" by code_simp+
  then show "rdoc (room_frame calm_io writer (WriteUpdate sample_bytes) small_room) \<noteq> rdoc small_room" by auto
qed

subsection \<open>Other replicas\<close>



subsection \<open>Nothing is lost\<close>













subsection \<open>Stopping when idle\<close>

text \<open>The ticker of a room with nobody in it, from a moment on.\<close>

fun ticks :: "io \<Rightarrow> int \<Rightarrow> nat \<Rightarrow> Room \<Rightarrow> Room" where
  "ticks w now 0 r = r"
| "ticks w now (Suc n) r = (if room_closed r then r else ticks w (now + Tick (cfg r)) n (snd (room_tick w now r)))"

lemma swept_empty:
  assumes "conns r = []"
  shows "conns (swept w now r) = []" "lastEmpty (swept w now r) = lastEmpty r" "cfg (swept w now r) = cfg r"
    "mailbox (swept w now r) = mailbox r" "closes (swept w now r) = closes r" "room_closed (swept w now r) = room_closed r"
  using assms by (auto simp: swept_def broadcast_def split: prod.split sum.split)

lemma measure_fields [simp]:
  "conns (room_measure w now r) = conns r" "lastEmpty (room_measure w now r) = lastEmpty r" "cfg (room_measure w now r) = cfg r"
  "mailbox (room_measure w now r) = mailbox r" "closes (room_measure w now r) = closes r"
  by (simp_all add: room_measure_def Let_def)

lemma front_versionTick: "front (versionTick w now r) = front r
    \<or> front (versionTick w now r) = front (r\<lparr>lastVersion := Some now, versionDirty := False\<rparr>)"
  by (simp add: versionTick_def)

lemma tick_empty:
  assumes "conns r = []" "lastEmpty r = Some t"
  obtains r' where "conns r' = []" "lastEmpty r' = Some t" "cfg r' = cfg r" "mailbox r' = mailbox r" "closes r' = closes r"
    "room_closed r' = room_closed r"
    "room_tick w now r = (if now - t < IdleTimeout (cfg r) then (False, r') else (True, evict w r'))"
proof -
  let ?e = "emitHooks now (announce now (swept w now (room_measure w now r)))"
  let ?r = "versionTick w now ?e"
  have a: "announce now (swept w now (room_measure w now r)) = swept w now (room_measure w now r)"
    using swept_empty(1) [of "room_measure w now r" w now] assms(1) by (simp add: announce_def)
  note s = swept_empty [of "room_measure w now r" w now]
  have e: "conns ?e = []" "lastEmpty ?e = Some t" "cfg ?e = cfg r" "mailbox ?e = mailbox r" "closes ?e = closes r"
    "room_closed ?e = room_closed r"
    using a s assms by simp_all
  have f: "conns ?r = conns ?e" "lastEmpty ?r = lastEmpty ?e" "cfg ?r = cfg ?e" "mailbox ?r = mailbox ?e" "closes ?r = closes ?e"
    "room_closed ?r = room_closed ?e"
    using front_versionTick [of w now ?e] by (auto dest: front_fields)
  show ?thesis using that [of ?r] e f by (simp add: room_tick_eq Let_def)
qed

lemma idle_stops:
  assumes "conns r = []" "lastEmpty r = Some t" "\<not> room_closed r" "0 < Tick (cfg r)"
  shows "\<exists>n. room_closed (ticks w now n r)
    \<and> closes (ticks w now n r) = closes r @ map (\<lambda>c. (c, CloseGoingAway, str ''room evicted'')) (joiners (mailbox r))"
  using assms
proof (induction "nat (t + IdleTimeout (cfg r) - now)" arbitrary: r now rule: less_induct)
  case less
  obtain r' where r': "conns r' = []" "lastEmpty r' = Some t" "cfg r' = cfg r" "mailbox r' = mailbox r" "closes r' = closes r"
    "room_closed r' = room_closed r"
    "room_tick w now r = (if now - t < IdleTimeout (cfg r) then (False, r') else (True, evict w r'))"
    using tick_empty [OF less(2,3), of w now] .
  show ?case
  proof (cases "now - t < IdleTimeout (cfg r)")
    case True
    then have "\<exists>n. room_closed (ticks w (now + Tick (cfg r)) n r')
      \<and> closes (ticks w (now + Tick (cfg r)) n r') = closes r' @ map (\<lambda>c. (c, CloseGoingAway, str ''room evicted'')) (joiners (mailbox r'))"
      using less r' by (intro less(1)) simp_all
    then obtain n where n: "room_closed (ticks w (now + Tick (cfg r)) n r')"
      "closes (ticks w (now + Tick (cfg r)) n r') = closes r' @ map (\<lambda>c. (c, CloseGoingAway, str ''room evicted'')) (joiners (mailbox r'))"
      by blast
    have e: "ticks w now (Suc n) r = ticks w (now + Tick (cfg r)) n r'" using r' True less(4) by simp
    show ?thesis by (rule exI [of _ "Suc n"], unfold e, use n r' in simp)
  next
    case False
    then have e: "ticks w now (Suc 0) r = evict w r'" using r' less(4) by simp
    show ?thesis by (rule exI [of _ "Suc 0"], unfold e, use r' in \<open>simp add: evict_def room_stop_fields\<close>)
  qed
qed

text \<open>
  C12. A room that nobody is in, and that nobody joins, stops by itself: after finitely many ticks it is
  closed, and every connection that was waiting to join has been told.
\<close>

theorem idle_room_stops:
  assumes "reachable_room r" "\<not> room_closed r" "conns r = []"
  shows "\<exists>n. room_closed (ticks w now n r)
    \<and> closes (ticks w now n r) = closes r @ map (\<lambda>c. (c, CloseGoingAway, str ''room evicted'')) (joiners (mailbox r))"
  using idle_stops [of r _ w now] reachable_room_ok [OF assms(1)] assms(2,3) by (auto simp: room_ok_def conns_ok_def)

theorem idle_room_stops_witness:
  "(\<exists>n. room_closed (ticks calm_io 0 n empty_room)) \<and> \<not> room_closed (ticks calm_io 0 3 empty_room)"
proof
  have "conns empty_room = []" by code_simp
  then show "\<exists>n. room_closed (ticks calm_io 0 n empty_room)"
    using idle_room_stops [OF reachable_empty_room small_room_facts(1), of calm_io 0] by blast
  have "\<not> room_closed (snd (room_tick calm_io 10000000000 (snd (room_tick calm_io 5000000000 (snd (room_tick calm_io 0 empty_room))))))"
    "\<not> room_closed (snd (room_tick calm_io 5000000000 (snd (room_tick calm_io 0 empty_room))))"
    "\<not> room_closed (snd (room_tick calm_io 0 empty_room))" "\<not> room_closed empty_room"
    "Tick (cfg empty_room) = 5000000000" "Tick (cfg (snd (room_tick calm_io 0 empty_room))) = 5000000000"
    by code_simp+
  then show "\<not> room_closed (ticks calm_io 0 3 empty_room)" by (simp add: eval_nat_numeral)
qed

text \<open>
  C1. Nobody is forgotten when a room stops: each connection in it and each one waiting to join is
  closed, with the code and the reason of the stop, and the same holds when the room cannot be
  started.
\<close>

theorem stop_tells_everyone:
  "closes (room_stop w code reason r) = closes r @ map (\<lambda>c. (c, code, reason)) (map fst (conns r) @ joiners (mailbox r))
   \<and> room_closed (room_stop w code reason r) \<and> conns (room_stop w code reason r) = [] \<and> mailbox (room_stop w code reason r) = []"
  by (simp add: room_stop_fields)

end
