(* ===== verification/Spec2Isabelle.thy ===== *)
theory Spec2Isabelle
  imports Codec_Properties Document_Properties Edge_Properties Database_Properties Room_Properties
begin

text \<open>
  A verification development of the collaboration server: a server, written in Go, that speaks the
  wire protocol of Yjs, keeps the documents its clients edit in memory, merges their updates, hands
  them on to the other clients and to other replicas, and stores them in PostgreSQL.

  \<^bold>\<open>The parts and how they interact.\<close> A client sends frames (\<open>internal/protocol\<close>) that carry updates
  in a binary format (\<open>internal/crdt/lib0\<close>, \<open>internal/crdt\<close>). A document (\<open>crdt/doc.go\<close>) integrates
  the structs of an update into its store, resolves conflicts between concurrent insertions, holds
  back what depends on structs it does not have, and encodes for a peer what the peer is missing.
  Cursors and names of the people editing are a separate, transient state (\<open>protocol/awareness.go\<close>).
  A room (\<open>internal/room\<close>) is one open document: it answers the frames of its connections, hands updates
  on to the others, writes them through a goroutine of its own and stops when it is idle.
  Replicas exchange updates over a bus (\<open>internal/cluster\<close>). The database (\<open>internal/store\<close>) keeps for
  each document a snapshot and the log of the updates that came after it, versions of it, and its
  owner. At the edge, requests are attributed to addresses, limited in rate and signed
  (\<open>internal/gateway\<close>, \<open>internal/signature\<close>).

  \<^bold>\<open>The theories.\<close>

  \<^item> \<open>Prelude\<close>: bytes, results, errors and the collections of rules; generic lemmas.
  \<^item> \<open>Lib0\<close>, \<open>Utf16\<close>, \<open>Lib0_Any\<close>: the decoder and the encoder (\<open>lib0/decoder.go\<close>, \<open>lib0/encoder.go\<close>,
    \<open>lib0/any.go\<close>), lengths in UTF-16 units. The judgements \<open>emits\<close>, \<open>parses\<close> and \<open>writable\<close> relate
    writers and readers; the locale \<open>codec\<close> gives the round trip for any pair of them.
  \<^item> \<open>Ids\<close>, \<open>Delete_Set\<close>, \<open>Contents\<close>, \<open>Structs\<close>, \<open>Updates\<close>: identifiers, state vectors, delete sets,
    contents, structs and updates (\<open>id.go\<close>, \<open>statevector.go\<close>, \<open>deleteset.go\<close>, \<open>content.go\<close>, \<open>struct.go\<close>,
    \<open>update.go\<close>), with their wire forms. The locale \<open>id_set\<close> is what a set of identifiers promises.
  \<^item> \<open>Struct_Store\<close>, \<open>Links\<close>, \<open>Integrate\<close>, \<open>Doc\<close>: the store (\<open>structstore.go\<close>), the links between its
    items, integration (\<open>doc.go\<close>) and the document. Pointers between items are the identifiers the
    items start at, so a split or a merge changes the store and not the pointers. \<open>wf_store\<close> is the
    invariant: for each client one struct per clock from 0 on, and links that form finite lists. The
    locales \<open>doc_op\<close> and \<open>keeps\<close> are what every operation on a document preserves.
  \<^item> \<open>Views\<close>: text, map and subdocument views and the memory estimate (\<open>ytext.go\<close>, \<open>ymap.go\<close>,
    \<open>subdoc.go\<close>, \<open>memory.go\<close>).
  \<^item> \<open>Messages\<close>, \<open>Awareness\<close>, \<open>Cluster\<close>, \<open>Limiter\<close>, \<open>Client_IP\<close>, \<open>Signature\<close>, \<open>Uuid\<close>: one theory for each
    component of the edge.
  \<^item> \<open>Database\<close>, \<open>Database_Blobs\<close>, \<open>Durability\<close>: the tables, the object storage beside them, and what a
    reader finds after any sequence of operations. Each operation takes the set of its calls that
    fail, so that every early return is a branch and a theorem about all such sets is a theorem about
    all failures.
  \<^item> \<open>Room\<close>: a room as a record whose channels are queues, with every command, the tick, the envelopes of
    the bus and the writer. \<open>Room_Steps\<close> is its invariant \<open>room_ok\<close> and the step relation \<open>room_turn\<close>, in
    which the room, its writer, its publisher and its callers take turns in any order.
    \<open>Room_Durability\<close> shows that what a room accepted stays in its queue, in the log or in a snapshot,
    across restarts.
  \<^item> \<open>Codec_Properties\<close>, \<open>Document_Properties\<close>, \<open>Edge_Properties\<close>, \<open>Database_Properties\<close>,
    \<open>Room_Properties\<close> and this theory hold the properties, each with a concrete instance.

  \<^bold>\<open>How the model relates to the code.\<close> Every definition has the name of the Go function or type it
  translates where HOL allows it. Errors are values of the type \<open>err\<close> or of an error type of the
  component, and a fallible function returns a sum. A Go map is an association list and iteration over
  it follows that list; results that do not depend on the order are proved so. Integers of the wire
  format are natural numbers with the bounds of the code written out, and the 64-bit sum of the
  variable length integers wraps. Time is an integer number of nanoseconds and an argument.

  \<^bold>\<open>Termination.\<close> No definition uses fuel where the code does not bound a loop itself, except the walks
  along the links of the store: conflict resolution, the walk over the items of a type and the search
  for the first item. There the fuel is the number of items, and \<open>apply_update_total\<close> and \<open>walk_returns\<close>
  show that it is enough for every reachable document.

  \<^bold>\<open>Parameters.\<close> The parsers of addresses, HMAC, SHA-1, the deflate codec, random bytes and the
  collation of the database are arguments of the definitions; what the theorems need of them is a
  hypothesis, and the instance that follows a theorem shows that it can hold.

  \<^bold>\<open>Not modelled.\<close> The Redis client, the WebSocket pumps, HTTP handlers, the object storage client,
  metrics, the audit log and the command line tools call other systems and hold no state that is not
  modelled elsewhere; the rendering of a document as JSON is output only.
\<close>

subsection \<open>Documents and the database\<close>





end
